(* ===== verification/Prelude.thy ===== *)
theory Prelude
  imports Main "HOL-Library.Word"
begin

text \<open>
  Shared vocabulary of the development: bytes and byte strings, results of fallible C++
  functions as sums (an exception or an error return is an \<^term>\<open>Inl\<close> value), spans over byte
  vectors (\<^verbatim>\<open>std::span::subspan\<close> and in-place field writes), 64-bit unsigned arithmetic on
  \<^typ>\<open>nat\<close> with the wrap-around written out, and the theorem collections the component proofs
  draw on.
\<close>

unbundle bit_operations_syntax

named_theorems layout_simps \<open>reading fields back from a byte vector after field writes\<close>

section \<open>Bytes and results\<close>

type_synonym byte = "8 word"
type_synonym bytes = "byte list"

type_synonym ('e, 'a) result = "'e + 'a"

text \<open>The exceptions of the standard library that the sources throw, with their message.\<close>

datatype std_exn =
    invalid_argument string
  | length_error string
  | logic_error string
  | out_of_range string
  | runtime_error string
  | overflow_error string

text \<open>Sequencing of fallible steps: an error skips the rest, as a C++ exception does.\<close>

definition bindE :: "('e, 'a) result \<Rightarrow> ('a \<Rightarrow> ('e, 'b) result) \<Rightarrow> ('e, 'b) result" where
  "bindE r f = (case r of Inl e \<Rightarrow> Inl e | Inr x \<Rightarrow> f x)"

text \<open>Throw \<open>e\<close> when the condition holds, else go on.\<close>

definition throw_if :: "bool \<Rightarrow> 'e \<Rightarrow> ('e, 'a) result \<Rightarrow> ('e, 'a) result" where
  "throw_if c e r = (if c then Inl e else r)"

text \<open>The computation returns, with a value that satisfies \<open>P\<close>.\<close>

definition ok_to :: "('a \<Rightarrow> bool) \<Rightarrow> ('e, 'a) result \<Rightarrow> bool" where
  "ok_to P r = (case r of Inl e \<Rightarrow> False | Inr x \<Rightarrow> P x)"

section \<open>Spans over vectors\<close>

text \<open>\<^verbatim>\<open>span.subspan(offset, count)\<close>.\<close>

definition subspan :: "nat \<Rightarrow> nat \<Rightarrow> 'a list \<Rightarrow> 'a list" where
  "subspan offset count xs = take count (drop offset xs)"

text \<open>
  Copying \<open>src\<close> over the elements of a vector from \<open>offset\<close> on, as a write through
  \<^verbatim>\<open>subspan(offset, n)\<close> or \<^verbatim>\<open>std::ranges::copy\<close> to \<^verbatim>\<open>begin() + offset\<close> does.
\<close>

definition write_at :: "nat \<Rightarrow> 'a list \<Rightarrow> 'a list \<Rightarrow> 'a list" where
  "write_at offset src dst = take offset dst @ src @ drop (offset + length src) dst"

section \<open>Unsigned 64-bit arithmetic on natural numbers\<close>

definition u64_max :: nat where
  "u64_max = 2 ^ 64 - 1"

definition add64 :: "nat \<Rightarrow> nat \<Rightarrow> nat" where
  "add64 a b = (a + b) mod 2 ^ 64"

definition sub64 :: "nat \<Rightarrow> nat \<Rightarrow> nat" where
  "sub64 a b = (a + 2 ^ 64 - b) mod 2 ^ 64"

section \<open>Lemmas on results\<close>

lemma bindE_simps [simp]:
  "bindE (Inl e) f = Inl e"
  "bindE (Inr x) f = f x"
  by (simp_all add: bindE_def)

lemma bindE_eq_Inr: "bindE r f = Inr y \<longleftrightarrow> (\<exists>x. r = Inr x \<and> f x = Inr y)"
  by (cases r) auto

lemma bindE_eq_Inl: "bindE r f = Inl e \<longleftrightarrow> r = Inl e \<or> (\<exists>x. r = Inr x \<and> f x = Inl e)"
  by (cases r) auto

lemma bindE_assoc: "bindE (bindE r f) g = bindE r (\<lambda>x. bindE (f x) g)"
  by (cases r) auto

lemma bindE_cong [fundef_cong]:
  "r = r' \<Longrightarrow> (\<And>x. r' = Inr x \<Longrightarrow> f x = f' x) \<Longrightarrow> bindE r f = bindE r' f'"
  by (cases r') auto

lemma ok_to_simps [simp]:
  "ok_to P (Inr x) = P x"
  "ok_to P (Inl e) = False"
  by (simp_all add: ok_to_def)

lemma ok_to_bindE: "ok_to Q (bindE r f) \<longleftrightarrow> ok_to (\<lambda>x. ok_to Q (f x)) r"
  by (cases r) auto

lemma ok_to_mono: "ok_to P r \<Longrightarrow> (\<And>x. r = Inr x \<Longrightarrow> P x \<Longrightarrow> Q x) \<Longrightarrow> ok_to Q r"
  by (cases r) auto

lemma ok_to_iff: "ok_to P r \<longleftrightarrow> (\<exists>x. r = Inr x \<and> P x)"
  by (cases r) auto

lemma throw_if_simps [simp]:
  "throw_if True e r = Inl e"
  "throw_if False e r = r"
  by (simp_all add: throw_if_def)

lemma throw_if_eq_Inr: "throw_if c e r = Inr y \<longleftrightarrow> \<not> c \<and> r = Inr y"
  by (cases c) auto

section \<open>Lemmas on spans\<close>

lemma length_subspan [simp]: "length (subspan off n xs) = min n (length xs - off)"
  by (simp add: subspan_def min.commute)

lemma nth_subspan: "i < n \<Longrightarrow> off + i < length xs \<Longrightarrow> subspan off n xs ! i = xs ! (off + i)"
  by (simp add: subspan_def)

lemma subspan_all [simp]: "subspan 0 (length xs) xs = xs"
  by (simp add: subspan_def)

lemma subspan_append_left: "off + n \<le> length xs \<Longrightarrow> subspan off n (xs @ ys) = subspan off n xs"
  by (simp add: subspan_def)

lemma subspan_append_right:
  "length xs \<le> off \<Longrightarrow> subspan off n (xs @ ys) = subspan (off - length xs) n ys"
  by (simp add: subspan_def)

lemma subspan_take: "off + n \<le> k \<Longrightarrow> subspan off n (take k xs) = subspan off n xs"
  by (simp add: subspan_def drop_take min_def)

lemma subspan_drop: "subspan off n (drop k xs) = subspan (k + off) n xs"
  by (simp add: subspan_def add.commute)

lemma length_write_at [simp]:
  "off + length src \<le> length dst \<Longrightarrow> length (write_at off src dst) = length dst"
  by (simp add: write_at_def)

lemma subspan_write_at_same [layout_simps]:
  "n = length src \<Longrightarrow> off \<le> length dst \<Longrightarrow> subspan off n (write_at off src dst) = src"
  by (simp add: subspan_def write_at_def)

lemma subspan_write_at_before [layout_simps]:
  "o' + n \<le> off \<Longrightarrow> off \<le> length dst \<Longrightarrow>
   subspan o' n (write_at off src dst) = subspan o' n dst"
  by (simp add: write_at_def subspan_append_left subspan_take)

lemma subspan_write_at_after [layout_simps]:
  "off + length src \<le> o' \<Longrightarrow> off + length src \<le> length dst \<Longrightarrow>
   subspan o' n (write_at off src dst) = subspan o' n dst"
  by (simp add: subspan_def write_at_def)

lemma take_write_at_before [layout_simps]:
  "k \<le> off \<Longrightarrow> off \<le> length dst \<Longrightarrow> take k (write_at off src dst) = take k dst"
  by (simp add: write_at_def)

lemma drop_write_at_after [layout_simps]:
  "off + length src \<le> k \<Longrightarrow> off + length src \<le> length dst \<Longrightarrow>
   drop k (write_at off src dst) = drop k dst"
  by (simp add: write_at_def)

lemma nth_write_at_outside [layout_simps]:
  "i < off \<or> off + length src \<le> i \<Longrightarrow> off + length src \<le> length dst \<Longrightarrow> i < length dst \<Longrightarrow>
   write_at off src dst ! i = dst ! i"
  by (auto simp: write_at_def nth_append)

lemma nth_write_at_inside [layout_simps]:
  "off \<le> i \<Longrightarrow> i < off + length src \<Longrightarrow> off \<le> length dst \<Longrightarrow>
   write_at off src dst ! i = src ! (i - off)"
  by (auto simp: write_at_def nth_append)

lemma subspan_replicate [layout_simps]:
  "off + n \<le> k \<Longrightarrow> subspan off n (replicate k x) = replicate n x"
  by (simp add: subspan_def min_def)

lemma write_at_append_left:
  "off + length src \<le> length xs \<Longrightarrow> write_at off src (xs @ ys) = write_at off src xs @ ys"
  by (simp add: write_at_def)

lemma write_at_append_right:
  "length xs \<le> off \<Longrightarrow> write_at off src (xs @ ys) = xs @ write_at (off - length xs) src ys"
  by (simp add: write_at_def add.commute)

lemma write_at_whole: "length dst = length src \<Longrightarrow> write_at 0 src dst = src"
  by (simp add: write_at_def)

lemma write_at_front: "length ys = length src \<Longrightarrow> write_at 0 src (ys @ zs) = src @ zs"
  by (simp add: write_at_def)

lemmas write_at_append = write_at_append_left write_at_append_right write_at_whole write_at_front

lemma write_at_middle:
  "length xs = off \<Longrightarrow> length ys = length src \<Longrightarrow>
   write_at off src (xs @ ys @ zs) = xs @ src @ zs"
  by (simp add: write_at_def)

lemma subspan_of_prefix: "off + n \<le> length ps \<Longrightarrow> bs = ps @ rest \<Longrightarrow> subspan off n bs = subspan off n ps"
  by (simp add: subspan_append_left)

lemma nth_of_prefix: "i < length ps \<Longrightarrow> bs = ps @ rest \<Longrightarrow> bs ! i = ps ! i"
  by (simp add: nth_append)

lemma drop_subspan: "drop off xs = subspan off n xs @ drop (off + n) xs"
  by (simp add: subspan_def) (metis add.commute append_take_drop_id drop_drop)

lemma subspan_join: "b = a + n \<Longrightarrow> subspan a n xs @ subspan b m xs = subspan a (n + m) xs"
  by (simp add: subspan_def take_add) (simp add: add.commute)

lemma subspan_0: "subspan 0 n xs = take n xs"
  by (simp add: subspan_def)

lemma subspan_four:
  "off + 4 \<le> length xs \<Longrightarrow>
   subspan off 4 xs = [xs ! off, xs ! (off + 1), xs ! (off + 2), xs ! (off + 3)]"
  by (rule nth_equalityI) (auto simp: nth_subspan less_Suc_eq numeral_nat)

lemma take_drop_subspan: "off \<le> k \<Longrightarrow> take k xs = take off xs @ subspan off (k - off) xs"
  by (simp add: subspan_def take_add [symmetric])

section \<open>Lemmas on 64-bit arithmetic\<close>

lemma add64_small [simp]: "a + b < 2 ^ 64 \<Longrightarrow> add64 a b = a + b"
  by (simp add: add64_def)

lemma add64_less: "add64 a b < 2 ^ 64"
  by (simp add: add64_def)

lemma sub_mod_exact: "b \<le> a \<Longrightarrow> a < m \<Longrightarrow> (a + m - b) mod m = a - (b :: nat)"
proof -
  assume "b \<le> a" "a < m"
  then have "a + m - b = (a - b) + m" "a - b < m" by auto
  then show ?thesis by (metis mod_add_self2 mod_less)
qed

lemma sub64_small [simp]: "b \<le> a \<Longrightarrow> a < 2 ^ 64 \<Longrightarrow> sub64 a b = a - b"
  unfolding sub64_def by (rule sub_mod_exact)

lemma less_u64_max: "a < u64_max \<Longrightarrow> Suc a < 2 ^ 64"
  by (simp add: u64_max_def)

lemma unat_of_nat64: "a < 2 ^ 64 \<Longrightarrow> unat (of_nat a :: 64 word) = a"
  by (simp add: unat_of_nat)

lemma unat_eq_imp_of_nat: "unat w = n \<Longrightarrow> w = of_nat n"
  by auto

lemma unat_of_nat32: "a < 2 ^ 32 \<Longrightarrow> unat (of_nat a :: 32 word) = a"
  by (simp add: unat_of_nat)

end
