(* ===== verification/Wire.thy ===== *)
theory Wire
  imports Prelude
begin

text \<open>
  Big-endian integers on the wire (\<^verbatim>\<open>src/protocol/wire.h\<close>, and the 16-bit helpers that every
  record codec repeats, \<^verbatim>\<open>src/storage/wal_record.cpp\<close>). A write returns the bytes that the C++
  function stores through its span. The locale \<open>fixed_width_codec\<close> is the contract the record
  codecs use: a value is written in \<open>w\<close> bytes and read back unchanged.
\<close>

section \<open>Definitions\<close>

definition write_u16 :: "16 word \<Rightarrow> bytes" where
  "write_u16 v = [ucast (drop_bit 8 v AND 0xFF), ucast (v AND 0xFF)]"

definition read_u16 :: "bytes \<Rightarrow> 16 word" where
  "read_u16 src = push_bit 8 (ucast (src ! 0)) OR ucast (src ! 1)"

definition write_u32 :: "32 word \<Rightarrow> bytes" where
  "write_u32 v =
     [ucast (drop_bit 24 v AND 0xFF), ucast (drop_bit 16 v AND 0xFF),
      ucast (drop_bit 8 v AND 0xFF), ucast (v AND 0xFF)]"

definition write_u64 :: "64 word \<Rightarrow> bytes" where
  "write_u64 v = map (\<lambda>index. ucast (drop_bit ((7 - index) * 8) v AND 0xFF)) [0..<8]"

definition read_u32 :: "bytes \<Rightarrow> 32 word" where
  "read_u32 src =
     push_bit 24 (ucast (src ! 0)) OR push_bit 16 (ucast (src ! 1)) OR
     push_bit 8 (ucast (src ! 2)) OR ucast (src ! 3)"

definition read_u64 :: "bytes \<Rightarrow> 64 word" where
  "read_u64 src = foldl (\<lambda>v b. push_bit 8 v OR ucast b) 0 (take 8 src)"

section \<open>The contract of a fixed-width field\<close>

locale fixed_width_codec =
  fixes width :: nat
    and put :: "'a \<Rightarrow> bytes"
    and get :: "bytes \<Rightarrow> 'a"
  assumes put_length: "length (put v) = width"
    and get_put: "get (put v) = v"
    and put_get: "length bs = width \<Longrightarrow> put (get bs) = bs"
begin

lemma put_inject: "put v = put v' \<longleftrightarrow> v = v'"
  using get_put by metis

lemma get_field:
  "off + width \<le> length dst \<Longrightarrow> get (subspan off width (write_at off (put v) dst)) = v"
  by (simp add: subspan_write_at_same put_length get_put)

lemma get_inject: "length bs = width \<Longrightarrow> length bs' = width \<Longrightarrow> get bs = get bs' \<longleftrightarrow> bs = bs'"
  using put_get by metis

lemma get_eq_iff: "length bs = width \<Longrightarrow> get bs = v \<longleftrightarrow> bs = put v"
  using put_get get_put by metis

lemma put_not_Nil: "0 < width \<Longrightarrow> put v \<noteq> []"
  using put_length by fastforce

end

section \<open>Splitting a word into bytes\<close>

lemma bit_byte_mask: "bit (0xFF :: 'a::len word) n \<longleftrightarrow> n < LENGTH('a) \<and> n < 8"
proof -
  have "(0xFF :: 'a word) = mask 8" by (simp add: mask_eq_exp_minus_1)
  then show ?thesis by (simp only: bit_mask_iff) (auto simp: possible_bit_word)
qed

lemma ucast_byte_mask [simp]: "ucast (x AND 0xFF :: 'a::len word) = (ucast x :: byte)"
  by (rule bit_word_eqI)
     (auto simp: bit_and_iff bit_ucast_iff bit_byte_mask simp del: bit_numeral_word_iff
           dest: bit_imp_le_length)

lemma push_drop_byte:
  "push_bit 8 (drop_bit (n + 8) w) OR ucast (ucast (drop_bit n w) :: byte)
     = drop_bit n (w :: 'a::len word)"
proof -
  have "push_bit 8 (drop_bit 8 x) OR ucast (ucast x :: byte) = x" for x :: "'a word"
    by (rule bit_word_eqI) (auto simp: bit_simps)
  from this [of "drop_bit n w"] show ?thesis by (simp add: add.commute)
qed

lemma top_byte:
  "n + 8 = LENGTH('a) \<Longrightarrow> ucast (ucast (drop_bit n w) :: byte) = drop_bit n (w :: 'a::len word)"
  by (rule bit_word_eqI) (auto simp: bit_ucast_iff bit_drop_bit_eq dest: bit_imp_le_length)

section \<open>Round trips\<close>

lemma length_write_u16 [simp]: "length (write_u16 v) = 2"
  by (simp add: write_u16_def)

lemma length_write_u32 [simp]: "length (write_u32 v) = 4"
  by (simp add: write_u32_def)

lemma length_write_u64 [simp]: "length (write_u64 v) = 8"
  by (simp add: write_u64_def)

lemma read_write_u16 [simp]: "read_u16 (write_u16 v) = v"
  using push_drop_byte [of 0 v] top_byte [of 8 v]
  by (simp add: write_u16_def read_u16_def)

lemma read_u32_nested:
  "read_u32 [a, b, c, d] =
     push_bit 8 (push_bit 8 (push_bit 8 (ucast a) OR ucast b) OR ucast c) OR ucast d"
  by (simp add: read_u32_def push_bit_or or.assoc)

lemma read_write_u32 [simp]: "read_u32 (write_u32 v) = v"
  using top_byte [of 24 v] push_drop_byte [of 16 v] push_drop_byte [of 8 v]
    push_drop_byte [of 0 v]
  by (simp add: write_u32_def read_u32_nested)

lemma read_u64_prefix:
  "j \<le> 8 \<Longrightarrow>
   foldl (\<lambda>v b. push_bit 8 v OR ucast b) 0
     (map (\<lambda>index. ucast (drop_bit ((7 - index) * 8) v) :: byte) [0..<j])
   = drop_bit (64 - 8 * j) (v :: 64 word)"
proof (induction j)
  case 0
  then show ?case by simp
next
  case (Suc j)
  have "64 - 8 * j = (7 - j) * 8 + 8" "64 - 8 * Suc j = (7 - j) * 8"
    using Suc.prems by simp_all
  then show ?case using Suc push_drop_byte [of "(7 - j) * 8" v] by simp
qed

lemma read_write_u64 [simp]: "read_u64 (write_u64 v) = v"
  using read_u64_prefix [of 8 v] by (simp add: read_u64_def write_u64_def del: upt_Suc)

text \<open>
  An injective map from \<open>w\<close>-byte integers to byte strings of length \<open>w\<close> reaches all of them, so
  reading and writing back is the identity too.
\<close>

lemma put_get_by_counting:
  fixes put :: "'a::len word \<Rightarrow> bytes"
  assumes "\<And>v. length (put v) = w" and "\<And>v. get (put v) = v"
    and "LENGTH('a) = 8 * w" and "length bs = w"
  shows "put (get bs) = bs"
proof -
  let ?L = "{xs :: bytes. set xs \<subseteq> UNIV \<and> length xs = w}"
  have inj: "inj put" using assms(2) by (metis injI)
  have "card ?L = card (UNIV :: byte set) ^ w" by (rule card_lists_length_eq) simp
  also have "\<dots> = (2 ^ 8) ^ w" by (simp add: card_word)
  also have "\<dots> = card (UNIV :: 'a word set)" by (simp only: card_word assms(3) power_mult)
  also have "\<dots> = card (range put)" using inj by (simp add: card_image)
  finally have "card ?L = card (range put)" .
  moreover have "range put \<subseteq> ?L" using assms(1) by auto
  moreover have "finite ?L" by (rule finite_lists_length_eq) simp
  ultimately have "range put = ?L" by (simp only: card_subset_eq)
  then obtain v where "bs = put v" using assms(4) by blast
  then show ?thesis using assms(2) by simp
qed

lemma write_read_u16: "length bs = 2 \<Longrightarrow> write_u16 (read_u16 bs) = bs"
  by (rule put_get_by_counting [of _ 2]) simp_all

lemma write_read_u32: "length bs = 4 \<Longrightarrow> write_u32 (read_u32 bs) = bs"
  by (rule put_get_by_counting [of _ 4]) simp_all

lemma write_read_u64: "length bs = 8 \<Longrightarrow> write_u64 (read_u64 bs) = bs"
  by (rule put_get_by_counting [of _ 8]) simp_all

interpretation u16: fixed_width_codec 2 write_u16 read_u16
  by unfold_locales (simp_all add: write_read_u16)

interpretation u32: fixed_width_codec 4 write_u32 read_u32
  by unfold_locales (simp_all add: write_read_u32)

interpretation u64: fixed_width_codec 8 write_u64 read_u64
  by unfold_locales (simp_all add: write_read_u64)

lemmas wire_simps = u16.get_put u32.get_put u64.get_put
  length_write_u16 length_write_u32 length_write_u64

end
