(* ===== verification/Checksum.thy ===== *)
theory Checksum
  imports Wire
begin

text \<open>
  The CRC-32 of frames, WAL records, Raft journals and snapshots
  (\<^verbatim>\<open>src/protocol/checksum.cpp\<close>). The code builds eight lookup tables and consumes eight bytes
  per iteration (slicing by 8); the lemmas show that this computes the bit-at-a-time reference
  CRC, and that feeding a message in pieces gives the checksum of the whole, which is what the
  incremental parser and the record codecs rely on (locale \<open>streaming_checksum\<close>).
\<close>

section \<open>Definitions\<close>

text \<open>One iteration of the inner loop of \<^verbatim>\<open>make_crc32_tables\<close>.\<close>

definition crc32_bit_step :: "32 word \<Rightarrow> 32 word" where
  "crc32_bit_step remainder =
     drop_bit 1 remainder XOR (if remainder AND 1 \<noteq> 0 then 0xEDB88320 else 0)"

definition crc32_table0 :: "32 word list" where
  "crc32_table0 = map (\<lambda>v. (crc32_bit_step ^^ 8) (of_nat v)) [0..<256]"

text \<open>Row \<open>row\<close> of the tables, built from the row before it.\<close>

fun crc32_slice :: "nat \<Rightarrow> 32 word list" where
  "crc32_slice 0 = crc32_table0"
| "crc32_slice (Suc row) =
     map (\<lambda>previous. drop_bit 8 previous XOR crc32_table0 ! unat (previous AND 0xFF))
       (crc32_slice row)"

definition make_crc32_tables :: "32 word list list" where
  "make_crc32_tables = map crc32_slice [0..<8]"

text \<open>The eight-byte iteration of \<^verbatim>\<open>Crc32::update\<close>.\<close>

definition crc32_block :: "32 word \<Rightarrow> bytes \<Rightarrow> 32 word" where
  "crc32_block remainder remaining =
     (let first = ucast (remaining ! 0) OR push_bit 8 (ucast (remaining ! 1)) OR
                  push_bit 16 (ucast (remaining ! 2)) OR push_bit 24 (ucast (remaining ! 3));
          combined = remainder XOR first
      in make_crc32_tables ! 7 ! unat (combined AND 0xFF) XOR
         make_crc32_tables ! 6 ! unat (drop_bit 8 combined AND 0xFF) XOR
         make_crc32_tables ! 5 ! unat (drop_bit 16 combined AND 0xFF) XOR
         make_crc32_tables ! 4 ! unat (drop_bit 24 combined) XOR
         make_crc32_tables ! 3 ! unat (remaining ! 4) XOR
         make_crc32_tables ! 2 ! unat (remaining ! 5) XOR
         make_crc32_tables ! 1 ! unat (remaining ! 6) XOR
         make_crc32_tables ! 0 ! unat (remaining ! 7))"

text \<open>The tail loop of \<^verbatim>\<open>Crc32::update\<close>, one byte.\<close>

definition crc32_byte_step :: "32 word \<Rightarrow> byte \<Rightarrow> 32 word" where
  "crc32_byte_step remainder b =
     drop_bit 8 remainder XOR
     make_crc32_tables ! 0 ! unat ((remainder XOR ucast b) AND 0xFF)"

function crc32_update :: "32 word \<Rightarrow> bytes \<Rightarrow> 32 word" where
  "crc32_update remainder remaining =
     (if length remaining \<ge> 8
      then crc32_update (crc32_block remainder remaining) (drop 8 remaining)
      else foldl crc32_byte_step remainder remaining)"
  by pat_completeness auto
termination
  by (relation "measure (\<lambda>(r, bs). length bs)") auto

declare crc32_update.simps [simp del]

definition crc32_init :: "32 word" where
  "crc32_init = 0xFFFFFFFF"

definition crc32_value :: "32 word \<Rightarrow> 32 word" where
  "crc32_value remainder = remainder XOR 0xFFFFFFFF"

definition crc32 :: "bytes \<Rightarrow> 32 word" where
  "crc32 bs = crc32_value (crc32_update crc32_init bs)"

text \<open>The reference: the remainder is shifted one bit at a time.\<close>

definition crc32_reference_byte :: "32 word \<Rightarrow> byte \<Rightarrow> 32 word" where
  "crc32_reference_byte remainder b = (crc32_bit_step ^^ 8) (remainder XOR ucast b)"

definition crc32_reference :: "32 word \<Rightarrow> bytes \<Rightarrow> 32 word" where
  "crc32_reference = foldl crc32_reference_byte"

section \<open>The contract of a streaming checksum\<close>

locale streaming_checksum =
  fixes init :: 's
    and update :: "'s \<Rightarrow> bytes \<Rightarrow> 's"
    and finish :: "'s \<Rightarrow> 32 word"
  assumes update_Nil: "update s [] = s"
    and update_append: "update s (xs @ ys) = update (update s xs) ys"
begin

lemma update_chunks: "foldl update s chunks = update s (concat chunks)"
  by (induction chunks arbitrary: s) (simp_all add: update_Nil update_append)

lemma digest_two: "finish (update (update init xs) ys) = finish (update init (xs @ ys))"
  by (simp add: update_append)

end

section \<open>The bit step is linear\<close>

lemma and_1_bit0: "(r :: 32 word) AND 1 \<noteq> 0 \<longleftrightarrow> bit r 0"
  by (simp add: bit_0 and_one_eq odd_iff_mod_2_eq_one)

lemma crc32_bit_step_xor:
  "crc32_bit_step (a XOR b) = crc32_bit_step a XOR crc32_bit_step b"
  unfolding crc32_bit_step_def and_1_bit0 bit_xor_iff
  by (cases "bit a 0"; cases "bit b 0") (simp_all add: drop_bit_xor ac_simps)

lemma crc32_bit_steps_xor:
  "(crc32_bit_step ^^ n) (a XOR b) = (crc32_bit_step ^^ n) a XOR (crc32_bit_step ^^ n) b"
  by (induction n) (simp_all add: crc32_bit_step_xor)

lemma crc32_bit_steps_shift:
  "take_bit n r = 0 \<Longrightarrow> (crc32_bit_step ^^ n) r = drop_bit n r"
proof (induction n arbitrary: r)
  case 0
  then show ?case by simp
next
  case (Suc n)
  have low: "\<not> bit r k" if "k < Suc n" for k
    using Suc.prems that bit_take_bit_iff [of "Suc n" r k] by simp
  have "crc32_bit_step r = drop_bit 1 r"
    using low [of 0] by (simp only: crc32_bit_step_def and_1_bit0) simp
  moreover have "take_bit n (drop_bit 1 r) = 0"
    using low by (intro bit_word_eqI) (simp add: bit_take_bit_iff bit_drop_bit_eq)
  ultimately have "(crc32_bit_step ^^ n) (crc32_bit_step r) = drop_bit n (drop_bit 1 r)"
    by (simp only: Suc.IH)
  then show ?case by (simp add: funpow_swap1 add.commute)
qed

section \<open>The tables hold iterated bit steps\<close>

abbreviation crc32_steps :: "nat \<Rightarrow> 32 word \<Rightarrow> 32 word" where
  "crc32_steps n r \<equiv> (crc32_bit_step ^^ n) r"

lemma crc32_steps_steps: "crc32_steps n (crc32_steps m r) = crc32_steps (n + m) r"
  by (simp add: funpow_add)

lemma and_byte_mask: "x AND 0xFF = take_bit 8 (x :: 32 word)"
  by (simp add: take_bit_eq_mask mask_eq_exp_minus_1)

lemma unat_take_byte: "unat (take_bit 8 x :: 32 word) < 256"
  using take_bit_nat_less_exp [of 8 "unat x"] by (simp add: unsigned_take_bit_eq)

lemma unat_byte: "unat (b :: byte) < 256"
  using unsigned_less [of b] by simp

lemma length_crc32_slice: "length (crc32_slice k) = 256"
  by (induction k) (simp_all add: crc32_table0_def)

lemma crc32_table0_nth: "v < 256 \<Longrightarrow> crc32_table0 ! v = crc32_steps 8 (of_nat v)"
  by (simp add: crc32_table0_def)

lemma crc32_eight_steps:
  "drop_bit 8 r XOR crc32_table0 ! unat (r AND 0xFF) = crc32_steps 8 r"
proof -
  have split: "r = take_bit 8 r XOR push_bit 8 (drop_bit 8 r)"
    by (rule bit_word_eqI) (auto simp: bit_simps)
  have "take_bit 8 (push_bit 8 (drop_bit 8 r)) = 0"
    by (rule bit_word_eqI) (auto simp: bit_simps)
  then have "crc32_steps 8 (push_bit 8 (drop_bit 8 r)) = drop_bit 8 (push_bit 8 (drop_bit 8 r))"
    by (rule crc32_bit_steps_shift)
  also have "\<dots> = drop_bit 8 r"
    by (rule bit_word_eqI) (auto simp: bit_simps dest: bit_imp_le_length)
  finally have "crc32_steps 8 r = crc32_steps 8 (take_bit 8 r) XOR drop_bit 8 r"
    by (subst split) (simp only: crc32_bit_steps_xor)
  then show ?thesis
    by (simp add: and_byte_mask crc32_table0_nth [OF unat_take_byte] xor.commute)
qed

lemma crc32_slice_nth: "v < 256 \<Longrightarrow> crc32_slice k ! v = crc32_steps (8 * Suc k) (of_nat v)"
proof (induction k)
  case 0
  then show ?case by (simp add: crc32_table0_nth)
next
  case (Suc k)
  then have "crc32_slice (Suc k) ! v = crc32_steps 8 (crc32_slice k ! v)"
    by (simp add: length_crc32_slice crc32_eight_steps)
  also have "\<dots> = crc32_steps (8 * Suc (Suc k)) (of_nat v)"
    using Suc by (simp add: crc32_steps_steps)
  finally show ?case .
qed

lemma crc32_tables_nth:
  "k < 8 \<Longrightarrow> unat x < 256 \<Longrightarrow>
   make_crc32_tables ! k ! unat (x :: 'a::len word) = crc32_steps (8 * Suc k) (ucast x)"
  by (simp add: make_crc32_tables_def crc32_slice_nth of_nat_unat del: upt_Suc)

section \<open>Slicing by eight computes the reference checksum\<close>

lemma crc32_byte_step_reference: "crc32_byte_step r b = crc32_reference_byte r b"
proof -
  have low: "drop_bit 8 (ucast b :: 32 word) = 0"
    by (rule bit_word_eqI) (auto simp: bit_simps dest: bit_imp_le_length)
  have "make_crc32_tables ! 0 = crc32_table0"
    by (simp add: make_crc32_tables_def del: upt_Suc)
  then have "crc32_byte_step r b =
      drop_bit 8 (r XOR ucast b) XOR crc32_table0 ! unat ((r XOR ucast b) AND 0xFF)"
    by (simp add: crc32_byte_step_def drop_bit_xor low)
  then show ?thesis
    by (simp only: crc32_eight_steps crc32_reference_byte_def)
qed

text \<open>Four little-endian bytes shifted through the register.\<close>

lemma crc32_steps_push:
  "drop_bit k (push_bit k x) = x \<Longrightarrow> crc32_steps (n + k) (push_bit k x) = crc32_steps n x"
proof -
  assume a: "drop_bit k (push_bit k x) = x"
  have "take_bit k (push_bit k x) = 0"
    by (rule bit_word_eqI) (auto simp: bit_simps)
  then have "crc32_steps k (push_bit k x) = x"
    using a by (simp add: crc32_bit_steps_shift)
  then show ?thesis by (simp add: funpow_add)
qed

lemma crc32_steps_push_byte:
  "k \<le> 24 \<Longrightarrow> crc32_steps (n + k) (push_bit k (ucast (b :: byte))) = crc32_steps n (ucast b)"
  by (rule crc32_steps_push, rule bit_word_eqI)
     (auto simp: bit_simps dest: bit_imp_le_length)

lemma word_bytes_split:
  "(c :: 32 word) = ucast (ucast c :: byte) XOR push_bit 8 (ucast (ucast (drop_bit 8 c) :: byte)) XOR
     push_bit 16 (ucast (ucast (drop_bit 16 c) :: byte)) XOR
     push_bit 24 (ucast (ucast (drop_bit 24 c) :: byte))" (is "c = ?r")
proof (rule bit_word_eqI)
  fix n assume "n < LENGTH(32)"
  then consider "n < 8" | "8 \<le> n" "n < 16" | "16 \<le> n" "n < 24" | "24 \<le> n" "n < 32"
    by force
  then show "bit c n = bit ?r n" 
    by cases (auto simp: bit_simps)
qed

lemma crc32_steps_word:
  "crc32_steps 64 c =
     crc32_steps 64 (ucast (ucast c :: byte)) XOR
     crc32_steps 56 (ucast (ucast (drop_bit 8 c) :: byte)) XOR
     crc32_steps 48 (ucast (ucast (drop_bit 16 c) :: byte)) XOR
     crc32_steps 40 (ucast (ucast (drop_bit 24 c) :: byte))"
proof -
  have "crc32_steps 64 c = crc32_steps 64
     (ucast (ucast c :: byte) XOR push_bit 8 (ucast (ucast (drop_bit 8 c) :: byte)) XOR
      push_bit 16 (ucast (ucast (drop_bit 16 c) :: byte)) XOR
      push_bit 24 (ucast (ucast (drop_bit 24 c) :: byte)))"
    by (subst word_bytes_split) (rule refl)
  then show ?thesis
    using crc32_steps_push_byte [of 8 56 "ucast (drop_bit 8 c)"]
      crc32_steps_push_byte [of 16 48 "ucast (drop_bit 16 c)"]
      crc32_steps_push_byte [of 24 40 "ucast (drop_bit 24 c)"]
    by (simp only: crc32_bit_steps_xor) simp
qed

lemma crc32_steps_little_endian:
  "crc32_steps 64 (ucast a OR push_bit 8 (ucast b) OR push_bit 16 (ucast c) OR push_bit 24 (ucast d))
   = crc32_steps 64 (ucast (a :: byte)) XOR crc32_steps 56 (ucast (b :: byte)) XOR
     crc32_steps 48 (ucast (c :: byte)) XOR crc32_steps 40 (ucast (d :: byte))"
    (is "crc32_steps 64 ?w = _")
proof -
  have "ucast ?w = a" "ucast (drop_bit 8 ?w) = b" "ucast (drop_bit 16 ?w) = c"
    "ucast (drop_bit 24 ?w) = d"
    by (rule bit_word_eqI; force simp: bit_simps dest: bit_imp_le_length)+
  then show ?thesis using crc32_steps_word [of ?w] by (simp only:)
qed

lemma and_byte_ucast: "x AND 0xFF = ucast (ucast x :: byte)" for x :: "32 word"
  by (rule bit_word_eqI)
     (auto simp: bit_simps bit_byte_mask simp del: bit_numeral_word_iff)

lemma crc32_block_table:
  "k < 8 \<Longrightarrow> make_crc32_tables ! k ! unat (x AND 0xFF) =
     crc32_steps (8 * Suc k) (ucast (ucast x :: byte))" for x :: "32 word"
  using crc32_tables_nth [of k "x AND 0xFF"] unat_take_byte [of x]
  by (simp add: and_byte_mask) (simp add: and_byte_mask [symmetric] and_byte_ucast)

lemma crc32_block_reference:
  "length bs \<ge> 8 \<Longrightarrow> crc32_block r bs = foldl crc32_reference_byte r (take 8 bs)"
proof -
  assume "length bs \<ge> 8"
  then obtain b0 b1 b2 b3 b4 b5 b6 b7 rest
    where bs: "bs = b0 # b1 # b2 # b3 # b4 # b5 # b6 # b7 # rest"
    by (auto simp: numeral_eq_Suc Suc_le_length_iff)
  define c where "c = r XOR (ucast b0 OR push_bit 8 (ucast b1) OR push_bit 16 (ucast b2) OR
      push_bit 24 (ucast b3))"
  have nths: "bs ! 0 = b0" "bs ! 1 = b1" "bs ! 2 = b2" "bs ! 3 = b3" "bs ! 4 = b4"
    "bs ! 5 = b5" "bs ! 6 = b6" "bs ! 7 = b7"
    by (simp_all add: bs)
  have top: "make_crc32_tables ! 4 ! unat (drop_bit 24 c) =
      crc32_steps 40 (ucast (ucast (drop_bit 24 c) :: byte))"
    using crc32_block_table [of 4 "drop_bit 24 c"] top_byte [of 24 c]
    by (simp add: and_byte_ucast)
  have "crc32_block r bs = crc32_steps 64 c XOR crc32_steps 32 (ucast b4) XOR
      crc32_steps 24 (ucast b5) XOR crc32_steps 16 (ucast b6) XOR crc32_steps 8 (ucast b7)"
    unfolding crc32_block_def Let_def nths c_def [symmetric] crc32_steps_word [of c] top
    by (simp add: crc32_block_table crc32_tables_nth unat_byte xor.assoc)
  also have "crc32_steps 64 c = crc32_steps 64 r XOR (crc32_steps 64 (ucast b0) XOR
      crc32_steps 56 (ucast b1) XOR crc32_steps 48 (ucast b2) XOR crc32_steps 40 (ucast b3))"
    unfolding c_def crc32_bit_steps_xor crc32_steps_little_endian by (rule refl)
  finally show ?thesis
    by (simp add: bs crc32_reference_byte_def crc32_bit_steps_xor crc32_steps_steps xor.assoc)
qed

lemma crc32_update_reference: "crc32_update r bs = crc32_reference r bs"
proof (induction r bs rule: crc32_update.induct)
  case (1 r bs)
  have "crc32_byte_step = crc32_reference_byte"
    by (intro ext) (rule crc32_byte_step_reference)
  then show ?case
    using "1.IH" append_take_drop_id [of 8 bs]
    by (metis crc32_block_reference crc32_reference_def crc32_update.simps foldl_append)
qed

lemma crc32_update_Nil [simp]: "crc32_update r [] = r"
  by (simp add: crc32_update_reference crc32_reference_def)

lemma crc32_update_append: "crc32_update r (xs @ ys) = crc32_update (crc32_update r xs) ys"
  by (simp add: crc32_update_reference crc32_reference_def)

interpretation crc: streaming_checksum crc32_init crc32_update crc32_value
  by unfold_locales (simp_all add: crc32_update_append)

section \<open>Any single wrong byte changes the checksum\<close>

lemma crc32_bit_step_zero: "crc32_bit_step x = 0 \<Longrightarrow> x = 0"
proof -
  assume zero: "crc32_bit_step x = 0"
  have "\<not> bit x 0"
  proof
    assume "bit x 0"
    then have "crc32_bit_step x = drop_bit 1 x XOR 0xEDB88320"
      by (simp only: crc32_bit_step_def and_1_bit0) simp
    then have "bit (crc32_bit_step x) 31"
      by (simp add: bit_simps) (auto dest: bit_imp_le_length)
    then show False using zero by simp
  qed
  moreover from this have "drop_bit 1 x = 0"
    using zero by (simp only: crc32_bit_step_def and_1_bit0) simp
  ultimately have "\<not> bit x n" for n
    using bit_drop_bit_eq [of 1 x] by (cases n) (simp_all add: fun_eq_iff)
  then show ?thesis by (intro bit_word_eqI) simp
qed

lemma xor_cancel: "a XOR b = a XOR c \<longleftrightarrow> b = c" for a b c :: "32 word"
proof
  have "a XOR (a XOR x) = x" for x by (simp add: xor.assoc [symmetric])
  then show "a XOR b = a XOR c \<Longrightarrow> b = c" by metis
qed simp

lemma crc32_steps_inject: "crc32_steps n x = crc32_steps n y \<longleftrightarrow> x = y"
proof
  assume "crc32_steps n x = crc32_steps n y"
  then have "crc32_steps n (x XOR y) = 0" by (simp add: crc32_bit_steps_xor)
  then have "x XOR y = x XOR x"
    by (induction n) (simp_all add: crc32_bit_step_zero)
  then show "x = y" unfolding xor_cancel by simp
qed simp

lemma crc32_reference_inject: "crc32_reference r bs = crc32_reference r' bs \<longleftrightarrow> r = r'"
proof (induction bs arbitrary: r r')
  case Nil
  then show ?case by (simp add: crc32_reference_def)
next
  case (Cons b bs)
  have "crc32_reference_byte r b = crc32_reference_byte r' b \<longleftrightarrow> r = r'"
    unfolding crc32_reference_byte_def crc32_steps_inject
    using xor_cancel [of "ucast b" r r'] by (simp add: xor.commute)
  then show ?case using Cons by (simp add: crc32_reference_def)
qed

lemma crc32_reference_byte_inject:
  "crc32_reference_byte r a = crc32_reference_byte r b \<longleftrightarrow> a = b"
proof
  assume "crc32_reference_byte r a = crc32_reference_byte r b"
  then have "ucast a = (ucast b :: 32 word)"
    unfolding crc32_reference_byte_def crc32_steps_inject xor_cancel .
  moreover have "bit (ucast x :: 32 word) n = bit x n" if "n < 8" for n and x :: byte
    using that by (simp add: bit_ucast_iff)
  ultimately have "bit a n = bit b n" if "n < 8" for n
    using that by metis
  then show "a = b" by (intro bit_word_eqI) simp
qed simp

lemma crc32_detects_byte: "crc32 (xs @ a # ys) = crc32 (xs @ b # ys) \<longleftrightarrow> a = b"
proof -
  have "crc32_value r = crc32_value r' \<longleftrightarrow> r = r'" for r r'
    unfolding crc32_value_def using xor_cancel [of "0xFFFFFFFF" r r'] by (simp only: xor.commute)
  then show ?thesis
    using crc32_reference_inject [of _ ys]
    by (simp add: crc32_def crc32_update_reference)
       (simp add: crc32_reference_def crc32_reference_byte_inject)
qed

section \<open>Property\<close>

text \<open>C25. The table-driven checksum, eight bytes per step and fed in any pieces, computes the bitwise
  CRC-32 of the concatenation.\<close>

theorem crc32_streaming_is_bitwise_crc:
  "crc32_value (foldl crc32_update crc32_init chunks) =
     crc32_reference crc32_init (concat chunks) XOR 0xFFFFFFFF"
  by (simp add: crc.update_chunks crc32_update_reference crc32_value_def)

end
