(* ===== verification/Frame.thy ===== *)
theory Frame
  imports Checksum
begin

text \<open>
  Frames and their serialiser (\<^verbatim>\<open>src/protocol/frame.h\<close>, \<^verbatim>\<open>src/protocol/serializer.cpp\<close>). The C++
  enums \<^verbatim>\<open>Namespace\<close> and \<^verbatim>\<open>MessageType\<close> have an 8-bit underlying type and are filled by casts from
  wire bytes, so they are modelled as bytes with named values: an out-of-range value is a value
  the validity predicates must reject.
\<close>

section \<open>Definitions\<close>

definition kMagic :: "32 word" where "kMagic = 0x464B5631"
definition kVersion :: byte where "kVersion = 1"
definition kHeaderSize :: nat where "kHeaderSize = 24"
definition kMaxKeySize :: nat where "kMaxKeySize = 1024"
definition kMaxValueSize :: nat where "kMaxValueSize = 1048576"
definition kMaxClientCommandSize :: nat where
  "kMaxClientCommandSize = kMaxKeySize + kMaxValueSize + 64"
definition kMaxPayloadSize :: nat where
  "kMaxPayloadSize = kMaxKeySize + kMaxValueSize + 256"
definition kMaxFrameSize :: nat where "kMaxFrameSize = kHeaderSize + kMaxPayloadSize"

type_synonym Namespace = byte
type_synonym MessageType = byte

definition ns_client :: Namespace where "ns_client = 1"
definition ns_raft :: Namespace where "ns_raft = 2"

definition mt_put :: MessageType where "mt_put = 0x01"
definition mt_get :: MessageType where "mt_get = 0x02"
definition mt_delete_key :: MessageType where "mt_delete_key = 0x03"
definition mt_ping :: MessageType where "mt_ping = 0x04"
definition mt_raft_append_entries :: MessageType where "mt_raft_append_entries = 0x40"
definition mt_raft_request_vote :: MessageType where "mt_raft_request_vote = 0x41"
definition mt_raft_install_snapshot :: MessageType where "mt_raft_install_snapshot = 0x42"
definition mt_ok :: MessageType where "mt_ok = 0x80"
definition mt_not_found :: MessageType where "mt_not_found = 0x81"
definition mt_error :: MessageType where "mt_error = 0x82"
definition mt_redirect :: MessageType where "mt_redirect = 0x83"
definition mt_busy :: MessageType where "mt_busy = 0x84"

lemmas frame_constants = kMagic_def kVersion_def kHeaderSize_def kMaxKeySize_def
  kMaxValueSize_def kMaxClientCommandSize_def kMaxPayloadSize_def kMaxFrameSize_def

lemmas message_constants = ns_client_def ns_raft_def mt_put_def mt_get_def mt_delete_key_def
  mt_ping_def mt_raft_append_entries_def mt_raft_request_vote_def mt_raft_install_snapshot_def
  mt_ok_def mt_not_found_def mt_error_def mt_redirect_def mt_busy_def

datatype ProtocolError =
    no_error | invalid_magic | unsupported_version | invalid_namespace | invalid_message_type
  | message_type_namespace_mismatch | unsupported_flags | payload_too_large | checksum_mismatch
  | truncated_frame | parser_failed

definition is_valid_namespace :: "Namespace \<Rightarrow> bool" where
  "is_valid_namespace ns \<longleftrightarrow> ns = ns_client \<or> ns = ns_raft"

definition is_client_message_type :: "MessageType \<Rightarrow> bool" where
  "is_client_message_type t \<longleftrightarrow>
     t = mt_put \<or> t = mt_get \<or> t = mt_delete_key \<or> t = mt_ping \<or> t = mt_ok \<or>
     t = mt_not_found \<or> t = mt_error \<or> t = mt_redirect \<or> t = mt_busy"

definition is_raft_message_type :: "MessageType \<Rightarrow> bool" where
  "is_raft_message_type t \<longleftrightarrow>
     t = mt_raft_append_entries \<or> t = mt_raft_request_vote \<or> t = mt_raft_install_snapshot"

definition is_valid_message_type :: "MessageType \<Rightarrow> bool" where
  "is_valid_message_type t \<longleftrightarrow> is_client_message_type t \<or> is_raft_message_type t"

definition message_type_matches_namespace :: "Namespace \<Rightarrow> MessageType \<Rightarrow> bool" where
  "message_type_matches_namespace ns t \<longleftrightarrow>
     ns = ns_client \<and> is_client_message_type t \<or> ns = ns_raft \<and> is_raft_message_type t"

record FrameHeader =
  hdr_namespace :: Namespace
  hdr_message_type :: MessageType
  hdr_flags :: byte
  hdr_request_id :: "64 word"
  hdr_payload_length :: "32 word"
  hdr_checksum :: "32 word"

text \<open>The default-constructed header.\<close>

definition empty_header :: FrameHeader where
  "empty_header = \<lparr>hdr_namespace = ns_client, hdr_message_type = mt_ping, hdr_flags = 0,
     hdr_request_id = 0, hdr_payload_length = 0, hdr_checksum = 0\<rparr>"

record Frame =
  message_namespace :: Namespace
  message_type :: MessageType
  flags :: byte
  request_id :: "64 word"
  payload :: bytes

definition validate :: "Frame \<Rightarrow> ProtocolError" where
  "validate frame =
     (if \<not> is_valid_namespace (message_namespace frame) then invalid_namespace
      else if \<not> is_valid_message_type (message_type frame) then invalid_message_type
      else if \<not> message_type_matches_namespace (message_namespace frame) (message_type frame)
        then message_type_namespace_mismatch
      else if flags frame \<noteq> 0 then unsupported_flags
      else if length (payload frame) > kMaxPayloadSize then payload_too_large
      else no_error)"

text \<open>The bytes of a frame before its checksum field is filled in.\<close>

definition frame_image :: "Frame \<Rightarrow> bytes" where
  "frame_image frame =
     write_at kHeaderSize (payload frame)
     (write_at 16 (write_u32 (of_nat (length (payload frame))))
     (write_at 8 (write_u64 (request_id frame))
     (write_at 7 [flags frame]
     (write_at 6 [message_type frame]
     (write_at 5 [message_namespace frame]
     (write_at 4 [kVersion]
     (write_at 0 (write_u32 kMagic)
     (replicate (kHeaderSize + length (payload frame)) 0))))))))"

definition serialize :: "Frame \<Rightarrow> bytes \<times> ProtocolError" where
  "serialize frame =
     (if validate frame \<noteq> no_error then ([], validate frame)
      else
        let bs = frame_image frame;
            checksum = crc32_update crc32_init (take 20 bs);
            checksum = crc32_update checksum (drop kHeaderSize bs)
        in (write_at 20 (write_u32 (crc32_value checksum)) bs, no_error))"

section \<open>The layout of a serialised frame\<close>

lemma length_frame_image [simp]: "length (frame_image f) = kHeaderSize + length (payload f)"
  by (simp add: frame_image_def kHeaderSize_def)

lemma frame_image_header:
  "take 20 (frame_image f) =
     write_u32 kMagic @ [kVersion, message_namespace f, message_type f, flags f] @
     write_u64 (request_id f) @ write_u32 (of_nat (length (payload f)))"
  by (simp add: frame_image_def kHeaderSize_def write_at_def)

lemma frame_image_payload: "drop kHeaderSize (frame_image f) = payload f"
  by (simp add: frame_image_def kHeaderSize_def write_at_def)

text \<open>The twenty header bytes the checksum covers, and the checksum of a frame.\<close>

definition header_prefix :: "Frame \<Rightarrow> bytes" where
  "header_prefix f =
     write_u32 kMagic @ [kVersion, message_namespace f, message_type f, flags f] @
     write_u64 (request_id f) @ write_u32 (of_nat (length (payload f)))"

lemma length_header_prefix [simp]: "length (header_prefix f) = 20"
  by (simp add: header_prefix_def)

lemma serialize_layout:
  "validate f = no_error \<Longrightarrow>
   serialize f = (header_prefix f @ write_u32 (crc32 (header_prefix f @ payload f)) @ payload f,
     no_error)"
proof -
  assume v: "validate f = no_error"
  have cs: "crc32_value (crc32_update (crc32_update crc32_init (take 20 (frame_image f)))
      (drop kHeaderSize (frame_image f))) = crc32 (header_prefix f @ payload f)"
    by (simp add: crc.digest_two crc32_def frame_image_header frame_image_payload
        header_prefix_def)
  have "write_at 20 (write_u32 c) (frame_image f) = header_prefix f @ write_u32 c @ payload f" for c
    using frame_image_header [of f] frame_image_payload [of f]
    by (simp add: write_at_def header_prefix_def kHeaderSize_def)
  then show ?thesis by (simp add: serialize_def v Let_def cs)
qed

lemma serialize_error:
  "validate f \<noteq> no_error \<Longrightarrow> serialize f = ([], validate f)"
  by (simp add: serialize_def)

lemma length_serialize:
  "validate f = no_error \<Longrightarrow>
   length (fst (serialize f)) = kHeaderSize + length (payload f)"
  by (simp add: serialize_layout kHeaderSize_def)

end
