(* ===== verification/Parser.thy ===== *)
theory Parser
  imports Frame
begin

text \<open>
  The incremental frame parser (\<^verbatim>\<open>src/protocol/parser.cpp\<close>). The state machine of the class is a
  record; \<open>consume\<close> is its loop, written with \<^theory_text>\<open>partial_function\<close> because the loop's progress
  depends on the class invariant. \<open>parse_stream\<close> specifies what a byte stream means, independent of
  how it is cut into reads; the refinement lemma shows that \<open>consume\<close> returns and implements it.
\<close>

section \<open>Definitions\<close>

record Parser =
  p_header :: bytes
  p_header_bytes :: nat
  p_current_header :: FrameHeader
  p_payload :: bytes
  p_payload_bytes :: nat
  p_checksum :: "32 word"
  p_awaiting_payload :: bool
  p_failed :: bool

definition new_parser :: Parser where
  "new_parser = \<lparr>p_header = replicate kHeaderSize 0, p_header_bytes = 0,
     p_current_header = empty_header, p_payload = [], p_payload_bytes = 0,
     p_checksum = crc32_init, p_awaiting_payload = False, p_failed = False\<rparr>"

definition reset_frame_state :: "Parser \<Rightarrow> Parser" where
  "reset_frame_state p = p\<lparr>p_header_bytes := 0, p_current_header := empty_header,
     p_payload := [], p_payload_bytes := 0, p_checksum := crc32_init,
     p_awaiting_payload := False\<rparr>"

text \<open>The checks of \<^verbatim>\<open>decode_header\<close> on the header bytes, in the order of the code.\<close>

definition decode_header_bytes :: "bytes \<Rightarrow> (ProtocolError, FrameHeader) result" where
  "decode_header_bytes bs =
     (if read_u32 (subspan 0 4 bs) \<noteq> kMagic then Inl invalid_magic
      else if bs ! 4 \<noteq> kVersion then Inl unsupported_version
      else if \<not> is_valid_namespace (bs ! 5) then Inl invalid_namespace
      else if \<not> is_valid_message_type (bs ! 6) then Inl invalid_message_type
      else if \<not> message_type_matches_namespace (bs ! 5) (bs ! 6)
        then Inl message_type_namespace_mismatch
      else if bs ! 7 \<noteq> 0 then Inl unsupported_flags
      else if unat (read_u32 (subspan 16 4 bs)) > kMaxPayloadSize then Inl payload_too_large
      else Inr \<lparr>hdr_namespace = bs ! 5, hdr_message_type = bs ! 6, hdr_flags = bs ! 7,
             hdr_request_id = read_u64 (subspan 8 8 bs),
             hdr_payload_length = read_u32 (subspan 16 4 bs),
             hdr_checksum = read_u32 (subspan 20 4 bs)\<rparr>)"

definition decode_header :: "Parser \<Rightarrow> ProtocolError \<times> Parser" where
  "decode_header p =
     (case decode_header_bytes (p_header p) of
        Inl e \<Rightarrow> (e, p)
      | Inr h \<Rightarrow> (no_error, p\<lparr>p_current_header := h\<rparr>))"

definition complete_frame :: "Parser \<Rightarrow> Frame list \<Rightarrow> ProtocolError \<times> Parser \<times> Frame list" where
  "complete_frame p frames =
     (if crc32_value (p_checksum p) \<noteq> hdr_checksum (p_current_header p)
      then (checksum_mismatch, p, frames)
      else (no_error, reset_frame_state p,
        frames @ [\<lparr>message_namespace = hdr_namespace (p_current_header p),
          message_type = hdr_message_type (p_current_header p),
          flags = hdr_flags (p_current_header p),
          request_id = hdr_request_id (p_current_header p),
          payload = p_payload p\<rparr>]))"

definition parser_fail ::
    "ProtocolError \<Rightarrow> Parser \<Rightarrow> Frame list \<Rightarrow> Parser \<times> Frame list \<times> ProtocolError" where
  "parser_fail e p frames = (reset_frame_state (p\<lparr>p_failed := True\<rparr>), frames, e)"

text \<open>A loop iteration either leaves \<open>consume\<close> or goes on with the rest of the input.\<close>

datatype phase =
    Leave "Parser \<times> Frame list \<times> ProtocolError"
  | Continue Parser bytes "Frame list"

definition header_phase :: "Parser \<Rightarrow> bytes \<Rightarrow> Frame list \<Rightarrow> phase" where
  "header_phase p input frames =
     (let count = min (kHeaderSize - p_header_bytes p) (length input);
          p = p\<lparr>p_header := write_at (p_header_bytes p) (take count input) (p_header p),
                p_header_bytes := p_header_bytes p + count\<rparr>;
          input = drop count input
      in if p_header_bytes p \<noteq> kHeaderSize then Leave (p, frames, no_error)
         else case decode_header p of (e, p) \<Rightarrow>
           if e \<noteq> no_error then Leave (parser_fail e p frames)
           else
             let p = p\<lparr>p_payload :=
                     replicate (unat (hdr_payload_length (p_current_header p))) 0,
                   p_payload_bytes := 0,
                   p_checksum := crc32_update crc32_init (take 20 (p_header p)),
                   p_awaiting_payload := True\<rparr>
             in if p_payload p = []
                then case complete_frame p frames of (e, p, frames) \<Rightarrow>
                  if e \<noteq> no_error then Leave (parser_fail e p frames)
                  else Continue p input frames
                else Continue p input frames)"

definition payload_phase :: "Parser \<Rightarrow> bytes \<Rightarrow> Frame list \<Rightarrow> phase" where
  "payload_phase p input frames =
     (if p_awaiting_payload p \<and> input \<noteq> [] then
        let count = min (length (p_payload p) - p_payload_bytes p) (length input);
            chunk = take count input;
            p = p\<lparr>p_payload := write_at (p_payload_bytes p) chunk (p_payload p),
                  p_checksum := crc32_update (p_checksum p) chunk,
                  p_payload_bytes := p_payload_bytes p + count\<rparr>;
            input = drop count input
        in if p_payload_bytes p = length (p_payload p)
           then case complete_frame p frames of (e, p, frames) \<Rightarrow>
             if e \<noteq> no_error then Leave (parser_fail e p frames)
             else Continue p input frames
           else Continue p input frames
      else Continue p input frames)"

partial_function (option) consume_loop ::
    "Parser \<Rightarrow> bytes \<Rightarrow> Frame list \<Rightarrow> (Parser \<times> Frame list \<times> ProtocolError) option" where
  "consume_loop p input frames =
     (if input = [] then Some (p, frames, no_error)
      else case (if p_awaiting_payload p then Continue p input frames
                 else header_phase p input frames) of
          Leave r \<Rightarrow> Some r
        | Continue p input frames \<Rightarrow>
            (case payload_phase p input frames of
               Leave r \<Rightarrow> Some r
             | Continue p input frames \<Rightarrow> consume_loop p input frames))"

definition consume :: "Parser \<Rightarrow> bytes \<Rightarrow> (Parser \<times> Frame list \<times> ProtocolError) option" where
  "consume p input =
     (if p_failed p then Some (p, [], parser_failed) else consume_loop p input [])"

definition finish :: "Parser \<Rightarrow> ProtocolError \<times> Parser" where
  "finish p =
     (if p_failed p then (parser_failed, p)
      else if p_header_bytes p \<noteq> 0 \<or> p_awaiting_payload p
        then (truncated_frame, reset_frame_state (p\<lparr>p_failed := True\<rparr>))
      else (no_error, p))"

definition buffered_bytes :: "Parser \<Rightarrow> nat" where
  "buffered_bytes p = p_header_bytes p + p_payload_bytes p"

text \<open>Feeding a connection's reads one after the other; a failed read ends the connection.\<close>

fun consume_all :: "Parser \<Rightarrow> bytes list \<Rightarrow> (Parser \<times> Frame list \<times> ProtocolError) option" where
  "consume_all p [] = Some (p, [], no_error)"
| "consume_all p (chunk # chunks) =
     (case consume p chunk of
        None \<Rightarrow> None
      | Some (p, frames, e) \<Rightarrow>
          if e \<noteq> no_error then Some (p, frames, e)
          else case consume_all p chunks of
              None \<Rightarrow> None
            | Some (p, frames', e) \<Rightarrow> Some (p, frames @ frames', e))"

section \<open>What a byte stream means\<close>

definition frame_of :: "FrameHeader \<Rightarrow> bytes \<Rightarrow> Frame" where
  "frame_of h pl = \<lparr>message_namespace = hdr_namespace h, message_type = hdr_message_type h,
     flags = hdr_flags h, request_id = hdr_request_id h, payload = pl\<rparr>"

text \<open>
  The frames at the front of a stream, the bytes of an unfinished last frame, and the error that
  stops the stream, if any.
\<close>

function parse_stream :: "bytes \<Rightarrow> Frame list \<times> bytes \<times> ProtocolError" where
  "parse_stream bs =
     (if length bs < kHeaderSize then ([], bs, no_error)
      else case decode_header_bytes (take kHeaderSize bs) of
          Inl e \<Rightarrow> ([], [], e)
        | Inr h \<Rightarrow>
            let n = unat (hdr_payload_length h); pl = subspan kHeaderSize n bs
            in if length bs < kHeaderSize + n then ([], bs, no_error)
               else if crc32 (take 20 bs @ pl) \<noteq> hdr_checksum h then ([], [], checksum_mismatch)
               else case parse_stream (drop (kHeaderSize + n) bs) of
                 (frames, rest, e) \<Rightarrow> (frame_of h pl # frames, rest, e))"
  by pat_completeness auto
termination
  by (relation "measure length") (auto simp: kHeaderSize_def)

declare parse_stream.simps [simp del]

section \<open>The class invariant and the stream a parser has buffered\<close>

definition parser_inv :: "Parser \<Rightarrow> bool" where
  "parser_inv p \<longleftrightarrow>
     length (p_header p) = kHeaderSize \<and>
     (if p_awaiting_payload p
      then p_header_bytes p = kHeaderSize \<and>
        decode_header_bytes (p_header p) = Inr (p_current_header p) \<and>
        length (p_payload p) = unat (hdr_payload_length (p_current_header p)) \<and>
        p_payload_bytes p < length (p_payload p) \<and>
        p_checksum p = crc32_update crc32_init
          (take 20 (p_header p) @ take (p_payload_bytes p) (p_payload p))
      else p_header_bytes p < kHeaderSize \<and> p_payload_bytes p = 0)"

definition pending :: "Parser \<Rightarrow> bytes" where
  "pending p =
     (if p_awaiting_payload p then p_header p @ take (p_payload_bytes p) (p_payload p)
      else take (p_header_bytes p) (p_header p))"

definition prepend :: "Frame list \<Rightarrow> Frame list \<times> bytes \<times> ProtocolError \<Rightarrow>
    Frame list \<times> bytes \<times> ProtocolError" where
  "prepend fs r = (case r of (frames, rest, e) \<Rightarrow> (fs @ frames, rest, e))"

text \<open>The state a parser is in after returning with \<open>e\<close>, for a stream that leaves \<open>rest\<close>.\<close>

definition settled :: "Parser \<Rightarrow> bytes \<Rightarrow> ProtocolError \<Rightarrow> bool" where
  "settled p rest e \<longleftrightarrow>
     (if e = no_error then parser_inv p \<and> \<not> p_failed p \<and> pending p = rest
      else p_failed p \<and> buffered_bytes p = 0)"

text \<open>What one phase of an iteration must guarantee about the stream still to be parsed.\<close>

fun phase_ok :: "bytes \<Rightarrow> Frame list \<Rightarrow> phase \<Rightarrow> bool" where
  "phase_ok stream frames (Leave (p', frames', e)) \<longleftrightarrow>
     frames' = frames \<and> (\<exists>rest. parse_stream stream = ([], rest, e) \<and> settled p' rest e)"
| "phase_ok stream frames (Continue p' input' frames') \<longleftrightarrow>
     parser_inv p' \<and> \<not> p_failed p' \<and>
     (\<exists>fs. frames' = frames @ fs \<and>
        parse_stream stream = prepend fs (parse_stream (pending p' @ input')))"

lemma prepend_simps [simp]:
  "prepend [] r = r"
  "prepend fs (prepend gs r) = prepend (fs @ gs) r"
  by (auto simp: prepend_def split: prod.split)

lemma decode_header_bytes_error: "decode_header_bytes bs \<noteq> Inl no_error"
  by (simp add: decode_header_bytes_def)

lemma decode_header_bytes_bound:
  "decode_header_bytes bs = Inr h \<Longrightarrow> unat (hdr_payload_length h) \<le> kMaxPayloadSize"
  by (auto simp: decode_header_bytes_def split: if_splits)

lemma new_parser_inv: "parser_inv new_parser" "\<not> p_failed new_parser" "pending new_parser = []"
  by (simp_all add: parser_inv_def new_parser_def pending_def kHeaderSize_def)

lemma reset_inv:
  "length (p_header p) = kHeaderSize \<Longrightarrow> parser_inv (reset_frame_state p)"
  "pending (reset_frame_state p) = []"
  "p_failed (reset_frame_state p) = p_failed p"
  "buffered_bytes (reset_frame_state p) = 0"
  by (simp_all add: parser_inv_def reset_frame_state_def pending_def kHeaderSize_def
      buffered_bytes_def)

lemma parser_fail_ok:
  "parse_stream stream = ([], [], e) \<Longrightarrow> e \<noteq> no_error \<Longrightarrow>
   phase_ok stream frames (Leave (parser_fail e p frames))"
  by (auto simp: parser_fail_def settled_def reset_inv)

section \<open>Unfolding the stream semantics\<close>

lemma parse_stream_short: "length bs < kHeaderSize \<Longrightarrow> parse_stream bs = ([], bs, no_error)"
  by (simp add: parse_stream.simps)

lemma parse_stream_bad_header:
  "length hdb = kHeaderSize \<Longrightarrow> decode_header_bytes hdb = Inl e \<Longrightarrow>
   parse_stream (hdb @ bs) = ([], [], e)"
  by (simp add: parse_stream.simps)

lemma parse_stream_partial:
  "length hdb = kHeaderSize \<Longrightarrow> decode_header_bytes hdb = Inr h \<Longrightarrow>
   length bs < unat (hdr_payload_length h) \<Longrightarrow>
   parse_stream (hdb @ bs) = ([], hdb @ bs, no_error)"
  by (simp add: parse_stream.simps Let_def)

lemma parse_stream_frame:
  assumes "length hdb = kHeaderSize" "decode_header_bytes hdb = Inr h"
    "length pl = unat (hdr_payload_length h)"
  shows "parse_stream (hdb @ pl @ bs) =
    (if crc32 (take 20 hdb @ pl) \<noteq> hdr_checksum h then ([], [], checksum_mismatch)
     else prepend [frame_of h pl] (parse_stream bs))"
  using assms
  by (subst parse_stream.simps)
     (simp add: Let_def subspan_def prepend_def kHeaderSize_def split: prod.split)

section \<open>Each phase refines the stream semantics\<close>

lemma complete_frame_ok:
  assumes "length (p_header p) = kHeaderSize" "\<not> p_failed p"
    and "decode_header_bytes (p_header p) = Inr (p_current_header p)"
    and "length (p_payload p) = unat (hdr_payload_length (p_current_header p))"
    and "p_checksum p = crc32_update crc32_init (take 20 (p_header p) @ p_payload p)"
    and "stream = p_header p @ p_payload p @ input"
  shows "phase_ok stream frames
    (case complete_frame p frames of (e, p, frames) \<Rightarrow>
       if e \<noteq> no_error then Leave (parser_fail e p frames) else Continue p input frames)"
proof (cases "crc32_value (p_checksum p) = hdr_checksum (p_current_header p)")
  case True
  have "parse_stream stream =
      prepend [frame_of (p_current_header p) (p_payload p)] (parse_stream input)"
    using parse_stream_frame [OF assms(1,3,4), of input] True assms(5,6) by (simp add: crc32_def)
  then show ?thesis
    using True assms(1,2) by (simp add: complete_frame_def reset_inv frame_of_def)
next
  case False
  have "parse_stream stream = ([], [], checksum_mismatch)"
    using parse_stream_frame [OF assms(1,3,4), of input] False assms(5,6) by (simp add: crc32_def)
  from parser_fail_ok [OF this] show ?thesis
    using False by (simp add: complete_frame_def)
qed

lemma payload_phase_ok:
  assumes "parser_inv p" "\<not> p_failed p" "p_awaiting_payload p" "input \<noteq> []"
  shows "phase_ok (pending p @ input) frames (payload_phase p input frames)"
proof -
  define count where "count = min (length (p_payload p) - p_payload_bytes p) (length input)"
  define q where "q = p\<lparr>p_payload := write_at (p_payload_bytes p) (take count input) (p_payload p),
    p_checksum := crc32_update (p_checksum p) (take count input),
    p_payload_bytes := p_payload_bytes p + count\<rparr>"
  have bound: "p_payload_bytes p + count \<le> length (p_payload p)" "count \<le> length input"
    using assms(1,3) by (auto simp: parser_inv_def count_def)
  have stored: "take (p_payload_bytes q) (p_payload q) =
      take (p_payload_bytes p) (p_payload p) @ take count input"
    using bound by (simp add: q_def write_at_def)
  have pend: "pending q @ drop count input = pending p @ input"
    using assms(3) stored by (simp add: pending_def q_def)
  have len: "length (p_payload q) = length (p_payload p)"
    using bound by (simp add: q_def)
  have checksum: "p_checksum q =
      crc32_update crc32_init (take 20 (p_header q) @ take (p_payload_bytes q) (p_payload q))"
    using assms(1,3) stored
    by (simp add: parser_inv_def q_def crc32_update_append)
  show ?thesis
  proof (cases "p_payload_bytes q = length (p_payload q)")
    case True
    have eq: "payload_phase p input frames =
      (case complete_frame q frames of (e, p, frames) \<Rightarrow>
         if e \<noteq> no_error then Leave (parser_fail e p frames)
         else Continue p (drop count input) frames)"
      using True assms(3,4)
      unfolding payload_phase_def Let_def count_def [symmetric] q_def [symmetric] by simp
    have "pending p @ input = p_header q @ p_payload q @ drop count input"
      using pend True assms(3) by (simp add: pending_def q_def)
    then show ?thesis
      unfolding eq using True assms(1,2,3) checksum len
      by (intro complete_frame_ok) (simp_all add: parser_inv_def, simp_all add: q_def)
  next
    case False
    have eq: "payload_phase p input frames = Continue q (drop count input) frames"
      using False assms(3,4)
      unfolding payload_phase_def Let_def count_def [symmetric] q_def [symmetric] by simp
    have "parser_inv q" "\<not> p_failed q"
      using False assms(1,2,3) checksum len bound
      by (auto simp: parser_inv_def q_def)
    then show ?thesis unfolding eq using pend by simp
  qed
qed

lemma header_phase_ok:
  assumes "parser_inv p" "\<not> p_failed p" "\<not> p_awaiting_payload p" "input \<noteq> []"
  shows "phase_ok (pending p @ input) frames (header_phase p input frames)"
proof -
  define count where "count = min (kHeaderSize - p_header_bytes p) (length input)"
  define q where "q = p\<lparr>p_header := write_at (p_header_bytes p) (take count input) (p_header p),
    p_header_bytes := p_header_bytes p + count\<rparr>"
  have bound: "p_header_bytes p + count \<le> kHeaderSize" "count \<le> length input"
    "length (p_header p) = kHeaderSize"
    using assms(1,3) by (auto simp: parser_inv_def count_def)
  have stored: "take (p_header_bytes q) (p_header q) = pending p @ take count input"
    using bound assms(3) by (simp add: q_def write_at_def pending_def)
  have len: "length (p_header q) = kHeaderSize"
    using bound by (simp add: q_def)
  note unfold = header_phase_def Let_def count_def [symmetric] q_def [symmetric]
  show ?thesis
  proof (cases "p_header_bytes q = kHeaderSize")
    case False
    then have all: "count = length input" and small: "p_header_bytes q < kHeaderSize"
      using bound assms(1,3) by (auto simp: q_def count_def parser_inv_def)
    have "length (pending p @ input) = p_header_bytes q"
      using stored all small len by (metis length_take min.absorb2 nat_less_le take_all_iff order_refl)
    then have "parse_stream (pending p @ input) = ([], pending p @ input, no_error)"
      using small by (simp add: parse_stream_short)
    moreover have "settled q (pending p @ input) no_error"
      using assms stored all small len
      by (simp add: settled_def parser_inv_def) (simp add: q_def pending_def)
    ultimately show ?thesis using False unfolding unfold by simp
  next
    case True
    have stream: "pending p @ input = p_header q @ drop count input"
      using stored True len by (metis append_assoc append_take_drop_id take_all order_refl)
    show ?thesis
    proof (cases "decode_header_bytes (p_header q)")
      case (Inl e)
      have "parse_stream (pending p @ input) = ([], [], e)"
        unfolding stream using len Inl by (rule parse_stream_bad_header)
      moreover have "e \<noteq> no_error"
        using Inl decode_header_bytes_error [of "p_header q"] by auto
      ultimately show ?thesis
        using True Inl unfolding unfold by (simp add: decode_header_def parser_fail_ok)
    next
      case (Inr h)
      define r where "r = q\<lparr>p_current_header := h,
        p_payload := replicate (unat (hdr_payload_length h)) 0, p_payload_bytes := 0,
        p_checksum := crc32_update crc32_init (take 20 (p_header q)),
        p_awaiting_payload := True\<rparr>"
      show ?thesis
      proof (cases "p_payload r = []")
        case empty: True
        then have zero: "unat (hdr_payload_length h) = 0" by (simp add: r_def)
        have eq: "header_phase p input frames =
          (case complete_frame r frames of (e, p, frames) \<Rightarrow>
             if e \<noteq> no_error then Leave (parser_fail e p frames)
             else Continue p (drop count input) frames)"
          using True Inr zero unfolding unfold by (simp add: decode_header_def r_def)
        show ?thesis
          unfolding eq stream
          using len Inr zero assms(2)
          by (intro complete_frame_ok) (simp_all add: r_def, simp_all add: q_def)
      next
        case False
        have eq: "header_phase p input frames = Continue r (drop count input) frames"
          using True Inr False unfolding unfold by (simp add: decode_header_def r_def)
        have "parser_inv r" "\<not> p_failed r" "pending r = p_header q"
          using len Inr False True assms(2)
          by (auto simp: parser_inv_def pending_def r_def) (simp add: q_def)
        then show ?thesis unfolding eq using stream by simp
      qed
    qed
  qed
qed

section \<open>The loop returns and refines the stream semantics\<close>

lemma header_phase_input:
  "header_phase p input frames = Continue p' input' frames' \<Longrightarrow>
   input' = drop (min (kHeaderSize - p_header_bytes p) (length input)) input"
  by (auto simp: header_phase_def Let_def split: if_split_asm prod.split_asm)

lemma step_input:
  "(if complete
    then case cf of (e, q, fs) \<Rightarrow>
      if e \<noteq> no_error then Leave (parser_fail e q fs) else Continue q rest fs
    else Continue r rest gs) = Continue p' input' frames' \<Longrightarrow> input' = rest"
  by (auto split: if_split_asm prod.split_asm)

lemma payload_phase_input:
  "payload_phase p input frames = Continue p' input' frames' \<Longrightarrow>
   input' = (if p_awaiting_payload p
     then drop (min (length (p_payload p) - p_payload_bytes p) (length input)) input else input)"
proof (cases "p_awaiting_payload p \<and> input \<noteq> []")
  case True
  assume "payload_phase p input frames = Continue p' input' frames'"
  then have "input' = drop (min (length (p_payload p) - p_payload_bytes p) (length input)) input"
    unfolding payload_phase_def Let_def if_P [OF True] by (rule step_input)
  then show ?thesis using True by simp
qed (auto simp: payload_phase_def)

lemma header_phase_progress:
  "parser_inv p \<Longrightarrow> \<not> p_awaiting_payload p \<Longrightarrow> input \<noteq> [] \<Longrightarrow>
   header_phase p input frames = Continue p' input' frames' \<Longrightarrow> length input' < length input"
  by (drule header_phase_input) (simp add: parser_inv_def)

lemma payload_phase_progress:
  "payload_phase p input frames = Continue p' input' frames' \<Longrightarrow> length input' \<le> length input"
  "parser_inv p \<Longrightarrow> p_awaiting_payload p \<Longrightarrow> input \<noteq> [] \<Longrightarrow>
   payload_phase p input frames = Continue p' input' frames' \<Longrightarrow> length input' < length input"
  by (drule payload_phase_input, simp add: parser_inv_def)+

lemma payload_phase_idle:
  "\<not> p_awaiting_payload p \<or> input = [] \<Longrightarrow> payload_phase p input frames = Continue p input frames"
  by (auto simp: payload_phase_def)

lemma payload_phase_ok':
  assumes "parser_inv p" "\<not> p_failed p"
  shows "phase_ok (pending p @ input) frames (payload_phase p input frames)"
  using payload_phase_ok [OF assms, of input frames] payload_phase_idle [of p input frames] assms
  by (cases "p_awaiting_payload p \<and> input \<noteq> []") auto

lemma parse_stream_pending: "parser_inv p \<Longrightarrow> parse_stream (pending p) = ([], pending p, no_error)"
  by (auto simp: parser_inv_def pending_def parse_stream_short parse_stream_partial)

lemma phase_ok_Leave:
  "phase_ok stream frames (Leave r) \<Longrightarrow>
   \<exists>p' rest e. r = (p', frames, e) \<and> parse_stream stream = ([], rest, e) \<and> settled p' rest e"
  by (cases r) auto

definition loop_result :: "(Parser \<times> Frame list \<times> ProtocolError) option \<Rightarrow> Frame list \<Rightarrow>
    bytes \<Rightarrow> bool" where
  "loop_result result frames stream \<longleftrightarrow>
     (\<exists>p' fs rest e. result = Some (p', frames @ fs, e) \<and>
        parse_stream stream = (fs, rest, e) \<and> settled p' rest e)"

lemma loop_result_Leave:
  "phase_ok stream frames (Leave r) \<Longrightarrow> loop_result (Some r) frames stream"
  by (drule phase_ok_Leave) (auto simp: loop_result_def)

lemma loop_result_Continue:
  "phase_ok stream frames (Continue p' input' frames') \<Longrightarrow>
   loop_result result frames' (pending p' @ input') \<Longrightarrow> loop_result result frames stream"
  by (auto simp: loop_result_def prepend_def)

lemma consume_loop_refines:
  "parser_inv p \<Longrightarrow> \<not> p_failed p \<Longrightarrow>
   loop_result (consume_loop p input frames) frames (pending p @ input)"
proof (induction "length input" arbitrary: p input frames rule: less_induct)
  case less
  show ?case
  proof (cases "input = []")
    case True
    then show ?thesis
      using less.prems parse_stream_pending [of p]
      by (auto simp: consume_loop.simps loop_result_def settled_def)
  next
    case False
    define ph where "ph = (if p_awaiting_payload p then Continue p input frames
      else header_phase p input frames)"
    have ok: "phase_ok (pending p @ input) frames ph"
      using header_phase_ok [OF less.prems _ False] less.prems by (simp add: ph_def)
    show ?thesis
    proof (cases ph)
      case (Leave r)
      then have "consume_loop p input frames = Some r"
        using False by (subst consume_loop.simps) (simp add: ph_def [symmetric])
      then show ?thesis using ok Leave loop_result_Leave by simp
    next
      case (Continue p1 input1 frames1)
      then have p1: "parser_inv p1" "\<not> p_failed p1" using ok by simp_all
      note ok1 = payload_phase_ok' [OF p1, of input1 frames1]
      have unf: "consume_loop p input frames =
        (case payload_phase p1 input1 frames1 of Leave r \<Rightarrow> Some r
         | Continue p input frames \<Rightarrow> consume_loop p input frames)"
        using False Continue by (subst consume_loop.simps) (simp add: ph_def [symmetric])
      have "loop_result (consume_loop p input frames) frames1 (pending p1 @ input1)"
      proof (cases "payload_phase p1 input1 frames1")
        case (Leave r)
        then show ?thesis using ok1 unf by (simp add: loop_result_Leave del: phase_ok.simps)
      next
        case C2: (Continue p2 input2 frames2)
        then have p2: "parser_inv p2" "\<not> p_failed p2" using ok1 by simp_all
        have "length input2 < length input"
        proof (cases "p_awaiting_payload p")
          case True
          then have "p1 = p" "input1 = input" using Continue by (simp_all add: ph_def)
          then show ?thesis
            using payload_phase_progress(2) [OF less.prems(1) True False] C2 by blast
        next
          case await: False
          then have "length input1 < length input"
            using header_phase_progress [OF less.prems(1) await False] Continue
            by (simp add: ph_def)
          then show ?thesis using payload_phase_progress(1) [OF C2] by simp
        qed
        from less.hyps [OF this p2, of frames2]
        show ?thesis using loop_result_Continue [OF ok1 [unfolded C2]] unf C2 by simp
      qed
      then show ?thesis using loop_result_Continue [OF ok [unfolded Continue]] by simp
    qed
  qed
qed

lemma consume_refines:
  assumes "parser_inv p" "\<not> p_failed p" "parse_stream (pending p @ input) = (frames, rest, e)"
  shows "\<exists>p'. consume p input = Some (p', frames, e) \<and> settled p' rest e"
  using consume_loop_refines [OF assms(1,2), of input "[]"] assms(2,3)
  by (auto simp: consume_def loop_result_def)

section \<open>Chunking\<close>

text \<open>The three ways a stream can start, each stable under more input.\<close>

lemma parse_stream_front:
  obtains (waiting) "parse_stream bs = ([], bs, no_error)"
  | (broken) e where "e \<noteq> no_error" "\<And>ys. parse_stream (bs @ ys) = ([], [], e)"
  | (frame) f tail where "length tail < length bs"
      "\<And>ys. parse_stream (bs @ ys) = prepend [f] (parse_stream (tail @ ys))"
proof (cases "length bs < kHeaderSize")
  case True
  then show thesis using waiting parse_stream_short by blast
next
  case False
  define hdb where "hdb = take kHeaderSize bs"
  have hdb: "length hdb = kHeaderSize" "bs = hdb @ drop kHeaderSize bs"
    using False by (simp_all add: hdb_def)
  show thesis
  proof (cases "decode_header_bytes hdb")
    case (Inl e)
    then show thesis
      using broken [of e] parse_stream_bad_header [OF hdb(1) Inl] hdb(2)
        decode_header_bytes_error [of hdb] by (metis append_assoc)
  next
    case (Inr h)
    define n where "n = unat (hdr_payload_length h)"
    show thesis
    proof (cases "length (drop kHeaderSize bs) < n")
      case True
      then show thesis
        using waiting parse_stream_partial [OF hdb(1) Inr] hdb(2) by (metis n_def)
    next
      case enough: False
      define pl where "pl = take n (drop kHeaderSize bs)"
      define tail where "tail = drop n (drop kHeaderSize bs)"
      have bs: "bs @ ys = hdb @ pl @ tail @ ys" for ys
        using hdb(2) by (metis append_assoc append_take_drop_id pl_def tail_def)
      have pl: "length pl = unat (hdr_payload_length h)" using enough by (simp add: pl_def n_def)
      have "length tail < length bs" using False by (simp add: tail_def kHeaderSize_def)
      then show thesis
        using parse_stream_frame [OF hdb(1) Inr pl] broken [of checksum_mismatch]
          frame [of tail "frame_of h pl"] bs
        by (cases "crc32 (take 20 hdb @ pl) = hdr_checksum h") auto
    qed
  qed
qed

lemma parse_stream_append:
  "parse_stream xs = (fs, rest, e) \<Longrightarrow>
   parse_stream (xs @ ys) =
     (if e = no_error then prepend fs (parse_stream (rest @ ys)) else (fs, rest, e))"
proof (induction "length xs" arbitrary: xs fs rest e rule: less_induct)
  case less
  show ?case
  proof (cases xs rule: parse_stream_front)
    case waiting
    then show ?thesis using less.prems by simp
  next
    case (broken e')
    then show ?thesis using less.prems broken(2) [of "[]"] by simp
  next
    case (frame f tail)
    obtain fs' rest' e' where t: "parse_stream tail = (fs', rest', e')"
      by (cases "parse_stream tail") auto
    have "fs = f # fs'" "rest = rest'" "e = e'"
      using less.prems frame(2) [of "[]"] t by (simp_all add: prepend_def)
    then show ?thesis
      using less.hyps [OF frame(1) t] frame(2) [of ys]
      by (simp add: prepend_def split: prod.split)
  qed
qed

lemma consume_all_refines:
  "parser_inv p \<Longrightarrow> \<not> p_failed p \<Longrightarrow> parse_stream (pending p @ concat chunks) = (frames, rest, e) \<Longrightarrow>
   \<exists>p'. consume_all p chunks = Some (p', frames, e) \<and> settled p' rest e"
proof (induction chunks arbitrary: p frames rest e)
  case Nil
  then show ?case using parse_stream_pending by (auto simp: settled_def)
next
  case (Cons c chunks)
  obtain fs1 rest1 e1 where s1: "parse_stream (pending p @ c) = (fs1, rest1, e1)"
    by (cases "parse_stream (pending p @ c)") auto
  from consume_refines [OF Cons.prems(1,2) s1] obtain p1 where
    c1: "consume p c = Some (p1, fs1, e1)" and st: "settled p1 rest1 e1" by blast
  note app = parse_stream_append [OF s1, of "concat chunks"]
  show ?case
  proof (cases "e1 = no_error")
    case True
    then have p1: "parser_inv p1" "\<not> p_failed p1" "pending p1 = rest1"
      using st by (simp_all add: settled_def)
    obtain fs2 rest2 e2 where s2: "parse_stream (rest1 @ concat chunks) = (fs2, rest2, e2)"
      by (cases "parse_stream (rest1 @ concat chunks)") auto
    from Cons.IH [OF p1(1,2), of fs2 rest2 e2] s2 p1(3) obtain p2 where
      "consume_all p1 chunks = Some (p2, fs2, e2)" "settled p2 rest2 e2" by auto
    then show ?thesis
      using True c1 app s2 Cons.prems(3) by (auto simp: prepend_def)
  next
    case False
    then show ?thesis using c1 st app Cons.prems(3) by auto
  qed
qed

section \<open>Round trip\<close>

lemma validate_ok:
  "validate f = no_error \<longleftrightarrow>
     is_valid_namespace (message_namespace f) \<and> is_valid_message_type (message_type f) \<and>
     message_type_matches_namespace (message_namespace f) (message_type f) \<and>
     flags f = 0 \<and> length (payload f) \<le> kMaxPayloadSize"
  by (auto simp: validate_def)

lemma decode_serialized_header:
  assumes "validate f = no_error"
  shows "decode_header_bytes (header_prefix f @ write_u32 c) =
    Inr \<lparr>hdr_namespace = message_namespace f, hdr_message_type = message_type f,
      hdr_flags = flags f, hdr_request_id = request_id f,
      hdr_payload_length = of_nat (length (payload f)), hdr_checksum = c\<rparr>"
proof -
  have fields:
    "subspan 0 4 (header_prefix f @ write_u32 c) = write_u32 kMagic"
    "subspan 8 8 (header_prefix f @ write_u32 c) = write_u64 (request_id f)"
    "subspan 16 4 (header_prefix f @ write_u32 c) = write_u32 (of_nat (length (payload f)))"
    "subspan 20 4 (header_prefix f @ write_u32 c) = write_u32 c"
    "(header_prefix f @ write_u32 c) ! 4 = kVersion"
    "(header_prefix f @ write_u32 c) ! 5 = message_namespace f"
    "(header_prefix f @ write_u32 c) ! 6 = message_type f"
    "(header_prefix f @ write_u32 c) ! 7 = flags f"
    by (simp_all add: header_prefix_def subspan_def nth_append)
  have "unat (of_nat (length (payload f)) :: 32 word) = length (payload f)"
    using assms by (simp add: validate_ok unat_of_nat frame_constants)
  then show ?thesis
    using assms unfolding decode_header_bytes_def fields by (simp add: validate_ok)
qed

lemma parse_stream_serialized:
  assumes "validate f = no_error"
  shows "parse_stream (fst (serialize f) @ bs) = prepend [f] (parse_stream bs)"
proof -
  let ?c = "crc32 (header_prefix f @ payload f)"
  have "unat (of_nat (length (payload f)) :: 32 word) = length (payload f)"
    using assms by (simp add: validate_ok unat_of_nat frame_constants)
  moreover have "frame_of \<lparr>hdr_namespace = message_namespace f, hdr_message_type = message_type f,
      hdr_flags = flags f, hdr_request_id = request_id f,
      hdr_payload_length = of_nat (length (payload f)), hdr_checksum = ?c\<rparr> (payload f) = f"
    by (simp add: frame_of_def)
  ultimately show ?thesis
    using parse_stream_frame [OF _ decode_serialized_header [OF assms, of ?c], of "payload f" bs]
    by (simp add: serialize_layout [OF assms] kHeaderSize_def)
qed

lemma parse_stream_serialized_list:
  "\<forall>f \<in> set fs. validate f = no_error \<Longrightarrow>
   parse_stream (concat (map (fst \<circ> serialize) fs) @ bs) = prepend fs (parse_stream bs)"
  by (induction fs) (simp_all add: parse_stream_serialized)

section \<open>Properties\<close>

lemma finish_settled:
  "settled p [] no_error \<Longrightarrow> finish p = (no_error, p)"
  by (auto simp: settled_def parser_inv_def pending_def finish_def kHeaderSize_def split: if_splits)

lemma settled_buffered: "settled p rest e \<Longrightarrow> buffered_bytes p < kMaxFrameSize"
proof -
  assume st: "settled p rest e"
  show ?thesis
  proof (cases "e = no_error")
    case True
    then show ?thesis
      using st decode_header_bytes_bound [of "p_header p" "p_current_header p"]
      by (auto simp: settled_def parser_inv_def buffered_bytes_def kMaxFrameSize_def
          split: if_splits)
  next
    case False
    then show ?thesis
      using st by (simp add: settled_def frame_constants)
  qed
qed

text \<open>C4. However a byte stream is cut into reads, a fresh parser fed with the reads returns, and
  yields exactly the frames, the buffered remainder and the error that the stream means as a whole;
  once failed it stays failed and accepts nothing.\<close>

theorem parser_refines_stream:
  "case parse_stream (concat chunks) of (frames, rest, e) \<Rightarrow>
     \<exists>p'. consume_all new_parser chunks = Some (p', frames, e) \<and>
       (if e = no_error then \<not> p_failed p' \<and> pending p' = rest
        else p_failed p' \<and> consume p' later = Some (p', [], parser_failed))"
proof -
  obtain frames rest e where s: "parse_stream (concat chunks) = (frames, rest, e)"
    by (cases "parse_stream (concat chunks)") auto
  with consume_all_refines [OF new_parser_inv(1,2), of chunks frames rest e] new_parser_inv(3)
  obtain p' where "consume_all new_parser chunks = Some (p', frames, e)" "settled p' rest e"
    by auto
  then show ?thesis using s by (auto simp: settled_def consume_def)
qed

lemma serialized_parses:
  assumes "\<forall>f \<in> set fs. validate f = no_error"
    and "concat chunks = concat (map (fst \<circ> serialize) fs)"
  shows "\<exists>p'. consume_all new_parser chunks = Some (p', fs, no_error) \<and>
    finish p' = (no_error, p')"
proof -
  have "parse_stream (concat chunks) = (fs, [], no_error)"
    using parse_stream_serialized_list [OF assms(1), of "[]"] parse_stream_short [of "[]"] assms(2)
    by (simp add: prepend_def kHeaderSize_def)
  then show ?thesis
    using consume_all_refines [OF new_parser_inv(1,2), of chunks fs "[]" no_error]
      new_parser_inv(3) finish_settled by auto
qed

text \<open>C22. Parsing inverts serialising: the serialised bytes of valid frames, concatenated and cut into
  reads in any way, parse to exactly those frames, with no error and no truncated frame at the end
  of the stream.\<close>

theorem parser_serialize_roundtrip:
  assumes "\<forall>f \<in> set fs. validate f = no_error"
    and "concat chunks = concat (map (fst \<circ> serialize) fs)"
  shows "\<exists>p'. consume_all new_parser chunks = Some (p', fs, no_error) \<and>
    finish p' = (no_error, p')"
  by (rule serialized_parses [OF assms])

text \<open>A PING frame, used in the witnesses.\<close>

definition ping_frame :: Frame where
  "ping_frame = \<lparr>message_namespace = ns_client, message_type = mt_ping, flags = 0,
     request_id = 7, payload = [1, 2, 3]\<rparr>"

lemma validate_ping_frame: "validate ping_frame = no_error"
  by (simp add: validate_ok ping_frame_def is_valid_namespace_def is_valid_message_type_def
      is_client_message_type_def message_type_matches_namespace_def frame_constants)

lemma parser_serialize_roundtrip_witness:
  "\<exists>p'. consume_all new_parser
       [take 5 (fst (serialize ping_frame)), drop 5 (fst (serialize ping_frame))] =
     Some (p', [ping_frame], no_error) \<and> finish p' = (no_error, p')"
proof (rule parser_serialize_roundtrip)
  show "\<forall>f \<in> set [ping_frame]. validate f = no_error"
    by (simp add: validate_ping_frame)
qed simp

text \<open>C23. A frame whose payload has exactly one byte changed in transit is never delivered: the parser
  reports a checksum mismatch.\<close>

theorem parser_detects_corrupt_byte:
  assumes "validate f = no_error" and "i < length (payload f)" and "b \<noteq> payload f ! i"
  shows "\<exists>p'. consume new_parser ((fst (serialize f))[kHeaderSize + i := b]) =
    Some (p', [], checksum_mismatch)"
proof -
  let ?c = "crc32 (header_prefix f @ payload f)"
  let ?pl = "(payload f)[i := b]"
  have bytes: "(fst (serialize f))[kHeaderSize + i := b] = (header_prefix f @ write_u32 ?c) @ ?pl @ []"
    using assms(1) by (simp add: serialize_layout list_update_append kHeaderSize_def)
  have "payload f = take i (payload f) @ payload f ! i # drop (Suc i) (payload f)"
    using assms(2) by (rule id_take_nth_drop)
  moreover have "?pl = take i (payload f) @ b # drop (Suc i) (payload f)"
    using assms(2) by (rule upd_conv_take_nth_drop)
  ultimately have ne: "crc32 (header_prefix f @ ?pl) \<noteq> ?c"
    using assms(3) crc32_detects_byte [of "header_prefix f @ take i (payload f)" b]
    by (metis append_assoc)
  have "unat (of_nat (length (payload f)) :: 32 word) = length (payload f)"
    using assms(1) by (simp add: validate_ok unat_of_nat frame_constants)
  then have "parse_stream (pending new_parser @ (fst (serialize f))[kHeaderSize + i := b]) =
      ([], [], checksum_mismatch)"
    unfolding bytes new_parser_inv(3)
    using parse_stream_frame [OF _ decode_serialized_header [OF assms(1), of ?c], of ?pl "[]"] ne
    by (simp add: kHeaderSize_def)
  from consume_refines [OF new_parser_inv(1,2) this] show ?thesis by blast
qed

lemma parser_detects_corrupt_byte_witness:
  "\<exists>p'. consume new_parser ((fst (serialize ping_frame))[kHeaderSize + 1 := 9]) =
     Some (p', [], checksum_mismatch)"
  using validate_ping_frame
  by (rule parser_detects_corrupt_byte) (simp_all add: ping_frame_def)

text \<open>C24. A parser never buffers more than one maximal frame, whatever bytes a peer sends.\<close>

theorem parser_buffer_bounded:
  "case consume_all new_parser chunks of
     None \<Rightarrow> False | Some (p', frames, e) \<Rightarrow> buffered_bytes p' < kMaxFrameSize"
proof -
  obtain frames rest e where "parse_stream (concat chunks) = (frames, rest, e)"
    by (cases "parse_stream (concat chunks)") auto
  with consume_all_refines [OF new_parser_inv(1,2), of chunks frames rest e] new_parser_inv(3)
  obtain p' where "consume_all new_parser chunks = Some (p', frames, e)" "settled p' rest e"
    by auto
  then show ?thesis using settled_buffered by simp
qed

end
