(* ===== verification/Wal_Record.thy ===== *)
theory Wal_Record
  imports Checksum
begin

text \<open>
  Records of the write-ahead log (\<^verbatim>\<open>src/storage/wal_record.h\<close>, \<^verbatim>\<open>src/storage/wal_record.cpp\<close>): the
  36-byte header, its checksum, and the codec. \<^verbatim>\<open>WalOperation\<close> is filled by a cast from a byte of the
  file, so it is a byte with named values.
\<close>

section \<open>Definitions\<close>

definition kWalMagic :: "32 word" where "kWalMagic = 0x4657414C"
definition kWalVersion :: "16 word" where "kWalVersion = 1"
definition kWalHeaderSize :: nat where "kWalHeaderSize = 36"
definition kWalMaxKeySize :: nat where "kWalMaxKeySize = 1024"
definition kWalMaxValueSize :: nat where "kWalMaxValueSize = 1024 * 1024"
definition kMaxWalRecordSize :: nat where
  "kMaxWalRecordSize = kWalHeaderSize + kWalMaxKeySize + kWalMaxValueSize"

lemmas wal_constants = kWalMagic_def kWalVersion_def kWalHeaderSize_def kWalMaxKeySize_def
  kWalMaxValueSize_def kMaxWalRecordSize_def

type_synonym WalOperation = byte

definition wal_put :: WalOperation where "wal_put = 1"
definition wal_delete_key :: WalOperation where "wal_delete_key = 2"

lemmas wal_operations = wal_put_def wal_delete_key_def

record WalRecord =
  wal_lsn :: "64 word"
  wal_operation :: WalOperation
  wal_key :: bytes
  wal_value :: bytes

text \<open>\<^verbatim>\<open>DecodeResult\<close>: the record and the bytes consumed exist exactly when the status is complete.\<close>

datatype DecodeResult =
    Decode_complete WalRecord nat
  | Decode_incomplete
  | Decode_corrupt string

definition record_checksum :: "bytes \<Rightarrow> 32 word" where
  "record_checksum bs =
     crc32_value (crc32_update (crc32_update crc32_init (take 32 bs)) (drop kWalHeaderSize bs))"

definition validation_error :: "WalRecord \<Rightarrow> string" where
  "validation_error r =
     (if wal_lsn r = 0 then ''LSN must be positive''
      else if wal_key r = [] \<or> length (wal_key r) > kWalMaxKeySize
        then ''key length is outside the supported range''
      else if length (wal_value r) > kWalMaxValueSize then ''value exceeds the maximum size''
      else if wal_operation r \<noteq> wal_put \<and> wal_operation r \<noteq> wal_delete_key
        then ''unknown WAL operation''
      else if wal_operation r = wal_delete_key \<and> wal_value r \<noteq> []
        then ''DELETE records cannot contain values''
      else [])"

text \<open>The bytes of a record before its checksum field is filled in.\<close>

definition record_image :: "WalRecord \<Rightarrow> bytes" where
  "record_image r =
     (let record_size = kWalHeaderSize + length (wal_key r) + length (wal_value r) in
      write_at (kWalHeaderSize + length (wal_key r)) (wal_value r)
      (write_at kWalHeaderSize (wal_key r)
      (write_at 28 (write_u32 (of_nat (length (wal_value r))))
      (write_at 24 (write_u32 (of_nat (length (wal_key r))))
      (write_at 20 [wal_operation r]
      (write_at 12 (write_u64 (wal_lsn r))
      (write_at 8 (write_u32 (of_nat record_size))
      (write_at 6 (write_u16 (of_nat kWalHeaderSize))
      (write_at 4 (write_u16 kWalVersion)
      (write_at 0 (write_u32 kWalMagic)
      (replicate record_size 0)))))))))))"

definition encode_record :: "WalRecord \<Rightarrow> (std_exn, bytes) result" where
  "encode_record r =
     (if validation_error r \<noteq> [] then Inl (invalid_argument (validation_error r))
      else if kWalHeaderSize + length (wal_key r) + length (wal_value r) > 2 ^ 32 - 1
        then Inl (length_error ''WAL record does not fit the wire length field'')
      else Inr (write_at 32 (write_u32 (record_checksum (record_image r))) (record_image r)))"

definition decode_record :: "bytes \<Rightarrow> DecodeResult" where
  "decode_record bs =
     (if length bs < kWalHeaderSize then Decode_incomplete
      else if read_u32 (subspan 0 4 bs) \<noteq> kWalMagic then Decode_corrupt ''invalid WAL magic''
      else if read_u16 (subspan 4 2 bs) \<noteq> kWalVersion
        then Decode_corrupt ''unsupported WAL version''
      else if unat (read_u16 (subspan 6 2 bs)) \<noteq> kWalHeaderSize
        then Decode_corrupt ''invalid WAL header length''
      else if bs ! 21 \<noteq> 0 \<or> bs ! 22 \<noteq> 0 \<or> bs ! 23 \<noteq> 0
        then Decode_corrupt ''reserved WAL fields are nonzero''
      else
        let record_size = unat (read_u32 (subspan 8 4 bs));
            key_size = unat (read_u32 (subspan 24 4 bs));
            value_size = unat (read_u32 (subspan 28 4 bs));
            lsn = read_u64 (subspan 12 8 bs);
            operation = bs ! 20
        in if record_size < kWalHeaderSize \<or> record_size > kMaxWalRecordSize
             then Decode_corrupt ''invalid WAL record length''
           else if key_size = 0 \<or> key_size > kWalMaxKeySize \<or> value_size > kWalMaxValueSize
             then Decode_corrupt ''invalid WAL payload lengths''
           else if record_size \<noteq> kWalHeaderSize + key_size + value_size
             then Decode_corrupt ''WAL record and payload lengths disagree''
           else if lsn = 0 then Decode_corrupt ''invalid zero LSN''
           else if operation \<noteq> wal_put \<and> operation \<noteq> wal_delete_key
             then Decode_corrupt ''unknown WAL operation''
           else if operation = wal_delete_key \<and> value_size \<noteq> 0
             then Decode_corrupt ''DELETE record contains a value''
           else if length bs < record_size then Decode_incomplete
           else
             let complete_bytes = take record_size bs;
                 payload = drop kWalHeaderSize complete_bytes
             in if read_u32 (subspan 32 4 complete_bytes) \<noteq> record_checksum complete_bytes
                  then Decode_corrupt ''WAL checksum mismatch''
                else Decode_complete
                  \<lparr>wal_lsn = lsn, wal_operation = operation, wal_key = take key_size payload,
                   wal_value = subspan key_size value_size payload\<rparr> record_size)"

section \<open>The layout of an encoded record\<close>

definition record_valid :: "WalRecord \<Rightarrow> bool" where
  "record_valid r \<longleftrightarrow> validation_error r = []"

definition record_size :: "WalRecord \<Rightarrow> nat" where
  "record_size r = kWalHeaderSize + length (wal_key r) + length (wal_value r)"

text \<open>The 32 header bytes under the checksum, and the whole record.\<close>

definition record_prefix :: "WalRecord \<Rightarrow> bytes" where
  "record_prefix r =
     write_u32 kWalMagic @ write_u16 kWalVersion @ write_u16 (of_nat kWalHeaderSize) @
     write_u32 (of_nat (record_size r)) @ write_u64 (wal_lsn r) @ [wal_operation r, 0, 0, 0] @
     write_u32 (of_nat (length (wal_key r))) @ write_u32 (of_nat (length (wal_value r)))"

definition record_bytes :: "WalRecord \<Rightarrow> bytes" where
  "record_bytes r =
     record_prefix r @ write_u32 (crc32 (record_prefix r @ wal_key r @ wal_value r)) @
     wal_key r @ wal_value r"

lemma record_valid_iff:
  "record_valid r \<longleftrightarrow>
     wal_lsn r \<noteq> 0 \<and> wal_key r \<noteq> [] \<and> length (wal_key r) \<le> kWalMaxKeySize \<and>
     length (wal_value r) \<le> kWalMaxValueSize \<and>
     (wal_operation r = wal_put \<or> wal_operation r = wal_delete_key \<and> wal_value r = [])"
  by (auto simp: record_valid_def validation_error_def wal_operations)

lemma length_record_prefix [simp]: "length (record_prefix r) = 32"
  by (simp add: record_prefix_def)

lemma length_record_bytes [simp]: "length (record_bytes r) = record_size r"
  by (simp add: record_bytes_def record_size_def kWalHeaderSize_def)

lemma record_size_bounds:
  "record_valid r \<Longrightarrow> kWalHeaderSize < record_size r \<and> record_size r \<le> kMaxWalRecordSize"
  by (auto simp: record_valid_iff record_size_def wal_constants)

lemma record_image_layout: "record_image r = record_prefix r @ [0, 0, 0, 0] @ wal_key r @ wal_value r"
proof -
  let ?k = "length (wal_key r)" and ?v = "length (wal_value r)"
  have "record_image r = write_at 28 (write_u32 (of_nat ?v)) (write_at 24 (write_u32 (of_nat ?k))
      (write_at 20 [wal_operation r] (write_at 12 (write_u64 (wal_lsn r))
      (write_at 8 (write_u32 (of_nat (record_size r))) (write_at 6 (write_u16 (of_nat kWalHeaderSize))
      (write_at 4 (write_u16 kWalVersion) (write_at 0 (write_u32 kWalMagic) (replicate 36 0))))))))
      @ wal_key r @ wal_value r"
    by (simp add: record_image_def record_size_def kWalHeaderSize_def Let_def replicate_add
        write_at_append)
  then show ?thesis by (simp add: record_prefix_def write_at_def eval_nat_numeral)
qed

lemma record_checksum_layout:
  "length ps = 32 \<Longrightarrow> length cs = 4 \<Longrightarrow> record_checksum (ps @ cs @ xs) = crc32 (ps @ xs)"
  by (simp add: record_checksum_def kWalHeaderSize_def crc.digest_two crc32_def)

lemma encode_record_valid: "record_valid r \<Longrightarrow> encode_record r = Inr (record_bytes r)"
proof -
  assume v: "record_valid r"
  have "record_checksum (record_image r) = crc32 (record_prefix r @ wal_key r @ wal_value r)"
    unfolding record_image_layout by (rule record_checksum_layout) simp_all
  then have "write_at 32 (write_u32 (record_checksum (record_image r))) (record_image r)
      = record_bytes r"
    by (simp add: record_bytes_def) (simp add: record_image_layout write_at_def)
  then show ?thesis
    using v record_size_bounds [OF v]
    by (simp add: encode_record_def record_valid_def record_size_def wal_constants)
qed

lemma encode_record_eq: "encode_record r = Inr bs \<longleftrightarrow> record_valid r \<and> bs = record_bytes r"
  using encode_record_valid [of r]
  by (cases "record_valid r") (auto simp: encode_record_def record_valid_def)

section \<open>Decoding\<close>

lemma record_prefix_fields:
  "subspan 0 4 (record_prefix r @ t) = write_u32 kWalMagic"
  "subspan 4 2 (record_prefix r @ t) = write_u16 kWalVersion"
  "subspan 6 2 (record_prefix r @ t) = write_u16 (of_nat kWalHeaderSize)"
  "subspan 8 4 (record_prefix r @ t) = write_u32 (of_nat (record_size r))"
  "subspan 12 8 (record_prefix r @ t) = write_u64 (wal_lsn r)"
  "subspan 24 4 (record_prefix r @ t) = write_u32 (of_nat (length (wal_key r)))"
  "subspan 28 4 (record_prefix r @ t) = write_u32 (of_nat (length (wal_value r)))"
  "(record_prefix r @ t) ! 20 = wal_operation r" "(record_prefix r @ t) ! 21 = 0"
  "(record_prefix r @ t) ! 22 = 0" "(record_prefix r @ t) ! 23 = 0"
  by (simp_all add: record_prefix_def subspan_def nth_append)

lemma decode_record_prefix:
  assumes "record_valid r" and "length c = 4"
    and "n = length (wal_key r) + length (wal_value r)"
  shows "decode_record (record_prefix r @ c @ rest) =
    (if length rest < n then Decode_incomplete
     else if read_u32 c \<noteq> crc32 (record_prefix r @ take n rest)
       then Decode_corrupt ''WAL checksum mismatch''
     else Decode_complete (r\<lparr>wal_key := take (length (wal_key r)) rest,
         wal_value := subspan (length (wal_key r)) (length (wal_value r)) rest\<rparr>)
       (record_size r))"
proof -
  have v: "wal_lsn r \<noteq> 0" "wal_key r \<noteq> []" "length (wal_key r) \<le> 1024"
    "length (wal_value r) \<le> 1048576" "wal_operation r = wal_put \<or> wal_operation r = wal_delete_key"
    "wal_operation r = wal_delete_key \<Longrightarrow> wal_value r = []"
    using assms(1) by (auto simp: record_valid_iff wal_constants wal_operations)
  have sizes: "unat (of_nat (record_size r) :: 32 word) = record_size r"
    "unat (of_nat (length (wal_key r)) :: 32 word) = length (wal_key r)"
    "unat (of_nat (length (wal_value r)) :: 32 word) = length (wal_value r)"
    "record_size r = 36 + n"
    using v record_size_bounds [OF assms(1)]
    by (simp_all add: unat_of_nat32 record_size_def wal_constants assms(3) del: of_nat_add)
  have tk: "take (36 + n) (record_prefix r @ c @ rest) = record_prefix r @ c @ take n rest"
    using assms(2) by simp
  have cs: "record_checksum (record_prefix r @ c @ take n rest) = crc32 (record_prefix r @ take n rest)"
    by (rule record_checksum_layout) (simp_all add: assms(2))
  have cf: "subspan 32 4 (record_prefix r @ c @ take n rest) = c"
    using assms(2) by (simp add: subspan_def)
  have pl: "drop 36 (record_prefix r @ c @ take n rest) = take n rest"
    using assms(2) by simp
  have kv: "take (length (wal_key r)) (take n rest) = take (length (wal_key r)) rest"
    "subspan (length (wal_key r)) (length (wal_value r)) (take n rest) =
     subspan (length (wal_key r)) (length (wal_value r)) rest"
    by (simp_all add: assms(3) subspan_take)
  have ops: "wal_put \<noteq> wal_delete_key" by (simp add: wal_operations)
  have h: "unat (of_nat 36 :: 16 word) = 36" by simp
  show ?thesis
    unfolding decode_record_def record_prefix_fields read_write_u16 read_write_u32 read_write_u64
      sizes(1-3) Let_def kWalHeaderSize_def h
    unfolding sizes(4) tk cs cf pl kv
    using v assms(2) ops sizes(4) assms(3)
    by (auto simp: kMaxWalRecordSize_def wal_constants)
qed

lemma decode_record_bytes:
  "record_valid r \<Longrightarrow> decode_record (record_bytes r @ rest) = Decode_complete r (record_size r)"
  by (simp add: record_bytes_def decode_record_prefix subspan_def)

lemma decode_record_short: "length bs < kWalHeaderSize \<Longrightarrow> decode_record bs = Decode_incomplete"
  by (simp add: decode_record_def)

lemma decode_record_torn:
  assumes "record_valid r" and "k < record_size r"
  shows "decode_record (take k (record_bytes r)) = Decode_incomplete"
proof (cases "k < kWalHeaderSize")
  case True
  then show ?thesis by (intro decode_record_short) simp
next
  case False
  then obtain j where k: "k = 36 + j" by (metis kWalHeaderSize_def le_Suc_ex not_less)
  have "take k (record_bytes r) =
      record_prefix r @ write_u32 (crc32 (record_prefix r @ wal_key r @ wal_value r)) @
      take j (wal_key r @ wal_value r)"
    by (simp add: record_bytes_def k)
  then show ?thesis
    using assms by (auto simp: decode_record_prefix k record_size_def kWalHeaderSize_def min_def)
qed

lemma decode_record_corrupt_byte:
  assumes "record_valid r" and "i < length (wal_key r @ wal_value r)"
    and "b \<noteq> (wal_key r @ wal_value r) ! i"
  shows "decode_record ((record_bytes r)[kWalHeaderSize + i := b] @ rest) =
    Decode_corrupt ''WAL checksum mismatch''"
proof -
  let ?pl = "wal_key r @ wal_value r"
  have bytes: "(record_bytes r)[kWalHeaderSize + i := b] @ rest =
      record_prefix r @ write_u32 (crc32 (record_prefix r @ ?pl)) @ ?pl[i := b] @ rest"
    by (simp add: record_bytes_def list_update_append kWalHeaderSize_def)
  have "crc32 (record_prefix r @ ?pl[i := b]) \<noteq> crc32 (record_prefix r @ ?pl)"
    using crc32_detects_byte [of "record_prefix r @ take i ?pl" b "drop (Suc i) ?pl" "?pl ! i"]
      assms(2,3) id_take_nth_drop [OF assms(2)] upd_conv_take_nth_drop [OF assms(2), of b]
    by (simp only: append_assoc append_Cons) (metis append_assoc)
  then show ?thesis
    unfolding bytes
    by (subst decode_record_prefix [OF assms(1)]) auto
qed

lemma decode_guard:
  "(if c then Decode_corrupt e else x) = Decode_complete r n \<longleftrightarrow> \<not> c \<and> x = Decode_complete r n"
  "(if c then Decode_incomplete else x) = Decode_complete r n \<longleftrightarrow> \<not> c \<and> x = Decode_complete r n"
  by auto

text \<open>What decodes is a valid record in its one encoding.\<close>

lemma decode_record_sound:
  assumes "decode_record bs = Decode_complete r n"
  shows "record_valid r \<and> n = record_size r \<and> n \<le> length bs \<and> take n bs = record_bytes r"
proof -
  define ks where "ks = unat (read_u32 (subspan 24 4 bs))"
  define vs where "vs = unat (read_u32 (subspan 28 4 bs))"
  define tb where "tb = take n bs"
  have hdr: "read_u32 (subspan 0 4 bs) = kWalMagic" "read_u16 (subspan 4 2 bs) = kWalVersion"
    "unat (read_u16 (subspan 6 2 bs)) = 36" "bs ! 21 = 0" "bs ! 22 = 0" "bs ! 23 = 0"
    "unat (read_u32 (subspan 8 4 bs)) = n" "n = 36 + ks + vs" "n \<le> length bs"
    "0 < ks" "ks \<le> kWalMaxKeySize" "vs \<le> kWalMaxValueSize" "wal_lsn r \<noteq> 0"
    "wal_operation r = wal_put \<or> wal_operation r = wal_delete_key \<and> vs = 0"
    and r: "wal_lsn r = read_u64 (subspan 12 8 bs)" "wal_operation r = bs ! 20"
    "wal_key r = take ks (drop 36 tb)" "wal_value r = subspan ks vs (drop 36 tb)"
    and cs: "read_u32 (subspan 32 4 tb) = record_checksum tb"
    using assms unfolding decode_record_def Let_def decode_guard ks_def [symmetric] vs_def [symmetric]
    by (auto simp: tb_def kWalHeaderSize_def)
  have tb: "36 \<le> length tb" "length tb = n" using hdr(8,9) by (simp_all add: tb_def)
  have sub: "subspan off k bs = subspan off k tb" if "off + k \<le> 36" for off k
    using that hdr(8) by (simp add: tb_def subspan_take)
  have at: "bs ! i = tb ! i" if "i < 36" for i
    using that hdr(8,9) by (simp add: tb_def)
  have lens: "length (wal_key r) = ks" "length (wal_value r) = vs"
    using r(3,4) tb hdr(8) by (simp_all add: subspan_def)
  have pl: "drop 36 tb = wal_key r @ wal_value r"
    using drop_subspan [of 0 "drop 36 tb" ks] tb hdr(8) by (simp add: r(3,4) subspan_def)
  have size: "record_size r = n" using hdr(8) lens by (simp add: record_size_def kWalHeaderSize_def)
  have fields: "subspan 0 4 tb = write_u32 kWalMagic" "subspan 4 2 tb = write_u16 kWalVersion"
    "subspan 6 2 tb = write_u16 (of_nat kWalHeaderSize)"
    "subspan 8 4 tb = write_u32 (of_nat (record_size r))"
    "subspan 12 8 tb = write_u64 (wal_lsn r)"
    "subspan 24 4 tb = write_u32 (of_nat (length (wal_key r)))"
    "subspan 28 4 tb = write_u32 (of_nat (length (wal_value r)))"
    using hdr(1,2,7) unat_eq_imp_of_nat [OF hdr(3)] r(1) tb lens size ks_def vs_def
    by (simp_all add: sub u16.get_eq_iff [symmetric] u32.get_eq_iff [symmetric]
        u64.get_eq_iff [symmetric] unat_eq_imp_of_nat kWalHeaderSize_def)
  have "subspan 20 4 tb = [wal_operation r, 0, 0, 0]"
    using tb(1) hdr(4-6) r(2) by (simp add: subspan_four at)
  moreover have "take 32 tb = subspan 0 4 tb @ subspan 4 2 tb @ subspan 6 2 tb @ subspan 8 4 tb @
      subspan 12 8 tb @ subspan 20 4 tb @ subspan 24 4 tb @ subspan 28 4 tb"
    by (simp add: subspan_join subspan_0 [symmetric])
  ultimately have prefix: "take 32 tb = record_prefix r"
    by (simp add: fields record_prefix_def)
  have split: "tb = record_prefix r @ subspan 32 4 tb @ wal_key r @ wal_value r"
    using drop_subspan [of 32 tb 4] append_take_drop_id [of 32 tb] by (simp add: prefix pl)
  moreover have "subspan 32 4 tb = write_u32 (crc32 (record_prefix r @ wal_key r @ wal_value r))"
    using cs record_checksum_layout [of "record_prefix r" "subspan 32 4 tb" "wal_key r @ wal_value r"]
      tb(1) unfolding split [symmetric] by (simp add: u32.get_eq_iff)
  ultimately have "tb = record_bytes r" by (simp add: record_bytes_def)
  then show ?thesis
    using hdr(9-14) size lens tb_def by (auto simp: record_valid_iff)
qed

end
