(* ===== verification/Posix.thy ===== *)
theory Posix
  imports Prelude
begin

text \<open>
  The system-call loops of the storage layer. The kernel is a parameter: the results of the
  successive calls are a list, the \<^emph>\<open>script\<close>; a call beyond the end of the script never returns,
  which is how a crash of the process at an arbitrary call is expressed. What a call does to the file
  is the documented behaviour of \<^verbatim>\<open>write\<close>, \<^verbatim>\<open>pread\<close>, \<^verbatim>\<open>fdatasync\<close> and \<^verbatim>\<open>ftruncate\<close>: a write may be
  short, a read returns at least one byte unless the offset is at the end of the file, and a call may
  be interrupted (\<^verbatim>\<open>EINTR\<close>). The three loops are those that \<^verbatim>\<open>wal.cpp\<close>, \<^verbatim>\<open>raft_storage.cpp\<close> and
  \<^verbatim>\<open>snapshot_store.cpp\<close> repeat.
\<close>

section \<open>Definitions\<close>

datatype sys = Sys_ok nat | Sys_eintr | Sys_error

datatype io_status = Io_done | Io_failed | Io_crashed

text \<open>\<^verbatim>\<open>write_all\<close>: the bytes that reach the file, and the script that is left.\<close>

fun write_calls :: "sys list \<Rightarrow> bytes \<Rightarrow> io_status \<times> bytes \<times> sys list" where
  "write_calls calls [] = (Io_done, [], calls)"
| "write_calls [] (b # bs) = (Io_crashed, [], [])"
| "write_calls (Sys_ok n # calls) (b # bs) =
     (if n = 0 then (Io_failed, [], calls)
      else case write_calls calls (drop n (b # bs)) of
        (st, out, calls) \<Rightarrow> (st, take n (b # bs) @ out, calls))"
| "write_calls (Sys_eintr # calls) (b # bs) = write_calls calls (b # bs)"
| "write_calls (Sys_error # calls) (b # bs) = (Io_failed, [], calls)"

text \<open>\<^verbatim>\<open>read_at\<close>: \<open>avail\<close> is the file from the offset on, \<open>count\<close> the size of the destination.\<close>

fun read_calls :: "sys list \<Rightarrow> bytes \<Rightarrow> nat \<Rightarrow> io_status \<times> bytes \<times> sys list" where
  "read_calls calls avail 0 = (Io_done, [], calls)"
| "read_calls [] avail (Suc count) = (Io_crashed, [], [])"
| "read_calls (Sys_ok n # calls) avail (Suc count) =
     (let got = take (min (max 1 n) (Suc count)) avail
      in if got = [] then (Io_done, [], calls)
         else case read_calls calls (drop (length got) avail) (Suc count - length got) of
           (st, out, calls) \<Rightarrow> (st, got @ out, calls))"
| "read_calls (Sys_eintr # calls) avail (Suc count) = read_calls calls avail (Suc count)"
| "read_calls (Sys_error # calls) avail (Suc count) = (Io_failed, [], calls)"

text \<open>\<^verbatim>\<open>while (call(...) != 0) if (errno != EINTR) throw\<close>.\<close>

fun retry_calls :: "sys list \<Rightarrow> io_status \<times> sys list" where
  "retry_calls [] = (Io_crashed, [])"
| "retry_calls (Sys_ok n # calls) = (Io_done, calls)"
| "retry_calls (Sys_eintr # calls) = retry_calls calls"
| "retry_calls (Sys_error # calls) = (Io_failed, calls)"

text \<open>A stateful operation returns, throws, or never returns because the process stopped.\<close>

datatype ('e, 'a) outcome = Returned 'a | Threw 'e | Crashed

type_synonym ('w, 'e, 'a) prog = "'w \<Rightarrow> ('e, 'a) outcome \<times> 'w"

definition bindP :: "('w, 'e, 'a) prog \<Rightarrow> ('a \<Rightarrow> ('w, 'e, 'b) prog) \<Rightarrow> ('w, 'e, 'b) prog" where
  "bindP m f w =
     (case m w of
        (Returned x, w') \<Rightarrow> f x w'
      | (Threw e, w') \<Rightarrow> (Threw e, w')
      | (Crashed, w') \<Rightarrow> (Crashed, w'))"

definition returnP :: "'a \<Rightarrow> ('w, 'e, 'a) prog" where
  "returnP x w = (Returned x, w)"

definition throwP :: "'e \<Rightarrow> ('w, 'e, 'a) prog" where
  "throwP e w = (Threw e, w)"

definition status_outcome :: "'e \<Rightarrow> io_status \<Rightarrow> ('e, unit) outcome" where
  "status_outcome e st = (case st of Io_done \<Rightarrow> Returned () | Io_failed \<Rightarrow> Threw e | Io_crashed \<Rightarrow> Crashed)"

section \<open>What the loops guarantee\<close>

lemma bindP_cong [fundef_cong]:
  "m w = m' w' \<Longrightarrow> (\<And>x v. m' w' = (Returned x, v) \<Longrightarrow> f x v = f' x v) \<Longrightarrow>
   bindP m f w = bindP m' f' w'"
  by (simp add: bindP_def split: prod.split outcome.split)

lemma bindP_simps [simp]:
  "m w = (Returned x, w') \<Longrightarrow> bindP m f w = f x w'"
  "m w = (Threw e, w') \<Longrightarrow> bindP m f w = (Threw e, w')"
  "m w = (Crashed, w') \<Longrightarrow> bindP m f w = (Crashed, w')"
  by (simp_all add: bindP_def)

lemma write_calls_prefix:
  "write_calls calls bs = (st, out, calls') \<Longrightarrow>
   (\<exists>k. out = take k bs) \<and> (st = Io_done \<longrightarrow> out = bs) \<and>
   (st = Io_crashed \<longrightarrow> calls' = [])"
proof (induction calls bs arbitrary: out calls' st rule: write_calls.induct)
  case (3 n calls b bs)
  show ?case
  proof (cases "n = 0")
    case False
    obtain st1 out1 calls1 where w: "write_calls calls (drop n (b # bs)) = (st1, out1, calls1)"
      by (cases "write_calls calls (drop n (b # bs))") auto
    with 3 False have o: "st = st1" "out = take n (b # bs) @ out1" "calls' = calls1" by auto
    from 3(1) [OF False w] obtain k where k: "out1 = take k (drop n (b # bs))" by blast
    have "out = take (n + k) (b # bs)" by (simp add: o(2) k take_add)
    moreover have "st = Io_done \<longrightarrow> out = b # bs" "st = Io_crashed \<longrightarrow> calls' = []"
      using 3(1) [OF False w] o by auto
    ultimately show ?thesis by blast
  qed (use 3 in auto)
qed auto

lemma read_calls_all:
  "read_calls calls avail count = (st, out, calls') \<Longrightarrow>
   (st = Io_done \<longrightarrow> out = take count avail) \<and> (st = Io_crashed \<longrightarrow> calls' = [])"
proof (induction calls avail count arbitrary: out calls' st rule: read_calls.induct)
  case (3 n calls avail count)
  define got where "got = take (min (max 1 n) (Suc count)) avail"
  show ?case
  proof (cases "got = []")
    case True
    then show ?thesis using 3(2) by (auto simp: got_def)
  next
    case False
    obtain st1 out1 calls1 where w:
      "read_calls calls (drop (length got) avail) (Suc count - length got) = (st1, out1, calls1)"
      by (cases "read_calls calls (drop (length got) avail) (Suc count - length got)") auto
    have "read_calls (Sys_ok n # calls) avail (Suc count) = (st1, got @ out1, calls1)"
      unfolding read_calls.simps Let_def got_def [symmetric] w using False by simp
    then have o: "st = st1" "out = got @ out1" "calls' = calls1" using 3(2) by auto
    have "got = take (length got) avail"
      unfolding got_def length_take by (metis min.commute order_refl take_all take_take)
    moreover have "length got \<le> Suc count" by (simp add: got_def)
    ultimately have "take (Suc count) avail = got @ take (Suc count - length got) (drop (length got) avail)"
      by (metis le_add_diff_inverse take_add)
    then show ?thesis using 3(1) [OF got_def False w] o by auto
  qed
qed auto

lemma retry_calls_crashed: "retry_calls calls = (Io_crashed, calls') \<Longrightarrow> calls' = []"
  by (induction calls rule: retry_calls.induct) auto

section \<open>Undisturbed calls\<close>

text \<open>A script whose calls all succeed and transfer at least \<open>k\<close> bytes.\<close>

fun ample :: "nat \<Rightarrow> sys \<Rightarrow> bool" where
  "ample k (Sys_ok n) \<longleftrightarrow> k \<le> n"
| "ample k Sys_eintr \<longleftrightarrow> False"
| "ample k Sys_error \<longleftrightarrow> False"

lemma write_calls_ample:
  "ample k c \<Longrightarrow> 0 < length bs \<Longrightarrow> length bs \<le> k \<Longrightarrow>
   write_calls (c # calls) bs = (Io_done, bs, calls)"
  by (cases c; cases bs) (auto simp: le_Suc_eq split: prod.split)

lemma read_calls_ample:
  "ample k c \<Longrightarrow> 0 < count \<Longrightarrow> count \<le> k \<Longrightarrow> count \<le> length avail \<Longrightarrow>
   read_calls (c # calls) avail count = (Io_done, take count avail, calls)"
  by (cases c; cases count; cases avail) (auto simp: Let_def min_absorb2 max_absorb2 le_max_iff_disj)

lemma retry_calls_ample: "ample k c \<Longrightarrow> retry_calls (c # calls) = (Io_done, calls)"
  by (cases c) auto

end
