(* ===== verification/Journal.thy ===== *)
theory Journal
  imports Prelude
begin

text \<open>
  The contract that an append-only journal needs from its record codec, shared by the write-ahead log
  (\<open>Wal\<close>) and the Raft log file: a record is readable at the front of whatever follows it, and a
  record cut short is recognisably incomplete. From it follows what any prefix of a journal, the file
  a crash leaves, looks like.
\<close>

text \<open>The records of a journal that lie wholly within its first \<open>n\<close> bytes.\<close>

fun complete_records :: "('r \<Rightarrow> bytes) \<Rightarrow> nat \<Rightarrow> 'r list \<Rightarrow> 'r list" where
  "complete_records enc n [] = []"
| "complete_records enc n (r # rs) =
     (if length (enc r) \<le> n then r # complete_records enc (n - length (enc r)) rs else [])"

lemma complete_records_prefix: "\<exists>m. complete_records enc n rs = take m rs"
proof (induction enc n rs rule: complete_records.induct)
  case (2 enc n r rs)
  show ?case
  proof (cases "length (enc r) \<le> n")
    case True
    then obtain m where "complete_records enc (n - length (enc r)) rs = take m rs" using 2 by blast
    then show ?thesis using True by (intro exI [of _ "Suc m"]) simp
  next
    case False
    then show ?thesis by (intro exI [of _ 0]) simp
  qed
qed simp

lemma complete_records_all:
  "length (concat (map enc rs)) \<le> n \<Longrightarrow> complete_records enc n (rs @ rs') =
   rs @ complete_records enc (n - length (concat (map enc rs))) rs'"
  by (induction rs arbitrary: n) auto

locale journal_codec =
  fixes ok :: "'r \<Rightarrow> bool"
    and enc :: "'r \<Rightarrow> bytes"
    and reads :: "bytes \<Rightarrow> 'r \<Rightarrow> bool"
    and torn :: "bytes \<Rightarrow> bool"
  assumes enc_reads: "ok r \<Longrightarrow> reads (enc r @ rest) r"
    and reads_unique: "reads bs r \<Longrightarrow> reads bs r' \<Longrightarrow> r = r'"
    and enc_torn: "ok r \<Longrightarrow> j < length (enc r) \<Longrightarrow> torn (take j (enc r))"
    and torn_not_reads: "torn bs \<Longrightarrow> \<not> reads bs r"
begin

lemma enc_prefix_unique: "ok r \<Longrightarrow> ok r' \<Longrightarrow> enc r @ xs = enc r' @ ys \<Longrightarrow> r = r' \<and> xs = ys"
proof -
  assume "ok r" "ok r'" and eq: "enc r @ xs = enc r' @ ys"
  then have "reads (enc r @ xs) r" "reads (enc r @ xs) r'" using enc_reads by metis+
  then have "r = r'" by (rule reads_unique)
  then show ?thesis using eq by simp
qed

text \<open>Any prefix of a journal is its complete records followed by nothing or by a torn record.\<close>

lemma prefix_split:
  assumes "list_all ok rs"
  shows "\<exists>t. take n (concat (map enc rs)) = concat (map enc (complete_records enc n rs)) @ t \<and>
    (t = [] \<or> (\<exists>r \<in> set rs. \<exists>j < length (enc r). t = take j (enc r)))"
  using assms
proof (induction rs arbitrary: n)
  case (Cons r rs)
  show ?case
  proof (cases "length (enc r) \<le> n")
    case True
    have "list_all ok rs" using Cons.prems by simp
    from Cons.IH [OF this, of "n - length (enc r)"] True show ?thesis by auto
  next
    case False
    then have "\<exists>r' \<in> set (r # rs). \<exists>j < length (enc r'). take n (enc r) = take j (enc r')"
      by (intro bexI [of _ r] exI [of _ n]) auto
    then show ?thesis using False by (intro exI [of _ "take n (enc r)"] conjI disjI2) simp_all
  qed
qed simp

text \<open>Two journals with the same bytes hold the same records.\<close>

lemma journal_inject:
  assumes "list_all ok rs" and "list_all ok rs'" and "\<And>r. ok r \<Longrightarrow> enc r \<noteq> []"
    and "concat (map enc rs) = concat (map enc rs')"
  shows "rs = rs'"
  using assms(1,2,4)
proof (induction rs arbitrary: rs')
  case Nil
  then show ?case using assms(3) by (cases rs') auto
next
  case (Cons r rs)
  then obtain r' rs1 where r': "rs' = r' # rs1" using assms(3) by (cases rs') auto
  with Cons.prems have "r = r' \<and> concat (map enc rs) = concat (map enc rs1)"
    by (intro enc_prefix_unique) auto
  then show ?case using Cons.IH [of rs1] Cons.prems r' by simp
qed

end

end
