(* ===== verification/Wal.thy ===== *)
theory Wal
  imports Wal_Record Posix Journal
begin

text \<open>
  The write-ahead log (\<^verbatim>\<open>src/storage/wal.cpp\<close>). The record \<open>Wal\<close> joins the members of the class with
  what the log's file holds: its bytes, how many of them the last completed \<^verbatim>\<open>fdatasync\<close> covers, and
  the script of results of the system calls still to come.
\<close>

section \<open>Definitions\<close>

datatype StorageErrorCode = err_io | err_corruption | err_invalid_lsn | err_closed

datatype storage_exn = StorageError StorageErrorCode string | Std_exn std_exn

record Wal =
  wal_file :: bytes
  wal_synced :: nat
  wal_calls :: "sys list"
  wal_open :: bool
  wal_last_lsn :: "64 word"
  wal_durable_lsn :: "64 word"

type_synonym 'a wal_prog = "(Wal, storage_exn, 'a) prog"

text \<open>A log object just constructed on an open file of which \<open>synced\<close> bytes are known to be durable.\<close>

definition new_wal :: "bytes \<Rightarrow> nat \<Rightarrow> sys list \<Rightarrow> Wal" where
  "new_wal contents synced calls = \<lparr>wal_file = contents, wal_synced = synced, wal_calls = calls, wal_open = True,
     wal_last_lsn = 0, wal_durable_lsn = 0\<rparr>"

definition read_at :: "nat \<Rightarrow> nat \<Rightarrow> bytes wal_prog" where
  "read_at offset count w =
     (case read_calls (wal_calls w) (drop offset (wal_file w)) count of
        (st, out, calls) \<Rightarrow>
          (case status_outcome (StorageError err_io ''read WAL'') st of
             Returned _ \<Rightarrow> Returned out | Threw e \<Rightarrow> Threw e | Crashed \<Rightarrow> Crashed,
           w\<lparr>wal_calls := calls\<rparr>))"

definition write_all :: "bytes \<Rightarrow> unit wal_prog" where
  "write_all bs w =
     (case write_calls (wal_calls w) bs of
        (st, out, calls) \<Rightarrow>
          (status_outcome (StorageError err_io ''append WAL'') st,
           w\<lparr>wal_file := wal_file w @ out, wal_calls := calls\<rparr>))"

definition truncate_to :: "nat \<Rightarrow> unit wal_prog" where
  "truncate_to new_size w =
     (if new_size > 2 ^ 63 - 1
      then (Threw (StorageError err_io ''WAL offset exceeds platform limit''), w)
      else case retry_calls (wal_calls w) of
        (st, calls) \<Rightarrow>
          (status_outcome (StorageError err_io ''truncate incomplete WAL tail'') st,
           if st = Io_done
           then w\<lparr>wal_file := take new_size (wal_file w), wal_synced := min new_size (wal_synced w),
                  wal_calls := calls\<rparr>
           else w\<lparr>wal_calls := calls\<rparr>))"

text \<open>A system call that only succeeds or fails (\<^verbatim>\<open>fstat\<close>, \<^verbatim>\<open>lseek\<close>), without a retry.\<close>

definition plain_call :: "string \<Rightarrow> unit wal_prog" where
  "plain_call action w =
     (case wal_calls w of
        [] \<Rightarrow> (Crashed, w)
      | c # calls \<Rightarrow>
          ((case c of Sys_ok _ \<Rightarrow> Returned () | _ \<Rightarrow> Threw (StorageError err_io action)),
           w\<lparr>wal_calls := calls\<rparr>))"

definition wal_append :: "WalRecord \<Rightarrow> unit wal_prog" where
  "wal_append r w =
     (if \<not> wal_open w then (Threw (StorageError err_closed ''append to closed WAL''), w)
      else if wal_lsn r \<noteq> wal_last_lsn w + 1
        then (Threw (StorageError err_invalid_lsn ''WAL LSN must be the next gap-free value''), w)
      else case encode_record r of
          Inl e \<Rightarrow> (Threw (Std_exn e), w)
        | Inr encoded \<Rightarrow>
            bindP (write_all encoded) (\<lambda>_ w. (Returned (), w\<lparr>wal_last_lsn := wal_lsn r\<rparr>)) w)"

definition wal_sync :: "unit wal_prog" where
  "wal_sync w =
     (if \<not> wal_open w then (Threw (StorageError err_closed ''sync closed WAL''), w)
      else case retry_calls (wal_calls w) of
        (st, calls) \<Rightarrow>
          (status_outcome (StorageError err_io ''sync WAL'') st,
           if st = Io_done
           then w\<lparr>wal_synced := length (wal_file w), wal_calls := calls,
                  wal_durable_lsn := wal_last_lsn w\<rparr>
           else w\<lparr>wal_calls := calls\<rparr>))"

text \<open>
  One iteration of the recovery loop, up to the decoded record: \<^term>\<open>None\<close> when the tail at \<open>offset\<close>
  is incomplete and is to be cut off.
\<close>

definition recover_scan :: "nat \<Rightarrow> nat \<Rightarrow> (WalRecord \<times> nat) option wal_prog" where
  "recover_scan file_size offset w =
     (let remaining = file_size - offset in
      if remaining < kWalHeaderSize then (Returned None, w)
      else bindP (read_at offset kWalHeaderSize) (\<lambda>header w.
        if length header \<noteq> kWalHeaderSize then (Returned None, w)
        else case decode_record header of
            Decode_corrupt err \<Rightarrow> (Threw (StorageError err_corruption err), w)
          | _ \<Rightarrow>
            let record_size = unat (read_u32 (subspan 8 4 header)) in
            if record_size < kWalHeaderSize \<or> record_size > kMaxWalRecordSize
              then (Threw (StorageError err_corruption ''invalid WAL record size''), w)
            else if remaining < record_size then (Returned None, w)
            else bindP (read_at offset record_size) (\<lambda>bs w.
              if length bs \<noteq> record_size then (Returned None, w)
              else case decode_record bs of
                  Decode_complete r consumed \<Rightarrow> (Returned (Some (r, consumed)), w)
                | Decode_incomplete \<Rightarrow> (Threw (StorageError err_corruption []), w)
                | Decode_corrupt err \<Rightarrow> (Threw (StorageError err_corruption err), w)) w) w)"

lemma recover_scan_decoded:
  "recover_scan file_size offset w = (Returned (Some (r, n)), w') \<Longrightarrow>
   \<exists>bs. decode_record bs = Decode_complete r n"
  unfolding recover_scan_def bindP_def Let_def
  by (auto split: if_splits outcome.splits prod.splits DecodeResult.splits)

lemma recover_scan_consumed:
  "recover_scan file_size offset w = (Returned (Some (r, n)), w') \<Longrightarrow> 0 < n"
  using recover_scan_decoded decode_record_sound record_size_bounds
  by (metis gr_zeroI not_less_zero)

function recover_loop :: "('s \<Rightarrow> WalRecord \<Rightarrow> 's) \<Rightarrow> nat \<Rightarrow> nat \<Rightarrow> 64 word \<Rightarrow> 's \<Rightarrow>
    (64 word \<times> 's) wal_prog" where
  "recover_loop callback file_size offset recovered_lsn s w =
     (if offset < file_size then
        bindP (recover_scan file_size offset) (\<lambda>found w.
          case found of
            None \<Rightarrow> bindP (truncate_to offset) (\<lambda>_. returnP (recovered_lsn, s)) w
          | Some (r, consumed) \<Rightarrow>
              if wal_lsn r \<noteq> recovered_lsn + 1
              then (Threw (StorageError err_corruption ''non-contiguous WAL LSN''), w)
              else recover_loop callback file_size (offset + consumed) (wal_lsn r) (callback s r) w) w
      else (Returned (recovered_lsn, s), w))"
  by pat_completeness auto
termination
  by (relation "measure (\<lambda>(callback, file_size, offset, lsn, s, w). file_size - offset)")
     (auto dest: recover_scan_consumed)

declare recover_loop.simps [simp del]

definition wal_recover :: "('s \<Rightarrow> WalRecord \<Rightarrow> 's) \<Rightarrow> 's \<Rightarrow> 's wal_prog" where
  "wal_recover callback s w =
     (if \<not> wal_open w then (Threw (StorageError err_closed ''recover closed WAL''), w)
      else bindP (plain_call ''stat WAL'') (\<lambda>_ w.
        bindP (recover_loop callback (length (wal_file w)) 0 0 s) (\<lambda>(recovered_lsn, s).
        bindP (plain_call ''seek WAL append position'') (\<lambda>_ w.
          (Returned s, w\<lparr>wal_last_lsn := recovered_lsn, wal_durable_lsn := recovered_lsn\<rparr>))) w) w)"

definition wal_close :: "Wal \<Rightarrow> Wal" where
  "wal_close w = w\<lparr>wal_open := False\<rparr>"

text \<open>\<^verbatim>\<open>Wal::open\<close> on an existing or new file: a recovery pass that replays into nothing.\<close>

definition wal_open_file :: "bytes \<Rightarrow> nat \<Rightarrow> sys list \<Rightarrow> (storage_exn, unit) outcome \<times> Wal" where
  "wal_open_file contents synced calls =
     (case calls of
        [] \<Rightarrow> (Crashed, wal_close (new_wal contents synced []))
      | c # calls \<Rightarrow>
          (case c of
             Sys_ok _ \<Rightarrow>
               (case wal_recover (\<lambda>s _. s) () (new_wal contents synced calls) of
                  (Threw e, w) \<Rightarrow> (Threw e, wal_close w)
                | (out, w) \<Rightarrow> (out, w))
           | _ \<Rightarrow> (Threw (StorageError err_io ''open WAL''), wal_close (new_wal contents synced calls))))"

section \<open>Results of operations on the log\<close>

fun is_io :: "storage_exn \<Rightarrow> bool" where
  "is_io (StorageError c msg) \<longleftrightarrow> c = err_io"
| "is_io (Std_exn e) \<longleftrightarrow> False"

text \<open>An operation that returns gives a result with \<open>P\<close>, and can otherwise only fail in the kernel.\<close>

fun io_result :: "('a \<Rightarrow> bool) \<Rightarrow> (storage_exn, 'a) outcome \<Rightarrow> bool" where
  "io_result P (Returned x) \<longleftrightarrow> P x"
| "io_result P (Threw e) \<longleftrightarrow> is_io e"
| "io_result P Crashed \<longleftrightarrow> True"

text \<open>At least \<open>n\<close> more system calls succeed, each for a whole record.\<close>

definition undisturbed :: "nat \<Rightarrow> Wal \<Rightarrow> bool" where
  "undisturbed n w \<longleftrightarrow> list_all (ample kMaxWalRecordSize) (wal_calls w) \<and> n \<le> length (wal_calls w)"

lemma read_at_result:
  "read_at offset n w = (out, w') \<Longrightarrow>
   io_result (\<lambda>bs. bs = take n (drop offset (wal_file w))) out \<and>
   (\<exists>calls. w' = w\<lparr>wal_calls := calls\<rparr>)"
  using read_calls_all [of "wal_calls w" "drop offset (wal_file w)" n]
  by (auto simp: read_at_def status_outcome_def split: prod.splits io_status.splits)

lemma undisturbed_Suc:
  "undisturbed (Suc n) w \<longleftrightarrow>
   (\<exists>c calls. wal_calls w = c # calls \<and> ample kMaxWalRecordSize c \<and>
      undisturbed n (w\<lparr>wal_calls := calls\<rparr>))"
  by (cases "wal_calls w") (auto simp: undisturbed_def)

lemma read_at_undisturbed:
  "undisturbed (Suc n) w \<Longrightarrow> 0 < count \<Longrightarrow> count \<le> kMaxWalRecordSize \<Longrightarrow>
   offset + count \<le> length (wal_file w) \<Longrightarrow>
   \<exists>calls. read_at offset count w = (Returned (take count (drop offset (wal_file w))), w\<lparr>wal_calls := calls\<rparr>)
     \<and> undisturbed n (w\<lparr>wal_calls := calls\<rparr>)"
  by (auto simp: undisturbed_Suc read_at_def read_calls_ample status_outcome_def)

lemma truncate_to_result:
  "truncate_to n w = (out, w') \<Longrightarrow>
   io_result (\<lambda>_. wal_file w' = take n (wal_file w)) out \<and>
   (\<forall>u. out \<noteq> Returned u \<longrightarrow> wal_file w' = wal_file w) \<and> wal_open w' = wal_open w"
  by (auto simp: truncate_to_def status_outcome_def split: if_splits prod.splits io_status.splits)

lemma truncate_to_undisturbed:
  "undisturbed (Suc n) w \<Longrightarrow> k < 2 ^ 63 \<Longrightarrow>
   \<exists>w'. truncate_to k w = (Returned (), w') \<and> undisturbed n w'"
  by (auto simp: undisturbed_Suc truncate_to_def retry_calls_ample status_outcome_def)
     (auto simp: undisturbed_def)

lemma plain_call_result:
  "plain_call a w = (out, w') \<Longrightarrow>
   io_result (\<lambda>_. True) out \<and> (\<exists>calls. w' = w\<lparr>wal_calls := calls\<rparr>)"
  by (cases w) (auto simp: plain_call_def split: list.splits sys.splits)

lemma plain_call_undisturbed:
  "undisturbed (Suc n) w \<Longrightarrow>
   \<exists>calls. plain_call a w = (Returned (), w\<lparr>wal_calls := calls\<rparr>) \<and>
     undisturbed n (w\<lparr>wal_calls := calls\<rparr>)"
  by (auto simp: undisturbed_Suc plain_call_def split: sys.splits)

section \<open>Recovery\<close>

text \<open>The sequence numbers after \<open>lsn\<close> are consecutive.\<close>

fun lsn_run :: "64 word \<Rightarrow> WalRecord list \<Rightarrow> bool" where
  "lsn_run lsn [] \<longleftrightarrow> True"
| "lsn_run lsn (r # rs) \<longleftrightarrow> wal_lsn r = lsn + 1 \<and> lsn_run (wal_lsn r) rs"

definition journal_bytes :: "WalRecord list \<Rightarrow> bytes" where
  "journal_bytes rs = concat (map record_bytes rs)"

lemma header_of_record:
  assumes "record_valid r"
  shows "decode_record (take kWalHeaderSize (record_bytes r)) = Decode_incomplete"
    and "unat (read_u32 (subspan 8 4 (take kWalHeaderSize (record_bytes r)))) = record_size r"
proof -
  have b: "kWalHeaderSize < record_size r" "record_size r \<le> kMaxWalRecordSize"
    using record_size_bounds [OF assms(1)] by auto
  show "decode_record (take kWalHeaderSize (record_bytes r)) = Decode_incomplete"
    using decode_record_torn [OF assms(1) b(1)] .
  have "subspan 8 4 (take kWalHeaderSize (record_bytes r)) = write_u32 (of_nat (record_size r))"
    by (simp add: kWalHeaderSize_def subspan_take record_bytes_def record_prefix_fields)
  then show "unat (read_u32 (subspan 8 4 (take kWalHeaderSize (record_bytes r)))) = record_size r"
    using b(2) by (simp add: unat_of_nat32 wal_constants)
qed

lemma recover_scan_record:
  assumes "record_valid r" and "drop offset (wal_file w) = record_bytes r @ rest"
    and "recover_scan (length (wal_file w)) offset w = (out, w')"
  shows "io_result (\<lambda>x. x = Some (r, record_size r)) out \<and> (\<exists>calls. w' = w\<lparr>wal_calls := calls\<rparr>)"
proof -
  have b: "kWalHeaderSize < record_size r" "record_size r \<le> kMaxWalRecordSize"
    using record_size_bounds [OF assms(1)] by auto
  have rem: "length (wal_file w) - offset = record_size r + length rest"
    using arg_cong [OF assms(2), of length] by simp
  note hdr = header_of_record [OF assms(1)]
  show ?thesis
  proof (cases "read_at offset kWalHeaderSize w")
    case (Pair out1 w1)
    note r1 = read_at_result [OF Pair]
    obtain out2 w2 where Pair2: "read_at offset (record_size r) w1 = (out2, w2)"
      by (cases "read_at offset (record_size r) w1")
    note r2 = read_at_result [OF Pair2]
    show ?thesis
      using assms(3) Pair Pair2 r1 r2 b rem hdr assms(2) decode_record_bytes [OF assms(1), of "[]"]
      by (cases out1; cases out2)
         (auto simp: recover_scan_def Let_def length_record_bytes)
  qed
qed

lemma recover_scan_torn:
  assumes "record_valid r" and "drop offset (wal_file w) = take j (record_bytes r)"
    and "j < record_size r"
    and "recover_scan (length (wal_file w)) offset w = (out, w')"
  shows "io_result (\<lambda>x. x = None) out \<and> (\<exists>calls. w' = w\<lparr>wal_calls := calls\<rparr>)"
proof -
  have rem: "length (wal_file w) - offset = j"
    using arg_cong [OF assms(2), of length] assms(3) by simp
  show ?thesis
  proof (cases "j < kWalHeaderSize")
    case True
    then show ?thesis using assms(4) rem by (cases w) (auto simp: recover_scan_def)
  next
    case False
    obtain out1 w1 where r: "read_at offset kWalHeaderSize w = (out1, w1)"
      by (cases "read_at offset kWalHeaderSize w")
    show ?thesis
      using assms(2,3,4) r read_at_result [OF r] rem False header_of_record [OF assms(1)]
        record_size_bounds [OF assms(1)]
      by (cases out1) (auto simp: recover_scan_def Let_def min_def)
  qed
qed

lemma recover_scan_record_undisturbed:
  assumes "undisturbed (Suc (Suc n)) w" and "record_valid r"
    and "drop offset (wal_file w) = record_bytes r @ rest"
  shows "\<exists>calls. recover_scan (length (wal_file w)) offset w =
      (Returned (Some (r, record_size r)), w\<lparr>wal_calls := calls\<rparr>) \<and>
    undisturbed n (w\<lparr>wal_calls := calls\<rparr>)"
proof -
  have b: "kWalHeaderSize < record_size r" "record_size r \<le> kMaxWalRecordSize"
    using record_size_bounds [OF assms(2)] by auto
  have rem: "length (wal_file w) - offset = record_size r + length rest"
    using arg_cong [OF assms(3), of length] by simp
  then have fit: "offset + record_size r \<le> length (wal_file w)" using b by linarith
  from read_at_undisturbed [OF assms(1), of kWalHeaderSize offset] obtain c1 where
    c1: "read_at offset kWalHeaderSize w =
        (Returned (take kWalHeaderSize (record_bytes r)), w\<lparr>wal_calls := c1\<rparr>)"
      "undisturbed (Suc n) (w\<lparr>wal_calls := c1\<rparr>)"
    using fit b assms(3) by (auto simp: kWalHeaderSize_def)
  from read_at_undisturbed [OF c1(2), of "record_size r" offset] obtain c2 where
    c2: "read_at offset (record_size r) (w\<lparr>wal_calls := c1\<rparr>) =
        (Returned (record_bytes r), w\<lparr>wal_calls := c2\<rparr>)"
      "undisturbed n (w\<lparr>wal_calls := c2\<rparr>)"
    using fit b assms(3) by auto
  show ?thesis
    using c1(1) c2 rem b header_of_record [OF assms(2)] decode_record_bytes [OF assms(2), of "[]"]
    by (intro exI [of _ c2]) (auto simp: recover_scan_def Let_def)
qed

lemma recover_scan_torn_undisturbed:
  assumes "undisturbed (Suc n) w" and "record_valid r"
    and "drop offset (wal_file w) = take j (record_bytes r)" and "j < record_size r"
  shows "\<exists>calls. recover_scan (length (wal_file w)) offset w = (Returned None, w\<lparr>wal_calls := calls\<rparr>) \<and>
    undisturbed n (w\<lparr>wal_calls := calls\<rparr>)"
proof (cases "j < kWalHeaderSize")
  case True
  have "length (wal_file w) - offset = j"
    using arg_cong [OF assms(3), of length] assms(4) by simp
  then show ?thesis
    using True assms(1)
    by (intro exI [of _ "wal_calls w"]) (simp add: recover_scan_def undisturbed_def)
next
  case False
  have rem: "length (wal_file w) - offset = j"
    using arg_cong [OF assms(3), of length] assms(4) by simp
  then have fit: "offset + kWalHeaderSize \<le> length (wal_file w)"
    using False by (simp add: kWalHeaderSize_def)
  from read_at_undisturbed [OF assms(1), of kWalHeaderSize offset] obtain calls where
    c: "read_at offset kWalHeaderSize w =
        (Returned (take kWalHeaderSize (record_bytes r)), w\<lparr>wal_calls := calls\<rparr>)"
      "undisturbed n (w\<lparr>wal_calls := calls\<rparr>)"
    using fit False assms(3) by (auto simp: wal_constants min_def)
  show ?thesis
    using c rem False assms(4) header_of_record [OF assms(2)] record_size_bounds [OF assms(2)]
    by (intro exI [of _ calls]) (auto simp: recover_scan_def Let_def)
qed

text \<open>The bytes a crash can leave behind the complete records: a proper prefix of one more record.\<close>

definition torn_tail :: "bytes \<Rightarrow> bool" where
  "torn_tail t \<longleftrightarrow> (\<exists>r j. record_valid r \<and> j < record_size r \<and> t = take j (record_bytes r))"

lemma journal_bytes_simps [simp]:
  "journal_bytes [] = []"
  "journal_bytes (r # rs) = record_bytes r @ journal_bytes rs"
  "journal_bytes (rs @ rs') = journal_bytes rs @ journal_bytes rs'"
  by (simp_all add: journal_bytes_def)

lemma recover_loop_result:
  assumes "list_all record_valid rs" and "lsn_run lsn rs" and "torn_tail tail"
    and "wal_file w = pre @ journal_bytes rs @ tail"
    and "recover_loop callback (length (wal_file w)) (length pre) lsn s w = (out, w')"
  shows "io_result (\<lambda>x. x = (lsn + of_nat (length rs), foldl callback s rs) \<and>
      wal_file w' = pre @ journal_bytes rs) out \<and> wal_open w' = wal_open w"
  using assms
proof (induction rs arbitrary: lsn pre s w)
  case Nil
  show ?case
  proof (cases "tail = []")
    case True
    then show ?thesis using Nil by (auto simp: recover_loop.simps)
  next
    case False
    obtain r j where t: "record_valid r" "j < record_size r" "tail = take j (record_bytes r)"
      using Nil.prems(3) by (auto simp: torn_tail_def)
    obtain out1 w1 where s: "recover_scan (length (wal_file w)) (length pre) w = (out1, w1)"
      by (cases "recover_scan (length (wal_file w)) (length pre) w")
    have r: "io_result (\<lambda>x. x = None) out1" "\<exists>calls. w1 = w\<lparr>wal_calls := calls\<rparr>"
      using recover_scan_torn [OF t(1) _ t(2) s] Nil.prems(4) t(3) by auto
    obtain out2 w2 where tr: "truncate_to (length pre) w1 = (out2, w2)"
      by (cases "truncate_to (length pre) w1")
    show ?thesis
      using Nil.prems(4,5) False s r tr truncate_to_result [OF tr]
      by (cases out1; cases out2) (auto simp: recover_loop.simps returnP_def)
  qed
next
  case (Cons r rs)
  obtain out1 w1 where s: "recover_scan (length (wal_file w)) (length pre) w = (out1, w1)"
    by (cases "recover_scan (length (wal_file w)) (length pre) w")
  have v: "record_valid r" and l: "wal_lsn r = lsn + 1" using Cons.prems by auto
  have r: "io_result (\<lambda>x. x = Some (r, record_size r)) out1" "\<exists>calls. w1 = w\<lparr>wal_calls := calls\<rparr>"
    using recover_scan_record [OF v _ s] Cons.prems(4) by auto
  have lt: "length pre < length (wal_file w)"
    using Cons.prems(4) record_size_bounds [OF v] by auto
  show ?case
  proof (cases out1)
    case (Returned x)
    then have x: "x = Some (r, record_size r)" using r by simp
    have fl: "wal_file w1 = (pre @ record_bytes r) @ journal_bytes rs @ tail"
      "wal_file w1 = wal_file w" "wal_open w1 = wal_open w"
      using r(2) Cons.prems(4) by auto
    have loop: "recover_loop callback (length (wal_file w1)) (length (pre @ record_bytes r))
        (wal_lsn r) (callback s r) w1 = (out, w')"
      using Cons.prems(5) lt s Returned x l fl(2) by (subst (asm) recover_loop.simps) simp
    have run: "list_all record_valid rs" "lsn_run (wal_lsn r) rs" using Cons.prems(1,2) by auto
    show ?thesis
      using Cons.IH [OF run Cons.prems(3) fl(1) loop] fl(3) l by (cases out) (auto simp: add.assoc)
  next
    case (Threw e)
    then show ?thesis using r s lt Cons.prems(5) by (subst (asm) recover_loop.simps) auto
  next
    case Crashed
    then show ?thesis using r s lt Cons.prems(5) by (subst (asm) recover_loop.simps) auto
  qed
qed

lemma recover_loop_undisturbed:
  assumes "list_all record_valid rs" and "lsn_run lsn rs" and "torn_tail tail"
    and "wal_file w = pre @ journal_bytes rs @ tail" and "length pre + length (journal_bytes rs) < 2 ^ 63"
    and "undisturbed (2 * length rs + 2 + n) w"
  shows "\<exists>x w'. recover_loop callback (length (wal_file w)) (length pre) lsn s w = (Returned x, w') \<and>
    undisturbed n w'"
  using assms
proof (induction rs arbitrary: lsn pre s w)
  case Nil
  show ?case
  proof (cases "tail = []")
    case True
    then show ?thesis using Nil by (auto simp: recover_loop.simps undisturbed_def)
  next
    case False
    obtain r j where t: "record_valid r" "j < record_size r" "tail = take j (record_bytes r)"
      using Nil.prems(3) by (auto simp: torn_tail_def)
    have u: "undisturbed (Suc (Suc n)) w" using Nil.prems(6) by simp
    from recover_scan_torn_undisturbed [OF u t(1), of "length pre" j] Nil.prems(4) t(2,3) obtain calls where
      c: "recover_scan (length (wal_file w)) (length pre) w = (Returned None, w\<lparr>wal_calls := calls\<rparr>)"
      "undisturbed (Suc n) (w\<lparr>wal_calls := calls\<rparr>)" by auto
    from truncate_to_undisturbed [OF c(2), of "length pre"] Nil.prems(5) obtain w' where
      "truncate_to (length pre) (w\<lparr>wal_calls := calls\<rparr>) = (Returned (), w')" "undisturbed n w'" by auto
    then show ?thesis
      using Nil.prems(4) False c(1) by (subst recover_loop.simps) (simp add: returnP_def)
  qed
next
  case (Cons r rs)
  have v: "record_valid r" and l: "wal_lsn r = lsn + 1" using Cons.prems by auto
  have u: "undisturbed (Suc (Suc (2 * length rs + 2 + n))) w" using Cons.prems(6) by simp
  from recover_scan_record_undisturbed [OF u v, of "length pre"] Cons.prems(4) obtain calls where
    c: "recover_scan (length (wal_file w)) (length pre) w =
        (Returned (Some (r, record_size r)), w\<lparr>wal_calls := calls\<rparr>)"
      "undisturbed (2 * length rs + 2 + n) (w\<lparr>wal_calls := calls\<rparr>)" by auto
  have lt: "length pre < length (wal_file w)"
    using Cons.prems(4) record_size_bounds [OF v] by auto
  have run: "list_all record_valid rs" "lsn_run (wal_lsn r) rs" using Cons.prems(1,2) by auto
  have fl: "wal_file (w\<lparr>wal_calls := calls\<rparr>) = (pre @ record_bytes r) @ journal_bytes rs @ tail"
    using Cons.prems(4) by simp
  show ?case
    using Cons.IH [OF run Cons.prems(3) fl _ c(2), of "callback s r"] Cons.prems(5) lt c(1) l
    by (subst recover_loop.simps) simp
qed

section \<open>Each operation on the log\<close>

lemma wal_recover_result:
  assumes "wal_open w" and "list_all record_valid rs" and "lsn_run 0 rs" and "torn_tail tail"
    and "wal_file w = journal_bytes rs @ tail"
    and "wal_recover callback s w = (out, w')"
  shows "io_result (\<lambda>x. x = foldl callback s rs \<and> wal_file w' = journal_bytes rs \<and>
      wal_last_lsn w' = of_nat (length rs) \<and> wal_durable_lsn w' = of_nat (length rs)) out \<and> wal_open w'"
proof -
  obtain out1 w1 where c1: "plain_call ''stat WAL'' w = (out1, w1)"
    by (cases "plain_call ''stat WAL'' w")
  obtain calls where w1: "w1 = w\<lparr>wal_calls := calls\<rparr>" and o1: "io_result (\<lambda>_. True) out1"
    using plain_call_result [OF c1] by auto
  obtain out2 w2 where c2: "recover_loop callback (length (wal_file w1)) 0 0 s w1 = (out2, w2)"
    by (cases "recover_loop callback (length (wal_file w1)) 0 0 s w1")
  have o2: "io_result (\<lambda>x. x = (of_nat (length rs), foldl callback s rs) \<and>
      wal_file w2 = journal_bytes rs) out2" "wal_open w2"
    using recover_loop_result [OF assms(2-4), of w1 "[]" callback s out2 w2] c2 assms(1,5) w1 by auto
  obtain out3 w3 where c3: "plain_call ''seek WAL append position'' w2 = (out3, w3)"
    by (cases "plain_call ''seek WAL append position'' w2")
  show ?thesis
    using assms(1,6) c1 w1 o1 c2 o2 c3 plain_call_result [OF c3]
    by (cases out1; cases out2; cases out3) (auto simp: wal_recover_def)
qed

lemma wal_recover_undisturbed:
  assumes "wal_open w" and "list_all record_valid rs" and "lsn_run 0 rs" and "torn_tail tail"
    and "wal_file w = journal_bytes rs @ tail" and "length (journal_bytes rs) < 2 ^ 63"
    and "undisturbed (2 * length rs + 4 + n) w"
  shows "\<exists>x w'. wal_recover callback s w = (Returned x, w') \<and> undisturbed n w'"
proof -
  have u: "undisturbed (Suc (2 * length rs + 2 + Suc n)) w" using assms(7) by (simp add: undisturbed_def)
  from plain_call_undisturbed [OF u] obtain c1 where
    c1: "plain_call ''stat WAL'' w = (Returned (), w\<lparr>wal_calls := c1\<rparr>)"
    "undisturbed (2 * length rs + 2 + Suc n) (w\<lparr>wal_calls := c1\<rparr>)" by blast
  from recover_loop_undisturbed [OF assms(2-4) _ _ c1(2), of "[]" callback s] assms(5,6) obtain x w2 where
    c2: "recover_loop callback (length (wal_file (w\<lparr>wal_calls := c1\<rparr>))) 0 0 s (w\<lparr>wal_calls := c1\<rparr>)
      = (Returned x, w2)" "undisturbed (Suc n) w2" by auto
  from plain_call_undisturbed [OF c2(2)] obtain c3 where
    "plain_call ''seek WAL append position'' w2 = (Returned (), w2\<lparr>wal_calls := c3\<rparr>)"
    "undisturbed n (w2\<lparr>wal_calls := c3\<rparr>)" by blast
  then show ?thesis
    using assms(1) c1(1) c2(1) by (cases x) (auto simp: wal_recover_def undisturbed_def)
qed

lemma wal_append_result:
  assumes "wal_append r w = (out, w')" and "wal_open w" and "wal_lsn r = wal_last_lsn w + 1"
    and "record_valid r"
  shows "io_result (\<lambda>_. wal_file w' = wal_file w @ record_bytes r \<and> wal_last_lsn w' = wal_lsn r) out \<and>
    (\<exists>k. wal_file w' = wal_file w @ take k (record_bytes r)) \<and>
    (\<forall>u. out \<noteq> Returned u \<longrightarrow> wal_last_lsn w' = wal_last_lsn w) \<and>
    wal_open w' \<and> wal_synced w' = wal_synced w \<and> wal_durable_lsn w' = wal_durable_lsn w"
proof -
  obtain st written calls where c: "write_calls (wal_calls w) (record_bytes r) = (st, written, calls)"
    by (cases "write_calls (wal_calls w) (record_bytes r)")
  show ?thesis
    using assms c write_calls_prefix [OF c]
    by (cases st) (auto simp: wal_append_def encode_record_valid write_all_def bindP_def
        status_outcome_def)
qed

lemma wal_sync_result:
  assumes "wal_sync w = (out, w')" and "wal_open w"
  shows "io_result (\<lambda>_. wal_synced w' = length (wal_file w) \<and> wal_durable_lsn w' = wal_last_lsn w) out \<and>
    (\<forall>u. out \<noteq> Returned u \<longrightarrow> wal_synced w' = wal_synced w \<and> wal_durable_lsn w' = wal_durable_lsn w) \<and>
    wal_file w' = wal_file w \<and> wal_last_lsn w' = wal_last_lsn w \<and> wal_open w'"
  using assms
  by (auto simp: wal_sync_def status_outcome_def split: prod.splits io_status.splits)

interpretation wal_journal: journal_codec record_valid record_bytes
  "\<lambda>bs r. decode_record bs = Decode_complete r (record_size r)"
  "\<lambda>bs. decode_record bs = Decode_incomplete"
  by unfold_locales (simp_all add: decode_record_bytes decode_record_torn)

lemma some_valid_record:
  "record_valid \<lparr>wal_lsn = 1, wal_operation = wal_put, wal_key = [0], wal_value = []\<rparr>"
  by (simp add: record_valid_iff wal_constants)

lemma torn_tail_Nil: "torn_tail []"
  unfolding torn_tail_def
  using some_valid_record record_size_bounds [OF some_valid_record] by (metis gr_implies_not0 not_gr_zero take_0)

text \<open>What a crash leaves of a journal: its complete records and a torn one.\<close>

lemma crashed_journal:
  assumes "list_all record_valid rs"
  obtains tail where "take n (journal_bytes rs) = journal_bytes (complete_records record_bytes n rs) @ tail"
    and "torn_tail tail"
proof -
  obtain tail where t: "take n (journal_bytes rs) = journal_bytes (complete_records record_bytes n rs) @ tail"
    "tail = [] \<or> (\<exists>r \<in> set rs. \<exists>j < record_size r. tail = take j (record_bytes r))"
    using wal_journal.prefix_split [OF assms, of n] by (auto simp: journal_bytes_def)
  then have "torn_tail tail"
    using assms torn_tail_Nil unfolding torn_tail_def list_all_iff by blast
  then show thesis using t(1) that by blast
qed

lemma lsn_run_take: "lsn_run l rs \<Longrightarrow> lsn_run l (take m rs)"
  by (induction rs arbitrary: l m) (auto simp: take_Cons' )

lemma complete_records_ok:
  assumes "list_all record_valid rs" and "lsn_run l rs"
  shows "list_all record_valid (complete_records record_bytes n rs)"
    and "lsn_run l (complete_records record_bytes n rs)"
proof -
  obtain m where "complete_records record_bytes n rs = take m rs"
    using complete_records_prefix by blast
  then show "list_all record_valid (complete_records record_bytes n rs)"
    "lsn_run l (complete_records record_bytes n rs)"
    using assms lsn_run_take by (auto simp: list_all_iff intro: in_set_takeD)
qed

section \<open>Properties\<close>

text \<open>C26. A valid log record encodes; its encoding decodes to it whatever follows in the file, and any
  proper prefix of the encoding is recognised as incomplete, never as corrupt or as another record.\<close>

theorem wal_record_roundtrip:
  assumes "validation_error r = []"
  shows "\<exists>bs. encode_record r = Inr bs \<and>
    decode_record (bs @ rest) = Decode_complete r (length bs) \<and>
    (\<forall>k < length bs. decode_record (take k bs) = Decode_incomplete)"
proof -
  have "record_valid r" using assms by (simp add: record_valid_def)
  then show ?thesis
    by (simp add: encode_record_valid decode_record_bytes decode_record_torn)
qed

definition sample_record :: WalRecord where
  "sample_record = \<lparr>wal_lsn = 1, wal_operation = wal_put, wal_key = [107], wal_value = [118, 49]\<rparr>"

lemma wal_record_roundtrip_witness:
  "\<exists>bs. encode_record sample_record = Inr bs \<and>
    decode_record (bs @ [0]) = Decode_complete sample_record (length bs) \<and>
    (\<forall>k < length bs. decode_record (take k bs) = Decode_incomplete)"
  by (rule wal_record_roundtrip) (simp add: validation_error_def sample_record_def wal_constants wal_operations)

text \<open>Whatever decodes completely is the one encoding of a valid record.\<close>

theorem wal_decode_canonical:
  assumes "decode_record bs = Decode_complete r n"
  shows "encode_record r = Inr (take n bs) \<and> n \<le> length bs"
  using decode_record_sound [OF assms] by (metis encode_record_valid)

lemma wal_decode_canonical_witness:
  "encode_record sample_record = Inr (take (record_size sample_record) (record_bytes sample_record @ [7])) \<and>
   record_size sample_record \<le> length (record_bytes sample_record @ [7])"
proof (rule wal_decode_canonical)
  have "record_valid sample_record"
    by (simp add: record_valid_iff sample_record_def wal_constants)
  then show "decode_record (record_bytes sample_record @ [7]) =
      Decode_complete sample_record (record_size sample_record)"
    by (rule decode_record_bytes)
qed

text \<open>C7. Recovery after a crash. Of a log file cut at an arbitrary byte, recovery replays exactly the
  records that are complete, in order, cuts off the torn rest, and sets the sequence number after the
  last one. It never reports corruption; it can only fail with an I/O error of the kernel, and when the
  kernel's calls succeed it returns.\<close>

theorem wal_crash_recovery:
  assumes "list_all record_valid rs" and "lsn_run 0 rs"
    and "kept = complete_records record_bytes n rs"
    and "wal_recover callback s (new_wal (take n (journal_bytes rs)) synced calls) = (out, w)"
  shows "io_result (\<lambda>x. x = foldl callback s kept \<and> wal_file w = journal_bytes kept \<and>
      wal_last_lsn w = of_nat (length kept)) out \<and>
    (list_all (ample kMaxWalRecordSize) calls \<and> 2 * length kept + 4 \<le> length calls \<and>
     length (journal_bytes kept) < 2 ^ 63 \<longrightarrow> (\<exists>x. out = Returned x))"
proof -
  let ?w = "new_wal (take n (journal_bytes rs)) synced calls"
  obtain tail where t: "wal_file ?w = journal_bytes kept @ tail" "torn_tail tail"
    using crashed_journal [OF assms(1), of n] assms(3) by (auto simp: new_wal_def)
  note ok = complete_records_ok [OF assms(1,2), of n, folded assms(3)]
  have o: "wal_open ?w" "wal_calls ?w = calls" by (simp_all add: new_wal_def)
  have "io_result (\<lambda>x. x = foldl callback s kept \<and> wal_file w = journal_bytes kept \<and>
      wal_last_lsn w = of_nat (length kept)) out"
    using wal_recover_result [OF o(1) ok t(2,1) assms(4)] by (cases out) auto
  moreover have "\<exists>x. out = Returned x"
    if "list_all (ample kMaxWalRecordSize) calls" "2 * length kept + 4 \<le> length calls"
      "length (journal_bytes kept) < 2 ^ 63"
    using wal_recover_undisturbed [OF o(1) ok t(2,1), of 0 callback s] that assms(4) o(2)
    by (auto simp: undisturbed_def)
  ultimately show ?thesis by blast
qed

lemma wal_crash_recovery_witness:
  "io_result (\<lambda>x. x = [sample_record] \<and>
      wal_file (snd (wal_recover (\<lambda>s r. s @ [r]) []
        (new_wal (take (record_size sample_record + 3) (journal_bytes [sample_record, sample_record\<lparr>wal_lsn := 2\<rparr>]))
          0 (replicate 6 (Sys_ok 2000000))))) = journal_bytes [sample_record])
    (fst (wal_recover (\<lambda>s r. s @ [r]) []
        (new_wal (take (record_size sample_record + 3) (journal_bytes [sample_record, sample_record\<lparr>wal_lsn := 2\<rparr>]))
          0 (replicate 6 (Sys_ok 2000000)))))"
proof -
  let ?rs = "[sample_record, sample_record\<lparr>wal_lsn := 2\<rparr>]"
  let ?w = "new_wal (take (record_size sample_record + 3) (journal_bytes ?rs)) 0 (replicate 6 (Sys_ok 2000000))"
  have v: "list_all record_valid ?rs"
    by (simp add: record_valid_iff sample_record_def wal_constants)
  have l: "lsn_run 0 ?rs" by (simp add: sample_record_def)
  have k: "[sample_record] = complete_records record_bytes (record_size sample_record + 3) ?rs"
    by (simp add: sample_record_def record_size_def kWalHeaderSize_def)
  show ?thesis
    using wal_crash_recovery [OF v l k, of "\<lambda>s r. s @ [r]" "[]" 0 "replicate 6 (Sys_ok 2000000)"
        "fst (wal_recover (\<lambda>s r. s @ [r]) [] ?w)" "snd (wal_recover (\<lambda>s r. s @ [r]) [] ?w)"]
    by (cases "fst (wal_recover (\<lambda>s r. s @ [r]) [] ?w)") auto
qed

end
