(* ===== verification/Kv_Store.thy ===== *)
theory Kv_Store
  imports Wal "HOL-Library.AList"
begin

text \<open>
  The durable key-value engine (\<^verbatim>\<open>src/storage/kv_store.cpp\<close>): clients enqueue mutations, one writer
  thread takes batches, appends them to the log, synchronises according to the durability mode, applies
  them to the table and completes the clients' promises. The threads interleave at the granularity of
  the critical sections: \<open>kv_step\<close> is the step relation. A promise is identified by the mutation's
  ticket; \<open>kv_completions\<close> lists the promises fulfilled so far. The test hooks and the flush observer of
  the options are absent, as they are by default.
\<close>

section \<open>Definitions\<close>

datatype DurabilityMode = dm_async | dm_sync | dm_group_commit

record StorageOptions =
  so_wal_path :: string
  so_durability :: DurabilityMode
  so_max_batch_entries :: nat
  so_max_batch_bytes :: nat
  so_max_batch_wait :: int
  so_max_pending_entries :: nat
  so_max_pending_bytes :: nat

definition validate_key :: "bytes \<Rightarrow> (storage_exn, unit) result" where
  "validate_key key =
     (if key = [] \<or> length key > kWalMaxKeySize
      then Inl (Std_exn (invalid_argument ''key length is outside the supported range''))
      else Inr ())"

definition validate_options :: "StorageOptions \<Rightarrow> (storage_exn, unit) result" where
  "validate_options opts =
     (if so_wal_path opts = []
      then Inl (Std_exn (invalid_argument ''WAL path cannot be empty''))
      else if so_max_batch_entries opts = 0 \<or> so_max_batch_bytes opts = 0 \<or>
        so_max_batch_wait opts < 0 \<or> so_max_pending_entries opts = 0 \<or>
        so_max_pending_bytes opts < kMaxWalRecordSize
      then Inl (Std_exn (invalid_argument ''storage queue and batch limits must be positive''))
      else Inr ())"

record MutationResult =
  mr_lsn :: "64 word"
  mr_existed :: bool

record PendingMutation =
  pm_ticket :: nat
  pm_operation :: WalOperation
  pm_key :: bytes
  pm_value :: bytes
  pm_bytes :: nat

type_synonym kv_table = "(bytes \<times> bytes) list"

type_synonym completion = "PendingMutation \<times> (storage_exn, MutationResult) result"

record KvStore =
  kv_options :: StorageOptions
  kv_wal :: Wal
  kv_values :: kv_table
  kv_visible_lsn :: "64 word"
  kv_queue :: "PendingMutation list"
  kv_pending_entries :: nat
  kv_pending_bytes :: nat
  kv_accepting :: bool
  kv_stopping :: bool
  kv_joined :: bool
  kv_failure :: "storage_exn option"
  kv_writer_done :: bool
  kv_crashed :: bool
  kv_next_ticket :: nat
  kv_completions :: "completion list"

subsection \<open>Applying records\<close>

text \<open>\<^verbatim>\<open>apply_recovered\<close>, and the same assignment in \<^verbatim>\<open>process_batch\<close>.\<close>

definition apply_record :: "kv_table \<Rightarrow> WalRecord \<Rightarrow> kv_table" where
  "apply_record vals r =
     (if wal_operation r = wal_put then AList.update (wal_key r) (wal_value r) vals
      else AList.delete (wal_key r) vals)"

definition contains_key :: "kv_table \<Rightarrow> bytes \<Rightarrow> bool" where
  "contains_key vals k \<longleftrightarrow> map_of vals k \<noteq> None"

fun apply_batch :: "kv_table \<Rightarrow> WalRecord list \<Rightarrow> MutationResult list \<times> kv_table" where
  "apply_batch vals [] = ([], vals)"
| "apply_batch vals (r # rs) =
     (case apply_batch (apply_record vals r) rs of
        (results, vals') \<Rightarrow>
          (\<lparr>mr_lsn = wal_lsn r, mr_existed = contains_key vals (wal_key r)\<rparr> # results, vals'))"

subsection \<open>Clients\<close>

text \<open>The predicate \<^verbatim>\<open>submit\<close> waits for.\<close>

definition submit_ready :: "nat \<Rightarrow> KvStore \<Rightarrow> bool" where
  "submit_ready n s \<longleftrightarrow>
     \<not> kv_accepting s \<or> kv_failure s \<noteq> None \<or>
     kv_pending_entries s < so_max_pending_entries (kv_options s) \<and>
     add64 (kv_pending_bytes s) n \<le> so_max_pending_bytes (kv_options s)"

text \<open>\<^verbatim>\<open>submit\<close> from the end of its wait to the enqueued mutation; the caller's future is the ticket.\<close>

definition submit :: "WalOperation \<Rightarrow> bytes \<Rightarrow> bytes \<Rightarrow> KvStore \<Rightarrow>
    (storage_exn, nat) result \<times> KvStore" where
  "submit operation key val s =
     (let n = kWalHeaderSize + length key + length val in
      case kv_failure s of
        Some e \<Rightarrow> (Inl e, s)
      | None \<Rightarrow>
          if \<not> kv_accepting s
          then (Inl (Std_exn (runtime_error ''storage engine is closed'')), s)
          else (Inr (kv_next_ticket s),
            s\<lparr>kv_queue := kv_queue s @
                [\<lparr>pm_ticket = kv_next_ticket s, pm_operation = operation, pm_key = key,
                  pm_value = val, pm_bytes = n\<rparr>],
              kv_pending_entries := kv_pending_entries s + 1,
              kv_pending_bytes := add64 (kv_pending_bytes s) n,
              kv_next_ticket := kv_next_ticket s + 1\<rparr>))"

definition kv_put :: "bytes \<Rightarrow> bytes \<Rightarrow> KvStore \<Rightarrow> (storage_exn, nat) result \<times> KvStore" where
  "kv_put key val s =
     (case validate_key key of
        Inl e \<Rightarrow> (Inl e, s)
      | Inr _ \<Rightarrow>
          if length val > kWalMaxValueSize
          then (Inl (Std_exn (invalid_argument ''value exceeds the maximum size'')), s)
          else submit wal_put key val s)"

definition kv_erase :: "bytes \<Rightarrow> KvStore \<Rightarrow> (storage_exn, nat) result \<times> KvStore" where
  "kv_erase key s =
     (case validate_key key of
        Inl e \<Rightarrow> (Inl e, s)
      | Inr _ \<Rightarrow> submit wal_delete_key key [] s)"

definition kv_get :: "bytes \<Rightarrow> KvStore \<Rightarrow> (storage_exn, bytes option) result" where
  "kv_get key s =
     (case validate_key key of
        Inl e \<Rightarrow> Inl e
      | Inr _ \<Rightarrow> Inr (map_of (kv_values s) key))"

definition kv_size :: "KvStore \<Rightarrow> nat" where
  "kv_size s = length (kv_values s)"

text \<open>\<^verbatim>\<open>close\<close>: the request, and the end of the call once the writer has been joined.\<close>

definition kv_close_request :: "KvStore \<Rightarrow> KvStore" where
  "kv_close_request s =
     (if kv_joined s then s else s\<lparr>kv_accepting := False, kv_stopping := True\<rparr>)"

definition kv_close_join :: "KvStore \<Rightarrow> KvStore" where
  "kv_close_join s = s\<lparr>kv_joined := True\<rparr>"

subsection \<open>The writer thread\<close>

definition entry_limit :: "StorageOptions \<Rightarrow> nat" where
  "entry_limit opts =
     (if so_durability opts = dm_group_commit then so_max_batch_entries opts else 1)"

text \<open>The loop of \<^verbatim>\<open>take_batch\<close> over the queue: the batch and the queue that is left.\<close>

fun take_loop :: "StorageOptions \<Rightarrow> PendingMutation list \<Rightarrow> nat \<Rightarrow> PendingMutation list \<Rightarrow>
    PendingMutation list \<times> PendingMutation list" where
  "take_loop opts batch batch_bytes [] = (batch, [])"
| "take_loop opts batch batch_bytes (p # queue) =
     (if length batch < entry_limit opts \<and>
        \<not> (batch \<noteq> [] \<and> add64 batch_bytes (pm_bytes p) > so_max_batch_bytes opts)
      then take_loop opts (batch @ [p]) (add64 batch_bytes (pm_bytes p)) queue
      else (batch, p # queue))"

definition take_batch :: "KvStore \<Rightarrow> PendingMutation list \<times> KvStore" where
  "take_batch s =
     (case take_loop (kv_options s) [] 0 (kv_queue s) of
        (batch, queue) \<Rightarrow>
          (batch, s\<lparr>kv_queue := queue,
             kv_pending_bytes := foldl (\<lambda>n p. sub64 n (pm_bytes p)) (kv_pending_bytes s) batch,
             kv_pending_entries := foldl (\<lambda>n p. sub64 n 1) (kv_pending_entries s) batch\<rparr>))"

definition record_of :: "64 word \<Rightarrow> PendingMutation \<Rightarrow> WalRecord" where
  "record_of lsn p = \<lparr>wal_lsn = lsn, wal_operation = pm_operation p, wal_key = pm_key p,
     wal_value = pm_value p\<rparr>"

fun append_batch :: "64 word \<Rightarrow> PendingMutation list \<Rightarrow> WalRecord list wal_prog" where
  "append_batch next_lsn [] = returnP []"
| "append_batch next_lsn (p # batch) =
     bindP (wal_append (record_of next_lsn p)) (\<lambda>_.
     bindP (append_batch (next_lsn + 1) batch) (\<lambda>records.
     returnP (record_of next_lsn p # records)))"

definition persist_batch :: "StorageOptions \<Rightarrow> PendingMutation list \<Rightarrow> WalRecord list wal_prog" where
  "persist_batch opts batch w =
     bindP (append_batch (wal_last_lsn w + 1) batch) (\<lambda>records.
       if so_durability opts \<noteq> dm_async then bindP wal_sync (\<lambda>_. returnP records)
       else returnP records) w"

definition process_batch :: "PendingMutation list \<Rightarrow> KvStore \<Rightarrow> (storage_exn, unit) outcome \<times> KvStore" where
  "process_batch batch s =
     (case persist_batch (kv_options s) batch (kv_wal s) of
        (Threw e, w) \<Rightarrow> (Threw e, s\<lparr>kv_wal := w\<rparr>)
      | (Crashed, w) \<Rightarrow> (Crashed, s\<lparr>kv_wal := w\<rparr>)
      | (Returned records, w) \<Rightarrow>
          (case apply_batch (kv_values s) records of
             (results, vals) \<Rightarrow>
               (Returned (), s\<lparr>kv_wal := w, kv_values := vals,
                  kv_visible_lsn := wal_lsn (last records),
                  kv_completions := kv_completions s @ zip batch (map Inr results)\<rparr>)))"

text \<open>\<^verbatim>\<open>fail\<close>: every promise of the batch and of the queue gets the error.\<close>

definition kv_fail :: "storage_exn \<Rightarrow> PendingMutation list \<Rightarrow> KvStore \<Rightarrow> KvStore" where
  "kv_fail e batch s =
     s\<lparr>kv_completions := kv_completions s @ map (\<lambda>p. (p, Inl e)) (batch @ kv_queue s),
       kv_failure := Some e, kv_accepting := False, kv_stopping := True, kv_queue := [],
       kv_pending_entries := 0, kv_pending_bytes := 0\<rparr>"

text \<open>One iteration of \<^verbatim>\<open>writer_loop\<close>, enabled when \<^verbatim>\<open>take_batch\<close>'s wait is over.\<close>

definition writer_ready :: "KvStore \<Rightarrow> bool" where
  "writer_ready s \<longleftrightarrow> \<not> kv_writer_done s \<and> (kv_stopping s \<or> kv_queue s \<noteq> [])"

definition writer_iteration :: "KvStore \<Rightarrow> KvStore" where
  "writer_iteration s =
     (case take_batch s of
        (batch, s) \<Rightarrow>
          if batch = []
          then (if kv_stopping s
                then s\<lparr>kv_wal := wal_close (kv_wal s), kv_writer_done := True\<rparr> else s)
          else case process_batch batch s of
              (Returned _, s) \<Rightarrow> s
            | (Threw e, s) \<Rightarrow>
                let s = kv_fail e batch s
                in s\<lparr>kv_wal := wal_close (kv_wal s), kv_writer_done := True\<rparr>
            | (Crashed, s) \<Rightarrow> s\<lparr>kv_crashed := True\<rparr>)"

subsection \<open>Opening and the step relation\<close>

text \<open>\<^verbatim>\<open>KvStore::open\<close> with the constructor: the file is scanned once by \<^verbatim>\<open>Wal::open\<close> and replayed once.\<close>

definition kv_open :: "StorageOptions \<Rightarrow> bytes \<Rightarrow> nat \<Rightarrow> sys list \<Rightarrow> (storage_exn, KvStore) outcome" where
  "kv_open opts contents synced calls =
     (case validate_options opts of
        Inl e \<Rightarrow> Threw e
      | Inr _ \<Rightarrow>
          (case bindP (\<lambda>_. wal_open_file contents synced calls)
                 (\<lambda>_. wal_recover apply_record []) (new_wal contents synced calls) of
             (Threw e, w) \<Rightarrow> Threw e
           | (Crashed, w) \<Rightarrow> Crashed
           | (Returned vals, w) \<Rightarrow>
               Returned \<lparr>kv_options = opts, kv_wal = w, kv_values = vals,
                 kv_visible_lsn = wal_last_lsn w, kv_queue = [], kv_pending_entries = 0,
                 kv_pending_bytes = 0, kv_accepting = True, kv_stopping = False,
                 kv_joined = False, kv_failure = None, kv_writer_done = False,
                 kv_crashed = False, kv_next_ticket = 0, kv_completions = []\<rparr>))"

inductive kv_step :: "KvStore \<Rightarrow> KvStore \<Rightarrow> bool" where
  step_put: "\<not> kv_crashed s \<Longrightarrow> submit_ready (kWalHeaderSize + length key + length val) s \<Longrightarrow>
    kv_step s (snd (kv_put key val s))"
| step_erase: "\<not> kv_crashed s \<Longrightarrow> submit_ready (kWalHeaderSize + length key) s \<Longrightarrow>
    kv_step s (snd (kv_erase key s))"
| step_writer: "\<not> kv_crashed s \<Longrightarrow> writer_ready s \<Longrightarrow> kv_step s (writer_iteration s)"
| step_close: "\<not> kv_crashed s \<Longrightarrow> kv_step s (kv_close_request s)"
| step_join: "\<not> kv_crashed s \<Longrightarrow> kv_writer_done s \<Longrightarrow> kv_step s (kv_close_join s)"

end
