(* ===== verification/Kv_Store_Proofs.thy ===== *)
theory Kv_Store_Proofs
  imports Kv_Store "HOL-Library.Multiset"
begin

text \<open>
  Correctness of the key-value engine of \<open>Kv_Store\<close>: what a batch leaves in the log when it succeeds,
  fails or is interrupted; the invariant tying table, log and promises together over \<open>kv_step\<close>;
  reopening after a crash; the table as a map; and the accounting of the queue.
\<close>

section \<open>The log under a batch\<close>

definition mutation_ok :: "PendingMutation \<Rightarrow> bool" where
  "mutation_ok p \<longleftrightarrow>
     pm_key p \<noteq> [] \<and> length (pm_key p) \<le> kWalMaxKeySize \<and> length (pm_value p) \<le> kWalMaxValueSize \<and>
     (pm_operation p = wal_put \<or> pm_operation p = wal_delete_key \<and> pm_value p = []) \<and>
     pm_bytes p = kWalHeaderSize + length (pm_key p) + length (pm_value p)"

lemma record_of_valid: "mutation_ok p \<Longrightarrow> record_valid (record_of lsn p) \<longleftrightarrow> lsn \<noteq> 0"
  by (auto simp: record_valid_iff record_of_def mutation_ok_def)

lemma record_of_simps [simp]:
  "wal_lsn (record_of lsn p) = lsn" "wal_operation (record_of lsn p) = pm_operation p"
  "wal_key (record_of lsn p) = pm_key p" "wal_value (record_of lsn p) = pm_value p"
  by (simp_all add: record_of_def)

lemma lsn_run_append:
  "lsn_run l (rs @ rs') \<longleftrightarrow> lsn_run l rs \<and> lsn_run (l + of_nat (length rs)) rs'"
proof (induction rs arbitrary: l)
  case (Cons r rs)
  show ?case using Cons [of "l + 1"] by (cases "wal_lsn r = l + 1") (simp_all add: add.assoc)
qed simp

text \<open>A log object whose file holds exactly the records \<open>rs\<close>.\<close>

definition clean_log :: "Wal \<Rightarrow> WalRecord list \<Rightarrow> bool" where
  "clean_log w rs \<longleftrightarrow> wal_open w \<and> list_all record_valid rs \<and> lsn_run 0 rs \<and>
     wal_file w = journal_bytes rs \<and> wal_last_lsn w = of_nat (length rs)"

text \<open>A log file that a failed or interrupted batch left behind.\<close>

definition torn_log :: "Wal \<Rightarrow> WalRecord list \<Rightarrow> bool" where
  "torn_log w rs \<longleftrightarrow> (\<exists>rs' tail. list_all record_valid (rs @ rs') \<and> lsn_run 0 (rs @ rs') \<and>
     torn_tail tail \<and> wal_file w = journal_bytes (rs @ rs') @ tail)"

lemma clean_log_torn: "clean_log w rs \<Longrightarrow> wal_file w' = wal_file w \<Longrightarrow> torn_log w' rs"
  using torn_tail_Nil unfolding clean_log_def torn_log_def
  by (intro exI [of _ "[]"]) auto

lemma torn_log_prefix: "torn_log w (rs @ rs1) \<Longrightarrow> torn_log w rs"
  by (auto simp: torn_log_def) (metis append_assoc journal_bytes_simps(3) list_all_append)

lemma wal_append_clean:
  assumes "clean_log w rs" and "mutation_ok p"
    and "wal_append (record_of (wal_last_lsn w + 1) p) w = (out, w')"
  shows "wal_synced w' = wal_synced w \<and> length (wal_file w) \<le> length (wal_file w')"
    and "out = Returned u \<Longrightarrow> clean_log w' (rs @ [record_of (wal_last_lsn w + 1) p])"
    and "(\<And>u. out \<noteq> Returned u) \<Longrightarrow> torn_log w' rs"
proof -
  define r where "r = record_of (wal_last_lsn w + 1) p"
  have r: "wal_lsn r = wal_last_lsn w + 1" by (simp add: r_def)
  have c: "wal_open w" "list_all record_valid rs" "lsn_run 0 rs" "wal_file w = journal_bytes rs"
    "wal_last_lsn w = of_nat (length rs)" using assms(1) by (simp_all add: clean_log_def)
  have *: "wal_synced w' = wal_synced w \<and> length (wal_file w) \<le> length (wal_file w') \<and> (out = Returned u \<longrightarrow> clean_log w' (rs @ [r])) \<and>
      ((\<forall>u. out \<noteq> Returned u) \<longrightarrow> torn_log w' rs)"
  proof (cases "record_valid r")
    case True
    note res = wal_append_result [OF assms(3) [folded r_def] c(1) r True]
    obtain k where k: "wal_file w' = wal_file w @ take k (record_bytes r)" using res by blast
    have run: "list_all record_valid (rs @ [r])" "lsn_run 0 (rs @ [r])"
      using c(2,3,5) True r by (simp_all add: lsn_run_append)
    have "torn_log w' rs"
    proof (cases "k < record_size r")
      case True
      then have "torn_tail (take k (record_bytes r))"
        using \<open>record_valid r\<close> by (auto simp: torn_tail_def)
      then show ?thesis
        using k c unfolding torn_log_def
        by (intro exI [of _ "[]"] exI [of _ "take k (record_bytes r)"]) auto
    next
      case False
      then show ?thesis
        using k c run torn_tail_Nil unfolding torn_log_def
        by (intro exI [of _ "[r]"] exI [of _ "[]"]) auto
    qed
    moreover have "clean_log w' (rs @ [r])" if "out = Returned u"
      using res that run c(4,5) r by (auto simp: clean_log_def)
    ultimately show ?thesis using res k by auto
  next
    case False
    then have "validation_error r \<noteq> []" by (simp add: record_valid_def)
    then have "w' = w \<and> (\<exists>e. out = Threw e)"
      using assms(3) [folded r_def] c(1) r by (auto simp: wal_append_def encode_record_def)
    then show ?thesis using clean_log_torn [OF assms(1)] by auto
  qed
  then show "wal_synced w' = wal_synced w \<and> length (wal_file w) \<le> length (wal_file w')"
    and "out = Returned u \<Longrightarrow> clean_log w' (rs @ [record_of (wal_last_lsn w + 1) p])"
    and "(\<And>u. out \<noteq> Returned u) \<Longrightarrow> torn_log w' rs"
    by (auto simp: r_def)
qed

text \<open>The records of a batch that starts after \<open>n\<close> records.\<close>

fun batch_records :: "nat \<Rightarrow> PendingMutation list \<Rightarrow> WalRecord list" where
  "batch_records n [] = []"
| "batch_records n (p # ps) = record_of (of_nat (Suc n)) p # batch_records (Suc n) ps"

lemma append_batch_result:
  assumes "clean_log w rs" and "list_all mutation_ok batch"
    and "append_batch (wal_last_lsn w + 1) batch w = (out, w')"
  shows "wal_synced w' = wal_synced w \<and> length (wal_file w) \<le> length (wal_file w') \<and>
    (case out of
       Returned records \<Rightarrow> records = batch_records (length rs) batch \<and> clean_log w' (rs @ records)
     | _ \<Rightarrow> torn_log w' rs)"
  using assms
proof (induction batch arbitrary: w rs out w')
  case Nil
  then show ?case by (auto simp: returnP_def)
next
  case (Cons p batch)
  let ?r = "record_of (wal_last_lsn w + 1) p"
  have l: "wal_last_lsn w = of_nat (length rs)" using Cons.prems(1) by (simp add: clean_log_def)
  obtain out1 w1 where a: "wal_append ?r w = (out1, w1)" by (cases "wal_append ?r w")
  have ok: "mutation_ok p" "list_all mutation_ok batch" using Cons.prems(2) by auto
  note a1 = wal_append_clean [OF Cons.prems(1) ok(1) a]
  show ?case
  proof (cases out1)
    case (Returned u)
    then have c1: "clean_log w1 (rs @ [?r])" using a1(2) by blast
    then have l1: "wal_last_lsn w1 = wal_last_lsn w + 1" using l by (simp add: clean_log_def)
    obtain out2 w2 where b: "append_batch (wal_last_lsn w1 + 1) batch w1 = (out2, w2)"
      by (cases "append_batch (wal_last_lsn w1 + 1) batch w1")
    note IH = Cons.IH [OF c1 ok(2) b]
    have "torn_log w2 (rs @ [?r]) \<Longrightarrow> torn_log w2 rs" by (rule torn_log_prefix)
    moreover have "wal_synced w' = wal_synced w2 \<and> w' = w2 \<and> (case out2 of
        Returned records \<Rightarrow> out = Returned (?r # records) | Threw e \<Rightarrow> out = Threw e | Crashed \<Rightarrow> out = Crashed)"
      using Cons.prems(3) a b Returned l1 by (cases out2) (auto simp: returnP_def)
    ultimately show ?thesis
      using IH a1(1) l by (cases out2) (auto simp: add.commute)
  next
    case (Threw e)
    then show ?thesis using Cons.prems(3) a a1(1,3) by auto
  next
    case Crashed
    then show ?thesis using Cons.prems(3) a a1(1,3) by auto
  qed
qed

lemma persist_batch_result:
  assumes "clean_log w rs" and "list_all mutation_ok batch"
    and "persist_batch opts batch w = (out, w')" and "wal_synced w \<le> length (wal_file w)"
  shows "wal_synced w \<le> wal_synced w' \<and> wal_synced w' \<le> length (wal_file w') \<and>
    (case out of
       Returned records \<Rightarrow> records = batch_records (length rs) batch \<and> clean_log w' (rs @ records) \<and>
         (so_durability opts \<noteq> dm_async \<longrightarrow> wal_synced w' = length (wal_file w'))
     | _ \<Rightarrow> torn_log w' rs)"
proof -
  obtain out1 w1 where a: "append_batch (wal_last_lsn w + 1) batch w = (out1, w1)"
    by (cases "append_batch (wal_last_lsn w + 1) batch w")
  note r1 = append_batch_result [OF assms(1,2) a]
  obtain out2 w2 where s: "wal_sync w1 = (out2, w2)" by (cases "wal_sync w1")
  show ?thesis
  proof (cases out1)
    case (Returned records)
    then have c1: "clean_log w1 (rs @ records)" "records = batch_records (length rs) batch"
      "wal_synced w1 = wal_synced w" using r1 by auto
    have o: "wal_open w1" using c1 by (simp add: clean_log_def)
    note r2 = wal_sync_result [OF s o]
    have "length (wal_file w) \<le> length (wal_file w1)"
      using c1 assms(1) by (simp add: clean_log_def)
    moreover have "clean_log w2 (rs @ records)" using r2 c1 by (simp add: clean_log_def)
    moreover have "torn_log w2 rs"
      using clean_log_torn [OF c1(1), of w2] r2 torn_log_prefix by blast
    ultimately show ?thesis
      using assms(3,4) a Returned s r2 c1
      by (cases out2; cases "so_durability opts = dm_async") (auto simp: persist_batch_def returnP_def)
  next
    case (Threw e)
    then show ?thesis using assms(3,4) a r1 by (auto simp: persist_batch_def)
  next
    case Crashed
    then show ?thesis using assms(3,4) a r1 by (auto simp: persist_batch_def)
  qed
qed

section \<open>The invariant of the engine\<close>

definition table_at :: "WalRecord list \<Rightarrow> nat \<Rightarrow> kv_table" where
  "table_at rs i = foldl apply_record [] (take i rs)"

text \<open>
  A fulfilled promise tells the truth about the log: its sequence number is the position of the
  client's mutation, \<open>existed\<close> is whether the key was present just before it, and unless the mode is
  asynchronous the record is under the last completed synchronisation.
\<close>

definition completion_ok :: "KvStore \<Rightarrow> WalRecord list \<Rightarrow> nat \<Rightarrow> completion \<Rightarrow> bool" where
  "completion_ok s rs v c =
     (case c of
        (p, Inl e) \<Rightarrow> True
      | (p, Inr res) \<Rightarrow>
          (\<exists>i < v. mr_lsn res = of_nat (Suc i) \<and> rs ! i = record_of (mr_lsn res) p \<and>
            mr_existed res = contains_key (table_at rs i) (pm_key p) \<and>
            (so_durability (kv_options s) \<noteq> dm_async \<longrightarrow>
               length (journal_bytes (take (Suc i) rs)) \<le> wal_synced (kv_wal s))))"

definition kv_holds :: "KvStore \<Rightarrow> WalRecord list \<Rightarrow> nat \<Rightarrow> bytes \<Rightarrow> bool" where
  "kv_holds s rs v tail \<longleftrightarrow>
     list_all record_valid rs \<and> lsn_run 0 rs \<and> torn_tail tail \<and>
     wal_file (kv_wal s) = journal_bytes rs @ tail \<and> v \<le> length rs \<and>
     kv_visible_lsn s = of_nat v \<and> kv_values s = table_at rs v \<and>
     wal_synced (kv_wal s) \<le> length (wal_file (kv_wal s)) \<and>
     list_all (completion_ok s rs v) (kv_completions s)"

definition kv_running :: "KvStore \<Rightarrow> bool" where
  "kv_running s \<longleftrightarrow> \<not> kv_crashed s \<and> \<not> kv_writer_done s"

definition kv_inv :: "KvStore \<Rightarrow> bool" where
  "kv_inv s \<longleftrightarrow>
     list_all mutation_ok (kv_queue s) \<and>
     (if kv_running s then \<exists>rs. kv_holds s rs (length rs) [] \<and> clean_log (kv_wal s) rs
      else \<exists>rs v tail. kv_holds s rs v tail)"

lemma batch_records_nth:
  "i < length batch \<Longrightarrow> batch_records n batch ! i = record_of (of_nat (Suc (n + i))) (batch ! i)"
  by (induction batch arbitrary: n i) (auto simp: nth_Cons' gr0_conv_Suc)

lemma length_batch_records [simp]: "length (batch_records n batch) = length batch"
  by (induction batch arbitrary: n) auto

lemma apply_batch_result:
  "apply_batch vals rs = (results, vals') \<Longrightarrow>
   vals' = foldl apply_record vals rs \<and> length results = length rs \<and>
   (\<forall>i < length rs. results ! i = \<lparr>mr_lsn = wal_lsn (rs ! i),
      mr_existed = contains_key (foldl apply_record vals (take i rs)) (wal_key (rs ! i))\<rparr>)"
proof (induction rs arbitrary: vals results vals')
  case (Cons r rs)
  obtain results1 vals1 where a: "apply_batch (apply_record vals r) rs = (results1, vals1)"
    by (cases "apply_batch (apply_record vals r) rs")
  show ?case using Cons.prems a Cons.IH [OF a] by (auto simp: nth_Cons split: nat.splits)
qed simp

lemma length_journal_take: "length (journal_bytes (take n rs)) \<le> length (journal_bytes rs)"
  by (metis append_take_drop_id journal_bytes_simps(3) le_add1 length_append)

lemma table_at_append:
  "i \<le> length rs \<Longrightarrow> table_at (rs @ rs') i = table_at rs i"
  by (simp add: table_at_def)

lemma table_at_more:
  "table_at (rs @ rs') (length rs + i) = foldl apply_record (table_at rs (length rs)) (take i rs')"
  by (simp add: table_at_def)

lemma completion_ok_extend:
  assumes "completion_ok s rs v c" and "v \<le> length rs" and "v \<le> v'"
    and "kv_options s' = kv_options s" and "wal_synced (kv_wal s) \<le> wal_synced (kv_wal s')"
  shows "completion_ok s' (rs @ rs') v' c"
proof (cases "snd c")
  case (Inl e)
  then show ?thesis by (cases c) (simp add: completion_ok_def)
next
  case (Inr res)
  obtain p where c: "c = (p, Inr res)" using Inr by (cases c) auto
  obtain i where i: "i < v" "mr_lsn res = of_nat (Suc i)" "rs ! i = record_of (mr_lsn res) p"
    "mr_existed res = contains_key (table_at rs i) (pm_key p)"
    "so_durability (kv_options s) \<noteq> dm_async \<longrightarrow>
       length (journal_bytes (take (Suc i) rs)) \<le> wal_synced (kv_wal s)"
    using assms(1) unfolding completion_ok_def c prod.case sum.case by blast
  have "take (Suc i) (rs @ rs') = take (Suc i) rs" using i(1) assms(2) by simp
  then show ?thesis
    using i assms(2-5) unfolding completion_ok_def c
    by (auto simp: nth_append table_at_append intro!: exI [of _ i])
qed

lemma torn_log_holds:
  assumes "kv_holds s rs (length rs) []" and "torn_log (kv_wal s') rs"
    and "kv_options s' = kv_options s" "kv_values s' = kv_values s"
      "kv_visible_lsn s' = kv_visible_lsn s"
    and "wal_synced (kv_wal s) \<le> wal_synced (kv_wal s')"
      "wal_synced (kv_wal s') \<le> length (wal_file (kv_wal s'))"
    and "kv_completions s' = kv_completions s @ map (\<lambda>p. (p, Inl e)) ps"
  shows "\<exists>rs v tail. kv_holds s' rs v tail"
proof -
  obtain rs' tail where t: "list_all record_valid (rs @ rs')" "lsn_run 0 (rs @ rs')" "torn_tail tail"
    "wal_file (kv_wal s') = journal_bytes (rs @ rs') @ tail"
    using assms(2) by (auto simp: torn_log_def)
  have "list_all (completion_ok s' (rs @ rs') (length rs)) (kv_completions s)"
    using assms(1) completion_ok_extend [OF _ _ _ assms(3,6)] by (auto simp: kv_holds_def list_all_iff)
  then have "kv_holds s' (rs @ rs') (length rs) tail"
    using t assms by (auto simp: kv_holds_def table_at_append list_all_iff completion_ok_def)
  then show ?thesis by blast
qed

lemma take_loop_split:
  "take_loop opts batch n queue = (batch', queue') \<Longrightarrow> \<exists>t. batch' = batch @ t \<and> queue = t @ queue'"
proof (induction opts batch n queue rule: take_loop.induct)
  case (2 opts batch n p queue)
  then show ?case
    by (cases "length batch < entry_limit opts \<and>
      \<not> (batch \<noteq> [] \<and> add64 n (pm_bytes p) > so_max_batch_bytes opts)") auto
qed simp

lemma take_batch_split:
  assumes "take_batch s = (batch, s')"
  shows "kv_queue s = batch @ kv_queue s'"
    and "\<exists>q b n. s' = s\<lparr>kv_queue := q, kv_pending_bytes := b, kv_pending_entries := n\<rparr>"
  using assms take_loop_split [of "kv_options s" "[]" 0 "kv_queue s"]
  by (auto simp: take_batch_def split: prod.splits)

lemma process_batch_inv:
  assumes "kv_holds s rs (length rs) []" and "clean_log (kv_wal s) rs" and "kv_running s"
    and "list_all mutation_ok batch" and "batch \<noteq> []"
    and "process_batch batch s = (Returned u, s')"
  shows "\<exists>rs. kv_holds s' rs (length rs) [] \<and> clean_log (kv_wal s') rs \<and> kv_running s' \<and>
    kv_queue s' = kv_queue s"
proof -
  define recs where "recs = batch_records (length rs) batch"
  have syn: "wal_synced (kv_wal s) \<le> length (wal_file (kv_wal s))"
    using assms(1) by (auto simp: kv_holds_def)
  obtain out w where p: "persist_batch (kv_options s) batch (kv_wal s) = (out, w)"
    by (cases "persist_batch (kv_options s) batch (kv_wal s)")
  obtain results vals where a: "apply_batch (kv_values s) recs = (results, vals)"
    by (cases "apply_batch (kv_values s) recs")
  note ar = apply_batch_result [OF a]
  note pr = persist_batch_result [OF assms(2,4) p syn, folded recs_def]
  have out: "out = Returned recs" using assms(6) p pr by (cases out) (auto simp: process_batch_def)
  have s': "s' = s\<lparr>kv_wal := w, kv_values := vals, kv_visible_lsn := wal_lsn (last recs),
      kv_completions := kv_completions s @ zip batch (map Inr results)\<rparr>"
    using assms(6) p a out by (auto simp: process_batch_def)
  have c: "clean_log w (rs @ recs)" "wal_synced (kv_wal s) \<le> wal_synced w"
    "so_durability (kv_options s) \<noteq> dm_async \<longrightarrow> wal_synced w = length (wal_file w)"
    using pr out by auto
  have vals: "kv_values s = table_at rs (length rs)" using assms(1) by (simp add: kv_holds_def)
  have len: "length recs = length batch" by (simp add: recs_def)
  have last: "wal_lsn (last recs) = of_nat (length (rs @ recs))"
  proof -
    have "last recs = recs ! (length batch - 1)" using len assms(5) by (metis last_conv_nth length_0_conv)
    also have "\<dots> = record_of (of_nat (Suc (length rs + (length batch - 1)))) (batch ! (length batch - 1))"
      unfolding recs_def using assms(5) by (intro batch_records_nth) simp
    also have "Suc (length rs + (length batch - 1)) = length (rs @ recs)"
      using assms(5) len by (cases batch) auto
    finally show ?thesis by simp
  qed
  have old: "list_all (completion_ok s' (rs @ recs) (length (rs @ recs))) (kv_completions s)"
    using assms(1) completion_ok_extend [of s rs "length rs"] c(2)
    by (auto simp: kv_holds_def list_all_iff s')
  have new: "completion_ok s' (rs @ recs) (length (rs @ recs)) (batch ! i, Inr (results ! i))"
    if i: "i < length batch" for i
    using i ar vals len c(1,3) batch_records_nth [OF i, of "length rs", folded recs_def]
    unfolding completion_ok_def prod.case sum.case
    by (intro exI [of _ "length rs + i"])
       (auto simp: s' table_at_more nth_append clean_log_def length_journal_take)
  have "list_all (completion_ok s' (rs @ recs) (length (rs @ recs))) (zip batch (map Inr results))"
    using new ar len by (auto simp: list_all_iff in_set_zip)
  then have "kv_holds s' (rs @ recs) (length (rs @ recs)) []"
    using old c(1) last ar vals torn_tail_Nil pr out
    by (auto simp: kv_holds_def clean_log_def s' table_at_def)
  then show ?thesis using c(1) assms(3) s' by (intro exI [of _ "rs @ recs"]) (auto simp: kv_running_def)
qed

lemma process_batch_stopped:
  assumes "kv_holds s rs (length rs) []" and "clean_log (kv_wal s) rs"
    and "list_all mutation_ok batch" and "process_batch batch s = (out, s')"
    and "\<And>u. out \<noteq> Returned u"
  shows "torn_log (kv_wal s') rs \<and> (\<exists>w. s' = s\<lparr>kv_wal := w\<rparr>) \<and>
    wal_synced (kv_wal s) \<le> wal_synced (kv_wal s') \<and>
    wal_synced (kv_wal s') \<le> length (wal_file (kv_wal s'))"
proof -
  have syn: "wal_synced (kv_wal s) \<le> length (wal_file (kv_wal s))"
    using assms(1) by (auto simp: kv_holds_def)
  obtain out1 w where p: "persist_batch (kv_options s) batch (kv_wal s) = (out1, w)"
    by (cases "persist_batch (kv_options s) batch (kv_wal s)")
  show ?thesis
    using persist_batch_result [OF assms(2,3) p syn] assms(4,5) p
    by (cases out1) (auto simp: process_batch_def split: prod.splits)
qed

lemma kv_holds_cong:
  "kv_wal s' = kv_wal s \<Longrightarrow> kv_options s' = kv_options s \<Longrightarrow> kv_values s' = kv_values s \<Longrightarrow>
   kv_visible_lsn s' = kv_visible_lsn s \<Longrightarrow> kv_completions s' = kv_completions s \<Longrightarrow>
   kv_holds s' = kv_holds s"
  by (intro ext) (simp add: kv_holds_def completion_ok_def [abs_def] cong: list.pred_cong)

lemma kv_holds_close:
  "kv_holds (s\<lparr>kv_wal := wal_close (kv_wal s), kv_writer_done := d\<rparr>) = kv_holds s"
  by (intro ext) (simp add: kv_holds_def completion_ok_def [abs_def] wal_close_def cong: list.pred_cong)

lemma kv_fail_queue: "kv_queue (kv_fail e batch s) = []"
  by (simp add: kv_fail_def)

lemma writer_iteration_inv:
  assumes "kv_inv s" and "kv_running s"
  shows "kv_inv (writer_iteration s)"
proof -
  obtain batch s1 where t: "take_batch s = (batch, s1)" by (cases "take_batch s")
  have q: "kv_queue s = batch @ kv_queue s1" using take_batch_split(1) [OF t] .
  obtain q1 b1 n1 where s1: "s1 = s\<lparr>kv_queue := q1, kv_pending_bytes := b1, kv_pending_entries := n1\<rparr>"
    using take_batch_split(2) [OF t] by blast
  obtain rs where h: "kv_holds s rs (length rs) []" and c: "clean_log (kv_wal s) rs"
    and qs: "list_all mutation_ok (kv_queue s)"
    using assms by (auto simp: kv_inv_def)
  have h1: "kv_holds s1 rs (length rs) []" "clean_log (kv_wal s1) rs" "kv_running s1"
    "list_all mutation_ok batch" "list_all mutation_ok (kv_queue s1)"
    using h c qs q assms(2) kv_holds_cong [of s1 s] by (simp_all add: s1 kv_running_def)
  show ?thesis
  proof (cases "batch = []")
    case True
    then show ?thesis
      using t h1 by (auto simp: writer_iteration_def kv_inv_def kv_running_def kv_holds_close)
  next
    case False
    obtain out s2 where p: "process_batch batch s1 = (out, s2)" by (cases "process_batch batch s1")
    show ?thesis
    proof (cases out)
      case (Returned u)
      then show ?thesis
        using process_batch_inv [OF h1(1-4) False, of u s2] p t False h1(5)
        by (auto simp: writer_iteration_def kv_inv_def)
    next
      case (Threw e)
      have st: "torn_log (kv_wal s2) rs" "\<exists>w. s2 = s1\<lparr>kv_wal := w\<rparr>"
        "wal_synced (kv_wal s1) \<le> wal_synced (kv_wal s2)"
        "wal_synced (kv_wal s2) \<le> length (wal_file (kv_wal s2))"
        using process_batch_stopped [OF h1(1,2,4) p] Threw by auto
      have "\<exists>rs v tail. kv_holds (kv_fail e batch s2) rs v tail"
        using st h1(1) by (intro torn_log_holds [OF h1(1), of _ e "batch @ kv_queue s2"]) (auto simp: kv_fail_def)
      then show ?thesis
        using Threw p t False by (auto simp: writer_iteration_def kv_inv_def kv_running_def Let_def
            kv_holds_close kv_fail_queue)
    next
      case Crashed
      have st: "torn_log (kv_wal s2) rs" "\<exists>w. s2 = s1\<lparr>kv_wal := w\<rparr>"
        "wal_synced (kv_wal s1) \<le> wal_synced (kv_wal s2)"
        "wal_synced (kv_wal s2) \<le> length (wal_file (kv_wal s2))"
        using process_batch_stopped [OF h1(1,2,4) p] Crashed by auto
      have "\<exists>rs v tail. kv_holds (s2\<lparr>kv_crashed := True\<rparr>) rs v tail"
        using st h1(1) by (intro torn_log_holds [OF h1(1), of _ undefined "[]"]) auto
      then show ?thesis
        using Crashed p t False st(2) h1(5) by (auto simp: writer_iteration_def kv_inv_def kv_running_def)
    qed
  qed
qed

lemma submit_inv:
  assumes "kv_inv s" and "mutation_ok \<lparr>pm_ticket = kv_next_ticket s, pm_operation = operation,
      pm_key = key, pm_value = val, pm_bytes = kWalHeaderSize + length key + length val\<rparr>"
  shows "kv_inv (snd (submit operation key val s))"
  using assms kv_holds_cong [of "snd (submit operation key val s)" s]
  by (auto simp: submit_def kv_inv_def kv_running_def Let_def split: option.splits)

lemma kv_put_inv: "kv_inv s \<Longrightarrow> kv_inv (snd (kv_put key val s))"
  by (auto simp: kv_put_def validate_key_def mutation_ok_def intro!: submit_inv)

lemma kv_erase_inv: "kv_inv s \<Longrightarrow> kv_inv (snd (kv_erase key s))"
  by (auto simp: kv_erase_def validate_key_def mutation_ok_def intro!: submit_inv)

lemma kv_close_inv: "kv_inv s \<Longrightarrow> kv_inv (kv_close_request s)" "kv_inv s \<Longrightarrow> kv_inv (kv_close_join s)"
  using kv_holds_cong [of "kv_close_request s" s] kv_holds_cong [of "kv_close_join s" s]
  by (simp_all add: kv_inv_def kv_running_def kv_close_request_def kv_close_join_def split: if_splits)

lemma kv_step_inv: "kv_step s s' \<Longrightarrow> kv_inv s \<Longrightarrow> kv_inv s'"
  by (induction rule: kv_step.induct)
     (auto simp: kv_put_inv kv_erase_inv kv_close_inv writer_ready_def kv_running_def
       intro: writer_iteration_inv)

lemma kv_steps_inv: "kv_step\<^sup>*\<^sup>* s s' \<Longrightarrow> kv_inv s \<Longrightarrow> kv_inv s'"
  by (induction rule: rtranclp_induct) (auto intro: kv_step_inv)

section \<open>Opening\<close>

definition synced_ok :: "Wal \<Rightarrow> bool" where
  "synced_ok w \<longleftrightarrow> wal_synced w \<le> length (wal_file w)"

lemma synced_ok_lsn [simp]: "synced_ok (w\<lparr>wal_last_lsn := a, wal_durable_lsn := b\<rparr>) = synced_ok w"
  by (simp add: synced_ok_def)

lemma bindP_preserves:
  assumes "bindP m f w = (out, w')" and "P w"
    and "\<And>out1 w1. m w = (out1, w1) \<Longrightarrow> P w1"
    and "\<And>x w1. m w = (Returned x, w1) \<Longrightarrow> P w1 \<Longrightarrow> f x w1 = (out, w') \<Longrightarrow> P w'"
  shows "P w'"
  using assms by (auto simp: bindP_def split: prod.splits outcome.splits)

lemma truncate_to_synced: "truncate_to n w = (out, w') \<Longrightarrow> synced_ok w \<Longrightarrow> synced_ok w'"
  by (auto simp: truncate_to_def synced_ok_def split: if_splits prod.splits)

lemma read_at_synced: "read_at off n w = (out, w') \<Longrightarrow> synced_ok w \<Longrightarrow> synced_ok w'"
  using read_at_result [of off n w out w'] by (auto simp: synced_ok_def)

lemma plain_call_synced: "plain_call a w = (out, w') \<Longrightarrow> synced_ok w \<Longrightarrow> synced_ok w'"
  using plain_call_result [of a w out w'] by (auto simp: synced_ok_def)

lemma recover_scan_synced: "recover_scan n off w = (out, w') \<Longrightarrow> synced_ok w \<Longrightarrow> synced_ok w'"
  unfolding recover_scan_def Let_def
  by (auto split: if_splits DecodeResult.splits elim!: bindP_preserves intro: read_at_synced)

lemma recover_loop_synced:
  "recover_loop callback n off lsn s w = (out, w') \<Longrightarrow> synced_ok w \<Longrightarrow> synced_ok w'"
proof (induction callback n off lsn s w arbitrary: out w' rule: recover_loop.induct)
  case (1 callback n off lsn s w)
  show ?case
  proof (cases "off < n")
    case True
    obtain out1 w1 where s: "recover_scan n off w = (out1, w1)" by (cases "recover_scan n off w")
    have s1: "synced_ok w1" using recover_scan_synced [OF s 1(3)] .
    show ?thesis
    proof (cases "\<exists>r k. out1 = Returned (Some (r, k))")
      case some: True
      then obtain r k where out1: "out1 = Returned (Some (r, k))" by blast
      show ?thesis
        using 1(2) True s s1 1(1) [OF True, of "Some (r, k)" w1 "(r, k)" r k] unfolding out1
        by (subst (asm) recover_loop.simps) (auto split: if_splits)
    next
      case False
      then show ?thesis
        using 1(2) True s s1
        by (subst (asm) recover_loop.simps, cases out1)
           (auto simp: returnP_def split: option.splits elim!: bindP_preserves intro: truncate_to_synced)
    qed
  next
    case False
    then show ?thesis using 1 by (simp add: recover_loop.simps)
  qed
qed

lemma wal_recover_synced:
  "wal_recover callback s w = (out, w') \<Longrightarrow> synced_ok w \<Longrightarrow> synced_ok w'"
  unfolding wal_recover_def
  by (auto split: if_splits elim!: bindP_preserves intro: plain_call_synced recover_loop_synced)

text \<open>What a log file can be: complete records in sequence, and possibly one torn record.\<close>

definition log_file :: "bytes \<Rightarrow> WalRecord list \<Rightarrow> bool" where
  "log_file contents rs \<longleftrightarrow> list_all record_valid rs \<and> lsn_run 0 rs \<and>
     (\<exists>tail. torn_tail tail \<and> contents = journal_bytes rs @ tail)"

lemma kv_open_result:
  assumes "log_file contents rs" and "synced \<le> length contents"
  shows "case kv_open opts contents synced calls of
      Returned s \<Rightarrow> kv_inv s \<and> kv_running s \<and> kv_holds s rs (length rs) [] \<and> kv_options s = opts \<and>
        kv_completions s = [] \<and> kv_queue s = []
    | Threw e \<Rightarrow> is_io e \<or> validate_options opts = Inl e
    | Crashed \<Rightarrow> True"
proof -
  obtain tail where f: "list_all record_valid rs" "lsn_run 0 rs" "torn_tail tail"
    "contents = journal_bytes rs @ tail"
    using assms(1) by (auto simp: log_file_def)
  let ?w0 = "\<lambda>calls. new_wal contents synced calls"
  obtain out1 w1 where o1: "wal_open_file contents synced calls = (out1, w1)"
    by (cases "wal_open_file contents synced calls")
  have r1: "io_result (\<lambda>_. wal_open w1 \<and> synced_ok w1 \<and> wal_file w1 = journal_bytes rs) out1"
  proof (cases calls)
    case (Cons c calls1)
    obtain out w where r: "wal_recover (\<lambda>s _. s) () (?w0 calls1) = (out, w)"
      by (cases "wal_recover (\<lambda>s _. s) () (?w0 calls1)")
    have "wal_open (?w0 calls1)" "wal_file (?w0 calls1) = journal_bytes rs @ tail" "synced_ok (?w0 calls1)"
      using f(4) assms(2) by (auto simp: new_wal_def synced_ok_def)
    then show ?thesis
      using wal_recover_result [OF _ f(1-3) _ r] wal_recover_synced [OF r] r o1 Cons
      by (cases out) (auto simp: wal_open_file_def split: sys.splits)
  qed (use o1 in \<open>auto simp: wal_open_file_def\<close>)
  show ?thesis
  proof (cases out1)
    case (Returned u)
    then have w1: "wal_open w1" "synced_ok w1" "wal_file w1 = journal_bytes rs @ []" using r1 by auto
    obtain out2 w2 where o2: "wal_recover apply_record [] w1 = (out2, w2)"
      by (cases "wal_recover apply_record [] w1")
    show ?thesis
      using wal_recover_result [OF w1(1) f(1,2) torn_tail_Nil w1(3) o2] wal_recover_synced [OF o2 w1(2)]
        o1 o2 Returned f(1,2) torn_tail_Nil
      by (cases out2) (auto simp: kv_open_def kv_inv_def kv_running_def kv_holds_def clean_log_def
          table_at_def synced_ok_def split: sum.splits)
  next
    case (Threw e)
    then show ?thesis using r1 o1 by (auto simp: kv_open_def split: sum.splits)
  next
    case Crashed
    then show ?thesis using r1 o1 by (auto simp: kv_open_def split: sum.splits)
  qed
qed

lemma lsn_run_nth: "lsn_run l rs \<Longrightarrow> i < length rs \<Longrightarrow> wal_lsn (rs ! i) = l + of_nat (Suc i)"
proof (induction rs arbitrary: l i)
  case (Cons r rs)
  show ?case
  proof (cases i)
    case (Suc j)
    have "wal_lsn (rs ! j) = wal_lsn r + of_nat (Suc j)"
      using Suc Cons.prems by (intro Cons.IH) auto
    then show ?thesis using Suc Cons.prems(1) by (simp add: add.assoc)
  qed (use Cons in simp)
qed simp

lemma lsn_run_length:
  assumes "list_all record_valid rs" and "lsn_run 0 rs"
  shows "length rs < 2 ^ 64"
proof (rule ccontr)
  assume "\<not> length rs < 2 ^ 64"
  then have i: "2 ^ 64 - 1 < length rs" by (simp add: not_less)
  then have "wal_lsn (rs ! (2 ^ 64 - 1)) = of_nat (Suc (2 ^ 64 - 1))" using lsn_run_nth [OF assms(2)] by simp
  also have "Suc (2 ^ 64 - 1) = (2 ^ 64 :: nat)" by simp
  also have "of_nat (2 ^ 64) = (0 :: 64 word)" by simp
  finally have "wal_lsn (rs ! (2 ^ 64 - 1)) = 0" .
  moreover have "record_valid (rs ! (2 ^ 64 - 1))" using assms(1) i by (simp add: list_all_length)
  ultimately show False by (simp add: record_valid_iff)
qed

text \<open>A file cut at or after its synchronised part still holds every acknowledged record.\<close>

lemma cut_log:
  assumes "kv_holds s rs v tail" and "wal_synced (kv_wal s) \<le> n"
  shows "\<exists>m. log_file (take n (wal_file (kv_wal s))) (take m rs) \<and> m \<le> length rs \<and>
    (\<forall>i < length rs. length (journal_bytes (take (Suc i) rs)) \<le> wal_synced (kv_wal s) \<longrightarrow> i < m)"
proof -
  have h: "list_all record_valid rs" "lsn_run 0 rs" "torn_tail tail"
    "wal_file (kv_wal s) = journal_bytes rs @ tail"
    using assms(1) by (auto simp: kv_holds_def)
  show ?thesis
  proof (cases "length (journal_bytes rs) \<le> n")
    case True
    obtain r j where "record_valid r" "j < record_size r" "tail = take j (record_bytes r)"
      using h(3) by (auto simp: torn_tail_def)
    then have "torn_tail (take (n - length (journal_bytes rs)) tail)"
      unfolding torn_tail_def by (metis min_less_iff_disj take_take)
    then show ?thesis
      using h True by (intro exI [of _ "length rs"]) (auto simp: log_file_def)
  next
    case False
    obtain t where t: "take n (journal_bytes rs) = journal_bytes (complete_records record_bytes n rs) @ t"
      "torn_tail t" using crashed_journal [OF h(1)] by blast
    obtain m0 where "complete_records record_bytes n rs = take m0 rs"
      using complete_records_prefix by blast
    then obtain m where m: "complete_records record_bytes n rs = take m rs" "m \<le> length rs"
      by (metis min.cobounded2 nat_le_linear take_all)
    have "i < m" if "i < length rs" "length (journal_bytes (take (Suc i) rs)) \<le> wal_synced (kv_wal s)" for i
    proof -
      have "length (concat (map record_bytes (take (Suc i) rs))) \<le> n"
        using that(2) assms(2) by (simp add: journal_bytes_def)
      from complete_records_all [OF this, of "drop (Suc i) rs"]
      have "Suc i \<le> length (complete_records record_bytes n rs)" using that(1) by simp
      then show ?thesis using m by simp
    qed
    moreover have "log_file (take n (wal_file (kv_wal s))) (take m rs)"
      using t h False complete_records_ok [OF h(1,2), of n] m(1) by (auto simp: log_file_def)
    ultimately show ?thesis using m(2) by blast
  qed
qed

lemma kv_open_undisturbed:
  assumes "log_file contents rs" and "validate_options opts = Inr ()"
    and "list_all (ample kMaxWalRecordSize) calls" and "4 * length rs + 9 \<le> length calls"
    and "length contents < 2 ^ 63"
  shows "\<exists>s. kv_open opts contents synced calls = Returned s"
proof -
  obtain tail where f: "list_all record_valid rs" "lsn_run 0 rs" "torn_tail tail"
    "contents = journal_bytes rs @ tail"
    using assms(1) by (auto simp: log_file_def)
  obtain c calls1 where c: "calls = c # calls1" using assms(4) by (cases calls) auto
  let ?w = "new_wal contents synced calls1"
  have w: "wal_open ?w" "wal_file ?w = journal_bytes rs @ tail" "length (journal_bytes rs) < 2 ^ 63"
    "undisturbed (2 * length rs + 4 + (2 * length rs + 4)) ?w"
    using f(4) assms(3-5) c by (auto simp: new_wal_def undisturbed_def)
  from wal_recover_undisturbed [OF w(1) f(1-3) w(2-4), of "\<lambda>s _. s" "()"] obtain w1 where
    r1: "wal_recover (\<lambda>s _. s) () ?w = (Returned (), w1)" "undisturbed (2 * length rs + 4 + 0) w1" by auto
  have w1: "wal_open w1" "wal_file w1 = journal_bytes rs @ []"
    using wal_recover_result [OF w(1) f(1-3) w(2) r1(1)] by auto
  from wal_recover_undisturbed [OF w1(1) f(1,2) torn_tail_Nil w1(2) w(3) r1(2), of apply_record "[]"]
  obtain x w2 where "wal_recover apply_record [] w1 = (Returned x, w2)" by blast
  moreover have "wal_open_file contents synced calls = (Returned (), w1)"
    using r1 c assms(3) by (cases c) (auto simp: wal_open_file_def)
  ultimately show ?thesis using assms(2) by (auto simp: kv_open_def)
qed

section \<open>The table as a map\<close>

locale key_value_table =
  fixes empty :: 't
    and update :: "'k \<Rightarrow> 'v \<Rightarrow> 't \<Rightarrow> 't"
    and delete :: "'k \<Rightarrow> 't \<Rightarrow> 't"
    and lookup :: "'t \<Rightarrow> 'k \<Rightarrow> 'v option"
    and count :: "'t \<Rightarrow> nat"
    and inv :: "'t \<Rightarrow> bool"
  assumes inv_empty: "inv empty"
    and inv_update: "inv t \<Longrightarrow> inv (update k v t)"
    and inv_delete: "inv t \<Longrightarrow> inv (delete k t)"
    and lookup_empty: "lookup empty = Map.empty"
    and lookup_update: "inv t \<Longrightarrow> lookup (update k v t) = (lookup t)(k \<mapsto> v)"
    and lookup_delete: "inv t \<Longrightarrow> lookup (delete k t) = (lookup t)(k := None)"
    and count_dom: "inv t \<Longrightarrow> count t = card (dom (lookup t))"
begin

text \<open>Replaying puts (\<open>Some v\<close>) and deletes (\<open>None\<close>) is a sequence of map updates.\<close>

lemma replay_inv:
  "inv t \<Longrightarrow> inv (foldl (\<lambda>t (k, v). case v of Some v \<Rightarrow> update k v t | None \<Rightarrow> delete k t) t ops)"
  by (induction ops arbitrary: t) (auto simp: inv_update inv_delete split: option.split)

lemma replay_lookup:
  "inv t \<Longrightarrow>
   lookup (foldl (\<lambda>t (k, v). case v of Some v \<Rightarrow> update k v t | None \<Rightarrow> delete k t) t ops) =
   foldl (\<lambda>m (k, v). m(k := v)) (lookup t) ops"
  by (induction ops arbitrary: t)
     (auto simp: lookup_update lookup_delete inv_update inv_delete split: option.split)

end

lemma length_eq_card_dom: "distinct (map fst t) \<Longrightarrow> length t = card (dom (map_of t))"
  by (metis distinct_card dom_map_of_conv_image_fst length_map set_map)

interpretation kv_tab: key_value_table "[]" AList.update AList.delete map_of length
  "\<lambda>t. distinct (map fst t)"
  by unfold_locales
     (simp_all add: update_conv' delete_conv' distinct_update distinct_delete length_eq_card_dom)

text \<open>The abstract store: the map that a sequence of log records denotes.\<close>

definition kv_spec :: "WalRecord list \<Rightarrow> bytes \<Rightarrow> bytes option" where
  "kv_spec rs = foldl (\<lambda>m r. m(wal_key r := if wal_operation r = wal_put then Some (wal_value r) else None))
     Map.empty rs"

lemma table_at_spec:
  shows table_at_distinct: "distinct (map fst (table_at rs i))"
    and map_of_table_at: "map_of (table_at rs i) = kv_spec (take i rs)"
proof -
  let ?op = "\<lambda>r. (wal_key r, if wal_operation r = wal_put then Some (wal_value r) else None)"
  have step: "foldl apply_record t rs =
      foldl (\<lambda>t (k, v). case v of Some v \<Rightarrow> AList.update k v t | None \<Rightarrow> AList.delete k t) t (map ?op rs)"
    for t rs by (induction rs arbitrary: t) (auto simp: apply_record_def)
  have spec: "kv_spec rs = foldl (\<lambda>m (k, v). m(k := v)) Map.empty (map ?op rs)" for rs
    by (simp add: kv_spec_def foldl_map)
  show "distinct (map fst (table_at rs i))"
    unfolding table_at_def step by (rule kv_tab.replay_inv) simp
  show "map_of (table_at rs i) = kv_spec (take i rs)"
    unfolding table_at_def step spec by (subst kv_tab.replay_lookup) simp_all
qed

section \<open>Accounting of the queue\<close>


text \<open>Limits small enough for the 64-bit counters.\<close>

definition options_fit :: "StorageOptions \<Rightarrow> bool" where
  "options_fit opts \<longleftrightarrow> validate_options opts = Inr () \<and>
     so_max_pending_entries opts < 2 ^ 64 \<and> so_max_pending_bytes opts + kMaxWalRecordSize < 2 ^ 64"









lemma writer_iteration_options [simp]: "kv_options (writer_iteration s) = kv_options s"
proof -
  obtain batch s1 where t: "take_batch s = (batch, s1)" by (cases "take_batch s")
  have "kv_options s1 = kv_options s" using take_batch_split(2) [OF t] by auto
  moreover have "kv_options (snd (process_batch batch s1)) = kv_options s1"
    by (auto simp: process_batch_def split: prod.splits outcome.splits)
  ultimately show ?thesis
    using t by (auto simp: writer_iteration_def kv_fail_def Let_def split: prod.splits outcome.splits)
qed

lemma kv_step_options: "kv_step s s' \<Longrightarrow> kv_options s' = kv_options s"
  by (induction rule: kv_step.induct)
     (auto simp: kv_put_def kv_erase_def submit_def kv_close_request_def kv_close_join_def Let_def
       split: sum.splits option.splits)



section \<open>Properties\<close>

lemma kv_open_fields:
  "kv_open opts contents synced calls = Returned s \<Longrightarrow>
   kv_pending_entries s = 0 \<and> kv_pending_bytes s = 0 \<and> kv_accepting s \<and> \<not> kv_stopping s \<and>
   kv_failure s = None \<and> \<not> kv_writer_done s \<and> \<not> kv_crashed s \<and> kv_next_ticket s = 0 \<and>
   kv_queue s = [] \<and> kv_completions s = [] \<and> kv_options s = opts"
  by (auto simp: kv_open_def split: sum.splits prod.splits outcome.splits)


lemma kv_reachable_holds:
  assumes "log_file contents rs0" and "synced \<le> length contents"
    and "kv_open opts contents synced calls = Returned s0" and "kv_step\<^sup>*\<^sup>* s0 s"
  obtains rs v tail where "kv_holds s rs v tail" "kv_options s = opts"
proof -
  have "kv_inv s0" "kv_options s0 = opts" using kv_open_result [OF assms(1,2), of opts calls] assms(3) by auto
  moreover have "kv_options s = kv_options s0"
    using assms(4) by (induction rule: rtranclp_induct) (auto dest: kv_step_options)
  ultimately show thesis
    using kv_steps_inv [OF assms(4)] that by (auto simp: kv_inv_def split: if_splits)
qed

text \<open>C6. The engine refines its log. In every state that clients, the writer and \<^verbatim>\<open>close\<close> can reach
  from an opened store, the table denotes the map of the visible prefix of the records in the file, and
  every successful promise carries the position of its mutation in that sequence and whether the key
  existed just before it: the mutations are linearised in log order.\<close>

theorem kv_store_refines_log:
  assumes "log_file contents rs0" and "synced \<le> length contents"
    and "kv_open opts contents synced calls = Returned s0" and "kv_step\<^sup>*\<^sup>* s0 s"
  shows "\<exists>rs v. log_file (wal_file (kv_wal s)) rs \<and> v \<le> length rs \<and> kv_visible_lsn s = of_nat v \<and>
    map_of (kv_values s) = kv_spec (take v rs) \<and> kv_size s = card (dom (kv_spec (take v rs))) \<and>
    (\<forall>p res. (p, Inr res) \<in> set (kv_completions s) \<longrightarrow>
       (\<exists>i < v. mr_lsn res = of_nat (Suc i) \<and> rs ! i = record_of (mr_lsn res) p \<and>
          mr_existed res = (kv_spec (take i rs) (pm_key p) \<noteq> None)))"
proof -
  obtain rs v tail where h: "kv_holds s rs v tail" using kv_reachable_holds [OF assms] by blast
  have "kv_size s = card (dom (kv_spec (take v rs)))"
    using h kv_tab.count_dom [OF table_at_distinct [of rs v]]
    by (simp add: kv_holds_def kv_size_def map_of_table_at)
  moreover have "\<exists>i < v. mr_lsn res = of_nat (Suc i) \<and> rs ! i = record_of (mr_lsn res) p \<and>
      mr_existed res = (kv_spec (take i rs) (pm_key p) \<noteq> None)"
    if "(p, Inr res) \<in> set (kv_completions s)" for p res
  proof -
    have "completion_ok s rs v (p, Inr res)" using h that by (auto simp: kv_holds_def list_all_iff)
    then show ?thesis
      unfolding completion_ok_def prod.case sum.case contains_key_def map_of_table_at by blast
  qed
  ultimately show ?thesis
    using h by (intro exI [of _ rs] exI [of _ v]) (auto simp: kv_holds_def map_of_table_at log_file_def)
qed

definition sample_options :: StorageOptions where
  "sample_options = \<lparr>so_wal_path = ''wal'', so_durability = dm_sync, so_max_batch_entries = 64,
     so_max_batch_bytes = 4194304, so_max_batch_wait = 1000, so_max_pending_entries = 4096,
     so_max_pending_bytes = 67108864\<rparr>"

definition sample_calls :: "sys list" where
  "sample_calls = replicate 20 (Sys_ok 2000000)"

lemma log_file_Nil: "log_file [] []"
  using torn_tail_Nil by (auto simp: log_file_def)

lemma options_fit_sample: "options_fit sample_options"
  by (simp add: options_fit_def sample_options_def validate_options_def wal_constants)

text \<open>A run that opens an empty log, enqueues one put and lets the writer process it.\<close>

lemma sample_run:
  obtains s0 where "kv_open sample_options [] 0 sample_calls = Returned s0"
    and "kv_step\<^sup>*\<^sup>* s0 (writer_iteration (snd (kv_put [107] [118] s0)))"
proof -
  have "list_all (ample kMaxWalRecordSize) sample_calls" "9 \<le> length sample_calls"
    by (simp_all add: sample_calls_def wal_constants list_all_iff)
  then obtain s0 where o: "kv_open sample_options [] 0 sample_calls = Returned s0"
    using kv_open_undisturbed [OF log_file_Nil] options_fit_sample by (fastforce simp: options_fit_def)
  let ?s1 = "snd (kv_put [107] [118] s0)"
  have 1: "kv_step s0 ?s1"
    using kv_open_fields [OF o]
    by (intro step_put) (auto simp: submit_ready_def sample_options_def wal_constants)
  moreover have "kv_step ?s1 (writer_iteration ?s1)"
    using kv_open_fields [OF o]
    by (intro step_writer) (auto simp: kv_put_def validate_key_def submit_def writer_ready_def wal_constants)
  ultimately show thesis using that [OF o] by (meson converse_rtranclp_into_rtranclp r_into_rtranclp)
qed

lemma kv_store_refines_log_witness:
  "\<exists>(s :: KvStore) rs v. log_file (wal_file (kv_wal s)) rs \<and> v \<le> length rs \<and>
     map_of (kv_values s) = kv_spec (take v rs) \<and> kv_options s = sample_options"
proof -
  obtain s0 where o: "kv_open sample_options [] 0 sample_calls = Returned s0"
    and st: "kv_step\<^sup>*\<^sup>* s0 (writer_iteration (snd (kv_put [107] [118] s0)))" by (rule sample_run)
  have "kv_options (writer_iteration (snd (kv_put [107] [118] s0))) = sample_options"
    using kv_open_fields [OF o]
    by (simp add: kv_put_def validate_key_def submit_def Let_def split: option.splits)
  moreover obtain rs v where
    "log_file (wal_file (kv_wal (writer_iteration (snd (kv_put [107] [118] s0))))) rs" "v \<le> length rs"
    "map_of (kv_values (writer_iteration (snd (kv_put [107] [118] s0)))) = kv_spec (take v rs)"
    using kv_store_refines_log [OF log_file_Nil _ o st] by auto
  ultimately show ?thesis by blast
qed

text \<open>C3. Acknowledged writes survive. In the synchronous and group-commit modes, let the machine stop
  in any reachable state, at any system call, and lose any part of the file that no completed
  \<^verbatim>\<open>fdatasync\<close> covers. Then the file holds a sequence of records in which every acknowledged mutation
  stands at its sequence number, and reopening either fails with an I/O error or yields exactly the
  table of that sequence; it returns when the kernel's calls succeed.\<close>

theorem kv_acknowledged_writes_survive:
  assumes "log_file contents rs0" and "synced \<le> length contents"
    and "kv_open opts contents synced calls = Returned s0" and "kv_step\<^sup>*\<^sup>* s0 s"
    and "so_durability opts \<noteq> dm_async" and "wal_synced (kv_wal s) \<le> n"
    and "survived = take n (wal_file (kv_wal s))" and "synced' \<le> length survived"
  shows "\<exists>rs. log_file survived rs \<and>
    (\<forall>p res. (p, Inr res) \<in> set (kv_completions s) \<longrightarrow>
       0 < unat (mr_lsn res) \<and> unat (mr_lsn res) \<le> length rs \<and>
       rs ! (unat (mr_lsn res) - 1) = record_of (mr_lsn res) p) \<and>
    (case kv_open opts survived synced' calls' of
       Returned s' \<Rightarrow> map_of (kv_values s') = kv_spec rs \<and> kv_visible_lsn s' = of_nat (length rs)
     | Threw e \<Rightarrow> is_io e
     | Crashed \<Rightarrow> True) \<and>
    (list_all (ample kMaxWalRecordSize) calls' \<and> 4 * length rs + 9 \<le> length calls' \<and>
     length survived < 2 ^ 63 \<longrightarrow> (\<exists>s'. kv_open opts survived synced' calls' = Returned s'))"
proof -
  obtain rs v tail where h: "kv_holds s rs v tail" and opts: "kv_options s = opts"
    using kv_reachable_holds [OF assms(1-4)] by blast
  obtain m where m: "log_file survived (take m rs)" "m \<le> length rs"
    "\<forall>i < length rs. length (journal_bytes (take (Suc i) rs)) \<le> wal_synced (kv_wal s) \<longrightarrow> i < m"
    using cut_log [OF h assms(6)] assms(7) by blast
  have len: "length rs < 2 ^ 64" using h lsn_run_length by (auto simp: kv_holds_def)
  have acked: "0 < unat (mr_lsn res) \<and> unat (mr_lsn res) \<le> length (take m rs) \<and>
      take m rs ! (unat (mr_lsn res) - 1) = record_of (mr_lsn res) p"
    if "(p, Inr res) \<in> set (kv_completions s)" for p res
  proof -
    have "completion_ok s rs v (p, Inr res)" using h that by (auto simp: kv_holds_def list_all_iff)
    then obtain i where i: "i < v" "mr_lsn res = of_nat (Suc i)" "rs ! i = record_of (mr_lsn res) p"
      "length (journal_bytes (take (Suc i) rs)) \<le> wal_synced (kv_wal s)"
      unfolding completion_ok_def prod.case sum.case using assms(5) opts by blast
    have "i < length rs" using i(1) h by (simp add: kv_holds_def)
    then have "i < m" "unat (mr_lsn res) = Suc i" using m(3) i(2,4) len unat_of_nat64 [of "Suc i"] by auto
    then show ?thesis using i(3) m(2) by simp
  qed
  have valid: "validate_options opts = Inr ()"
    using assms(3) by (auto simp: kv_open_def split: sum.splits)
  have "case kv_open opts survived synced' calls' of
       Returned s' \<Rightarrow> map_of (kv_values s') = kv_spec (take m rs) \<and>
         kv_visible_lsn s' = of_nat (length (take m rs))
     | Threw e \<Rightarrow> is_io e | Crashed \<Rightarrow> True"
    using kv_open_result [OF m(1) assms(8), of opts calls'] valid
    by (auto simp: kv_holds_def map_of_table_at min_absorb2 [OF m(2)] split: outcome.splits)
  then show ?thesis
    using m(1) acked kv_open_undisturbed [OF m(1) valid] by (intro exI [of _ "take m rs"]) auto
qed

lemma kv_acknowledged_writes_survive_witness:
  "\<exists>(s :: KvStore) rs. log_file (take (wal_synced (kv_wal s)) (wal_file (kv_wal s))) rs \<and>
     kv_options s = sample_options \<and>
     (\<forall>p res. (p, Inr res) \<in> set (kv_completions s) \<longrightarrow>
       0 < unat (mr_lsn res) \<and> unat (mr_lsn res) \<le> length rs \<and>
       rs ! (unat (mr_lsn res) - 1) = record_of (mr_lsn res) p)"
proof -
  obtain s0 where o: "kv_open sample_options [] 0 sample_calls = Returned s0"
    and st: "kv_step\<^sup>*\<^sup>* s0 (writer_iteration (snd (kv_put [107] [118] s0)))" by (rule sample_run)
  have "kv_options (writer_iteration (snd (kv_put [107] [118] s0))) = sample_options"
    using kv_open_fields [OF o]
    by (simp add: kv_put_def validate_key_def submit_def Let_def split: option.splits)
  moreover have "so_durability sample_options \<noteq> dm_async" by (simp add: sample_options_def)
  ultimately show ?thesis
    using kv_acknowledged_writes_survive [OF log_file_Nil _ o st _ order_refl refl, of 0 "[]"]
    by (intro exI [of _ "writer_iteration (snd (kv_put [107] [118] s0))"]) fastforce
qed



end
