(* ===== verification/Raft_Types.thy ===== *)
theory Raft_Types
  imports Prelude "HOL-Library.Stream" "HOL-Library.AList"
begin

text \<open>
  The data of the Raft core (\<^verbatim>\<open>src/raft/types.h\<close> and the members of \<^verbatim>\<open>RaftNode::Impl\<close> in
  \<^verbatim>\<open>src/raft/raft_node.cpp\<close>). Terms, log indexes, node and RPC identifiers and logical times are
  64-bit unsigned integers in the code; here they are natural numbers, and the additions that can wrap
  are written with \<open>add64\<close>. The pseudo-random generator is a parameter, the stream of its raw draws.
\<close>

section \<open>Values and messages\<close>

type_synonym NodeId = nat
type_synonym Term = nat
type_synonym LogIndex = nat
type_synonym LogicalTime = nat
type_synonym RpcId = nat

datatype Role = Follower | Candidate | Leader

text \<open>
  The enum has an 8-bit underlying type and is filled by casts from stored and received bytes, so it
  has values besides its two names.
\<close>

datatype EntryKind = Command_entry | No_op | Unknown_kind byte

fun kind_byte :: "EntryKind \<Rightarrow> byte" where
  "kind_byte Command_entry = 0"
| "kind_byte No_op = 1"
| "kind_byte (Unknown_kind b) = b"

definition byte_kind :: "byte \<Rightarrow> EntryKind" where
  "byte_kind b = (if b = 0 then Command_entry else if b = 1 then No_op else Unknown_kind b)"

record LogEntry =
  e_index :: LogIndex
  e_term :: Term
  e_kind :: EntryKind
  e_command :: bytes

record StateMachineSnapshot =
  s_index :: LogIndex
  s_term :: Term
  s_state :: bytes

record RequestVote =
  rv_term :: Term
  rv_candidate_id :: NodeId
  rv_last_log_index :: LogIndex
  rv_last_log_term :: Term

record RequestVoteResponse =
  rvr_term :: Term
  rvr_vote_granted :: bool

record AppendEntries =
  ae_term :: Term
  ae_leader_id :: NodeId
  ae_previous_log_index :: LogIndex
  ae_previous_log_term :: Term
  ae_entries :: "LogEntry list"
  ae_leader_commit :: LogIndex
  ae_rpc_id :: RpcId

record AppendEntriesResponse =
  aer_term :: Term
  aer_success :: bool
  aer_match_index :: LogIndex
  aer_reject_hint :: LogIndex
  aer_rpc_id :: RpcId

record InstallSnapshot =
  is_term :: Term
  is_leader_id :: NodeId
  is_last_included_index :: LogIndex
  is_last_included_term :: Term
  is_total_size :: nat
  is_offset :: nat
  is_data :: bytes
  is_done :: bool
  is_rpc_id :: RpcId

record InstallSnapshotResponse =
  isr_term :: Term
  isr_success :: bool
  isr_last_included_index :: LogIndex
  isr_next_offset :: nat
  isr_rpc_id :: RpcId

datatype Message =
    Msg_RequestVote RequestVote
  | Msg_RequestVoteResponse RequestVoteResponse
  | Msg_AppendEntries AppendEntries
  | Msg_AppendEntriesResponse AppendEntriesResponse
  | Msg_InstallSnapshot InstallSnapshot
  | Msg_InstallSnapshotResponse InstallSnapshotResponse

datatype Action =
    SendMessage NodeId Message
  | PersistHardState Term "NodeId option"
  | PersistLog LogIndex "LogEntry list"
  | PersistSnapshot StateMachineSnapshot
  | RoleChanged Role Role Term "NodeId option"
  | CommitAdvanced LogIndex LogIndex
  | ApplyEntry LogEntry
  | ApplySnapshot StateMachineSnapshot
  | ProposalRejected "NodeId option"

type_synonym Actions = "Action list"

section \<open>The node\<close>

record RpcRange =
  rr_rpc_id :: RpcId
  rr_last_index :: LogIndex

record SnapshotRpcRange =
  sr_rpc_id :: RpcId
  sr_snapshot_index :: LogIndex
  sr_offset :: nat
  sr_end :: nat

record PeerProgress =
  pp_next_index :: LogIndex
  pp_match_index :: LogIndex
  pp_newest_rpc_id :: RpcId
  pp_newest_rpc_last_index :: LogIndex
  pp_recent_rpcs :: "RpcRange list"
  pp_snapshot_index :: LogIndex
  pp_snapshot_offset :: nat
  pp_recent_snapshot_rpcs :: "SnapshotRpcRange list"

record RaftConfig =
  cfg_self_id :: NodeId
  cfg_cluster_id :: nat
  cfg_voters :: "NodeId list"
  cfg_election_timeout_min :: LogicalTime
  cfg_election_timeout_max :: LogicalTime
  cfg_heartbeat_interval :: LogicalTime
  cfg_max_append_entries :: nat
  cfg_max_append_bytes :: nat

record RaftPersistentState =
  ps_current_term :: Term
  ps_voted_for :: "NodeId option"
  ps_snapshot :: "StateMachineSnapshot option"
  ps_log :: "LogEntry list"

record IncomingSnapshot =
  in_leader_id :: NodeId
  in_last_included_index :: LogIndex
  in_last_included_term :: Term
  in_total_size :: nat
  in_bytes :: bytes

record RaftNode =
  rn_config :: RaftConfig
  rn_role :: Role
  rn_current_term :: Term
  rn_voted_for :: "NodeId option"
  rn_leader_id :: "NodeId option"
  rn_durable_snapshot :: "StateMachineSnapshot option"
  rn_log :: "LogEntry list"
  rn_commit_index :: LogIndex
  rn_last_applied :: LogIndex
  rn_now :: LogicalTime
  rn_election_deadline :: LogicalTime
  rn_heartbeat_deadline :: LogicalTime
  rn_random :: "nat stream"
  rn_votes_received :: "NodeId list"
  rn_peer_progress :: "(NodeId \<times> PeerProgress) list"
  rn_incoming_snapshot :: "IncomingSnapshot option"
  rn_next_rpc_id :: RpcId
  rn_actions :: Actions

text \<open>The views \<^verbatim>\<open>RaftSnapshot\<close> and \<^verbatim>\<open>RaftStatus\<close> that a node hands out.\<close>

record RaftSnapshot =
  rs_self_id :: NodeId
  rs_role :: Role
  rs_current_term :: Term
  rs_voted_for :: "NodeId option"
  rs_leader_id :: "NodeId option"
  rs_durable_snapshot :: "StateMachineSnapshot option"
  rs_log :: "LogEntry list"
  rs_commit_index :: LogIndex
  rs_last_applied :: LogIndex
  rs_now :: LogicalTime
  rs_election_deadline :: LogicalTime
  rs_heartbeat_deadline :: LogicalTime

record RaftStatus =
  st_self_id :: NodeId
  st_role :: Role
  st_current_term :: Term
  st_leader_id :: "NodeId option"
  st_commit_index :: LogIndex
  st_last_applied :: LogIndex
  st_last_log_index :: LogIndex
  st_retained_log_records :: nat

fun message_term :: "Message \<Rightarrow> Term" where
  "message_term (Msg_RequestVote m) = rv_term m"
| "message_term (Msg_RequestVoteResponse m) = rvr_term m"
| "message_term (Msg_AppendEntries m) = ae_term m"
| "message_term (Msg_AppendEntriesResponse m) = aer_term m"
| "message_term (Msg_InstallSnapshot m) = is_term m"
| "message_term (Msg_InstallSnapshotResponse m) = isr_term m"

end
