(* ===== verification/Raft_Node.thy ===== *)
theory Raft_Node
  imports Raft_Types
begin

text \<open>
  The Raft core, \<^verbatim>\<open>RaftNode\<close> and \<^verbatim>\<open>RaftNode::Impl\<close> of \<^verbatim>\<open>src/raft/raft_node.cpp\<close>: one definition per
  member function. A member function that can throw maps the node to a result, an exception or the
  node afterwards; the actions it emits are collected in \<open>rn_actions\<close> as in the code.
\<close>

type_synonym raft_op = "RaftNode \<Rightarrow> (std_exn, RaftNode) result"

definition kMaximumTrackedRpcsPerPeer :: nat where "kMaximumTrackedRpcsPerPeer = 64"
definition kSnapshotChunkSize :: nat where "kSnapshotChunkSize = 1024 * 1024"

section \<open>Validation\<close>

fun voters_valid :: "NodeId list \<Rightarrow> NodeId list \<Rightarrow> bool" where
  "voters_valid unique [] \<longleftrightarrow> True"
| "voters_valid unique (voter # voters) \<longleftrightarrow>
     voter \<noteq> 0 \<and> voter \<notin> set unique \<and> voters_valid (voter # unique) voters"

definition validate_raft_config :: "RaftConfig \<Rightarrow> (std_exn, unit) result" where
  "validate_raft_config config =
     (if cfg_voters config = [] \<or> length (cfg_voters config) > 7 \<or>
         length (cfg_voters config) mod 2 = 0
      then Inl (invalid_argument ''Raft requires 1, 3, 5, or 7 voters'')
      else if \<not> voters_valid [] (cfg_voters config)
      then Inl (invalid_argument ''Raft voter IDs must be unique and nonzero'')
      else if cfg_self_id config \<notin> set (cfg_voters config)
      then Inl (invalid_argument ''Raft membership must contain self ID'')
      else if cfg_election_timeout_min config = 0 \<or>
        cfg_election_timeout_max config < cfg_election_timeout_min config
      then Inl (invalid_argument ''invalid Raft election timeout range'')
      else if cfg_heartbeat_interval config = 0 \<or>
        cfg_heartbeat_interval config \<ge> cfg_election_timeout_min config
      then Inl (invalid_argument ''heartbeat interval must be below minimum election timeout'')
      else if cfg_max_append_entries config = 0 \<or> cfg_max_append_bytes config < 24
      then Inl (invalid_argument ''invalid AppendEntries batch limits'')
      else Inr ())"

definition saturating_add :: "LogicalTime \<Rightarrow> LogicalTime \<Rightarrow> LogicalTime" where
  "saturating_add left right = (if right > u64_max - left then u64_max else left + right)"

text \<open>The loop over the entries of a persistent log.\<close>

fun persistent_log_valid :: "Term \<Rightarrow> LogIndex \<Rightarrow> Term \<Rightarrow> LogEntry list \<Rightarrow> bool" where
  "persistent_log_valid current_term expected_index previous_term [] \<longleftrightarrow> True"
| "persistent_log_valid current_term expected_index previous_term (entry # entries) \<longleftrightarrow>
     e_index entry = expected_index \<and> e_term entry \<noteq> 0 \<and> previous_term \<le> e_term entry \<and>
     e_term entry \<le> current_term \<and>
     persistent_log_valid current_term (add64 expected_index 1) (e_term entry) entries"

definition snapshot_index :: "StateMachineSnapshot option \<Rightarrow> LogIndex" where
  "snapshot_index s = (case s of None \<Rightarrow> 0 | Some snap \<Rightarrow> s_index snap)"

definition snapshot_term :: "StateMachineSnapshot option \<Rightarrow> Term" where
  "snapshot_term s = (case s of None \<Rightarrow> 0 | Some snap \<Rightarrow> s_term snap)"

definition validate_persistent_state ::
    "RaftConfig \<Rightarrow> RaftPersistentState \<Rightarrow> (std_exn, unit) result" where
  "validate_persistent_state config persistent =
     (if ps_current_term persistent = 0 \<and> ps_voted_for persistent \<noteq> None
      then Inl (invalid_argument ''term-zero persistent state cannot have a vote'')
      else if \<exists>v \<in> set_option (ps_voted_for persistent). v \<notin> set (cfg_voters config)
      then Inl (invalid_argument ''persistent Raft vote refers to a non-voter'')
      else let base_index = snapshot_index (ps_snapshot persistent);
               previous_term = snapshot_term (ps_snapshot persistent)
        in if ps_snapshot persistent \<noteq> None \<and>
             (base_index = 0 \<or> previous_term = 0 \<or> base_index = u64_max \<or>
              previous_term > ps_current_term persistent)
           then Inl (invalid_argument ''persistent Raft snapshot is invalid'')
           else if \<not> persistent_log_valid (ps_current_term persistent) (add64 base_index 1)
             previous_term (ps_log persistent)
           then Inl (invalid_argument ''persistent Raft log is invalid'')
           else Inr ())"

section \<open>Accessors\<close>

definition push_action :: "Action \<Rightarrow> RaftNode \<Rightarrow> RaftNode" where
  "push_action a n = n\<lparr>rn_actions := rn_actions n @ [a]\<rparr>"

abbreviation self_id :: "RaftNode \<Rightarrow> NodeId" where
  "self_id n \<equiv> cfg_self_id (rn_config n)"

definition quorum :: "RaftNode \<Rightarrow> nat" where
  "quorum n = length (cfg_voters (rn_config n)) div 2 + 1"

definition is_voter :: "NodeId \<Rightarrow> RaftNode \<Rightarrow> bool" where
  "is_voter node_id n \<longleftrightarrow> node_id \<in> set (cfg_voters (rn_config n))"

definition last_log_index :: "RaftNode \<Rightarrow> LogIndex" where
  "last_log_index n = e_index (last (rn_log n))"

definition last_log_term :: "RaftNode \<Rightarrow> Term" where
  "last_log_term n = e_term (last (rn_log n))"

definition base_index :: "RaftNode \<Rightarrow> LogIndex" where
  "base_index n = e_index (hd (rn_log n))"

text \<open>\<^verbatim>\<open>entry_at\<close>; the second error is that of \<^verbatim>\<open>std::vector::at\<close>.\<close>

definition entry_at :: "LogIndex \<Rightarrow> RaftNode \<Rightarrow> (std_exn, LogEntry) result" where
  "entry_at index n =
     (if index < base_index n \<or> index > last_log_index n
      then Inl (out_of_range ''Raft log index is outside retained range'')
      else if index - base_index n \<ge> length (rn_log n)
      then Inl (out_of_range ''vector::at'')
      else Inr (rn_log n ! (index - base_index n)))"

subsection \<open>The run-time invariant check\<close>

text \<open>The loop over adjacent entries, with the index the current entry must have.\<close>

fun log_ordered :: "Term \<Rightarrow> LogIndex \<Rightarrow> LogEntry list \<Rightarrow> bool" where
  "log_ordered current_term expected [] \<longleftrightarrow> True"
| "log_ordered current_term expected [previous] \<longleftrightarrow> True"
| "log_ordered current_term expected (previous # current # entries) \<longleftrightarrow>
     e_index current = expected \<and> e_term previous \<le> e_term current \<and> e_term current \<le> current_term \<and>
     log_ordered current_term (add64 expected 1) (current # entries)"

definition progress_in_bounds :: "RaftNode \<Rightarrow> NodeId \<Rightarrow> PeerProgress \<Rightarrow> bool" where
  "progress_in_bounds n peer p \<longleftrightarrow>
     peer \<noteq> self_id n \<and> is_voter peer n \<and> pp_match_index p \<le> last_log_index n \<and>
     add64 (pp_match_index p) 1 \<le> pp_next_index p \<and>
     pp_next_index p \<le> add64 (last_log_index n) 1 \<and>
     pp_newest_rpc_last_index p \<le> last_log_index n \<and>
     length (pp_recent_rpcs p) \<le> kMaximumTrackedRpcsPerPeer"

definition snapshot_progress_in_bounds :: "RaftNode \<Rightarrow> PeerProgress \<Rightarrow> bool" where
  "snapshot_progress_in_bounds n p \<longleftrightarrow>
     (pp_snapshot_index p \<noteq> 0 \<longrightarrow>
        (case rn_durable_snapshot n of
           None \<Rightarrow> False
         | Some snap \<Rightarrow> pp_snapshot_index p = s_index snap \<and>
             pp_snapshot_offset p \<le> length (s_state snap)))"

definition snapshot_rpc_in_bounds :: "RaftNode \<Rightarrow> PeerProgress \<Rightarrow> SnapshotRpcRange \<Rightarrow> bool" where
  "snapshot_rpc_in_bounds n p rpc \<longleftrightarrow>
     sr_rpc_id rpc \<noteq> 0 \<and> sr_rpc_id rpc \<le> pp_newest_rpc_id p \<and>
     sr_snapshot_index rpc = pp_snapshot_index p \<and> sr_offset rpc \<le> sr_end rpc \<and>
     (case rn_durable_snapshot n of
        None \<Rightarrow> False | Some snap \<Rightarrow> sr_end rpc \<le> length (s_state snap))"

definition rpc_in_bounds :: "RaftNode \<Rightarrow> PeerProgress \<Rightarrow> RpcRange \<Rightarrow> bool" where
  "rpc_in_bounds n p rpc \<longleftrightarrow>
     rr_rpc_id rpc \<noteq> 0 \<and> rr_rpc_id rpc \<le> pp_newest_rpc_id p \<and>
     rr_last_index rpc \<le> last_log_index n"

definition verify_progress :: "RaftNode \<Rightarrow> NodeId \<Rightarrow> PeerProgress \<Rightarrow> (std_exn, unit) result" where
  "verify_progress n peer p =
     (if \<not> progress_in_bounds n peer p
      then Inl (logic_error ''Raft leader peer progress is out of bounds'')
      else if \<not> snapshot_progress_in_bounds n p
      then Inl (logic_error ''Raft snapshot replication progress is out of bounds'')
      else if length (pp_recent_snapshot_rpcs p) > kMaximumTrackedRpcsPerPeer
      then Inl (logic_error ''too many tracked snapshot RPCs'')
      else if \<not> list_all (snapshot_rpc_in_bounds n p) (pp_recent_snapshot_rpcs p)
      then Inl (logic_error ''Raft snapshot RPC history is out of bounds'')
      else if \<not> list_all (rpc_in_bounds n p) (pp_recent_rpcs p)
      then Inl (logic_error ''Raft leader RPC history is out of bounds'')
      else Inr ())"

fun verify_all_progress :: "RaftNode \<Rightarrow> (NodeId \<times> PeerProgress) list \<Rightarrow> (std_exn, unit) result" where
  "verify_all_progress n [] = Inr ()"
| "verify_all_progress n ((peer, p) # rest) =
     bindE (verify_progress n peer p) (\<lambda>_. verify_all_progress n rest)"

definition verify_invariants :: raft_op where
  "verify_invariants n =
     (if rn_log n = [] \<or> e_kind (hd (rn_log n)) \<noteq> No_op \<or> e_command (hd (rn_log n)) \<noteq> [] \<or>
         (e_index (hd (rn_log n)) = 0) \<noteq> (e_term (hd (rn_log n)) = 0)
      then Inl (logic_error ''Raft log sentinel is invalid'')
      else if \<exists>snap \<in> set_option (rn_durable_snapshot n).
         s_index snap \<noteq> e_index (hd (rn_log n)) \<or> s_term snap \<noteq> e_term (hd (rn_log n))
      then Inl (logic_error ''Raft snapshot boundary disagrees with log sentinel'')
      else if \<not> log_ordered (rn_current_term n) (add64 (base_index n) 1) (rn_log n)
      then Inl (logic_error ''Raft log is not gap-free with nondecreasing terms'')
      else if rn_commit_index n < base_index n \<or> rn_commit_index n > last_log_index n \<or>
         rn_last_applied n < base_index n \<or> rn_last_applied n > rn_commit_index n
      then Inl (logic_error ''Raft commit/apply indexes are out of bounds'')
      else if \<exists>v \<in> set_option (rn_voted_for n). \<not> is_voter v n
      then Inl (logic_error ''Raft vote refers to a non-voter'')
      else if \<exists>v \<in> set_option (rn_leader_id n). \<not> is_voter v n
      then Inl (logic_error ''Raft leader refers to a non-voter'')
      else if rn_role n = Candidate \<and> rn_voted_for n \<noteq> Some (self_id n)
      then Inl (logic_error ''Raft candidate has not voted for itself'')
      else if rn_role n \<noteq> Leader
      then (if rn_peer_progress n \<noteq> []
            then Inl (logic_error ''non-leader retains leader-only peer progress'') else Inr n)
      else if rn_leader_id n \<noteq> Some (self_id n) \<or>
         length (rn_peer_progress n) + 1 \<noteq> length (cfg_voters (rn_config n))
      then Inl (logic_error ''Raft leader identity or peer progress is incomplete'')
      else bindE (verify_all_progress n (rn_peer_progress n)) (\<lambda>_. Inr n))"

section \<open>Elections\<close>

text \<open>A draw of \<^verbatim>\<open>std::uniform_int_distribution\<close> lies between its bounds.\<close>

definition reset_election_deadline :: "RaftNode \<Rightarrow> RaftNode" where
  "reset_election_deadline n =
     (let lo = cfg_election_timeout_min (rn_config n);
          hi = cfg_election_timeout_max (rn_config n);
          draw = lo + shd (rn_random n) mod (hi - lo + 1)
      in n\<lparr>rn_random := stl (rn_random n),
           rn_election_deadline := saturating_add (rn_now n) draw\<rparr>)"

definition become_follower :: "Term \<Rightarrow> NodeId option \<Rightarrow> RaftNode \<Rightarrow> RaftNode" where
  "become_follower term leader n =
     (let previous_role = rn_role n;
          term_increased = term > rn_current_term n;
          n = (if term_increased then n\<lparr>rn_current_term := term, rn_voted_for := None\<rparr> else n);
          n = n\<lparr>rn_role := Follower, rn_leader_id := leader, rn_votes_received := [],
                rn_peer_progress := []\<rparr>;
          n = reset_election_deadline n;
          n = (if previous_role \<noteq> Follower
               then push_action (RoleChanged previous_role Follower (rn_current_term n)
                 (rn_leader_id n)) n
               else n)
      in if term_increased
         then push_action (PersistHardState (rn_current_term n) (rn_voted_for n)) n else n)"

section \<open>Replication\<close>

text \<open>\<^verbatim>\<open>std::vector::push_back\<close> followed by the removal of the oldest element beyond the limit.\<close>

definition push_tracked :: "'a \<Rightarrow> 'a list \<Rightarrow> 'a list" where
  "push_tracked x xs =
     (let xs = xs @ [x] in if length xs > kMaximumTrackedRpcsPerPeer then tl xs else xs)"

definition set_progress :: "NodeId \<Rightarrow> PeerProgress \<Rightarrow> RaftNode \<Rightarrow> RaftNode" where
  "set_progress peer p n = n\<lparr>rn_peer_progress := AList.update peer p (rn_peer_progress n)\<rparr>"

text \<open>\<^verbatim>\<open>peer_progress.at(peer)\<close>.\<close>

definition progress_at :: "NodeId \<Rightarrow> RaftNode \<Rightarrow> (std_exn, PeerProgress) result" where
  "progress_at peer n =
     (case map_of (rn_peer_progress n) peer of
        None \<Rightarrow> Inl (out_of_range ''unordered_map::at'')
      | Some p \<Rightarrow> Inr p)"

text \<open>The snapshot branch of \<^verbatim>\<open>send_append_entries\<close>.\<close>

definition send_snapshot_chunk ::
    "NodeId \<Rightarrow> StateMachineSnapshot \<Rightarrow> PeerProgress \<Rightarrow> RaftNode \<Rightarrow> RaftNode" where
  "send_snapshot_chunk peer snapshot p n =
     (let p = (if pp_snapshot_index p \<noteq> s_index snapshot
               then p\<lparr>pp_snapshot_index := s_index snapshot, pp_snapshot_offset := 0,
                      pp_recent_snapshot_rpcs := []\<rparr>
               else p);
          p = p\<lparr>pp_snapshot_offset := min (pp_snapshot_offset p) (length (s_state snapshot))\<rparr>;
          remaining = length (s_state snapshot) - pp_snapshot_offset p;
          chunk_size = min remaining kSnapshotChunkSize;
          rpc_id = rn_next_rpc_id n;
          p = p\<lparr>pp_newest_rpc_id := rpc_id,
                pp_recent_snapshot_rpcs := push_tracked
                  \<lparr>sr_rpc_id = rpc_id, sr_snapshot_index = s_index snapshot,
                   sr_offset = pp_snapshot_offset p,
                   sr_end = pp_snapshot_offset p + chunk_size\<rparr>
                  (pp_recent_snapshot_rpcs p)\<rparr>;
          n = set_progress peer p (n\<lparr>rn_next_rpc_id := add64 (rn_next_rpc_id n) 1\<rparr>)
      in push_action (SendMessage peer (Msg_InstallSnapshot
           \<lparr>is_term = rn_current_term n, is_leader_id = self_id n,
            is_last_included_index = s_index snapshot, is_last_included_term = s_term snapshot,
            is_total_size = length (s_state snapshot), is_offset = pp_snapshot_offset p,
            is_data = subspan (pp_snapshot_offset p) chunk_size (s_state snapshot),
            is_done = (chunk_size = remaining), is_rpc_id = rpc_id\<rparr>)) n)"

text \<open>The loop that collects the entries of one batch.\<close>

fun collect_entries :: "RaftConfig \<Rightarrow> LogEntry list \<Rightarrow> LogEntry list \<Rightarrow> nat \<Rightarrow> LogEntry list" where
  "collect_entries config [] entries encoded_bytes = entries"
| "collect_entries config (e # rest) entries encoded_bytes =
     (if length entries < cfg_max_append_entries config \<and>
         \<not> (entries \<noteq> [] \<and>
            (encoded_bytes \<ge> cfg_max_append_bytes config \<or>
             24 + length (e_command e) > cfg_max_append_bytes config - encoded_bytes))
      then collect_entries config rest (entries @ [e]) (encoded_bytes + (24 + length (e_command e)))
      else entries)"

definition send_entries :: "NodeId \<Rightarrow> PeerProgress \<Rightarrow> raft_op" where
  "send_entries peer p n =
     (let p = p\<lparr>pp_next_index := max (pp_next_index p) (add64 (base_index n) 1)\<rparr>;
          previous_index = pp_next_index p - 1
      in bindE (entry_at previous_index n) (\<lambda>previous.
         let entries = collect_entries (rn_config n)
               (drop (pp_next_index p - base_index n) (rn_log n)) [] 0;
             rpc_id = rn_next_rpc_id n;
             last_index = (if entries = [] then previous_index else e_index (last entries));
             p = p\<lparr>pp_newest_rpc_id := rpc_id, pp_newest_rpc_last_index := last_index,
                   pp_recent_rpcs := push_tracked \<lparr>rr_rpc_id = rpc_id, rr_last_index = last_index\<rparr>
                     (pp_recent_rpcs p)\<rparr>;
             n = set_progress peer p (n\<lparr>rn_next_rpc_id := add64 (rn_next_rpc_id n) 1\<rparr>)
         in Inr (push_action (SendMessage peer (Msg_AppendEntries
              \<lparr>ae_term = rn_current_term n, ae_leader_id = self_id n,
               ae_previous_log_index = previous_index, ae_previous_log_term = e_term previous,
               ae_entries = entries, ae_leader_commit = rn_commit_index n, ae_rpc_id = rpc_id\<rparr>)) n)))"

definition send_append_entries :: "NodeId \<Rightarrow> raft_op" where
  "send_append_entries peer n =
     bindE (progress_at peer n) (\<lambda>p.
       let p = p\<lparr>pp_next_index := min (pp_next_index p) (add64 (last_log_index n) 1)\<rparr> in
       case rn_durable_snapshot n of
         Some snapshot \<Rightarrow>
           if pp_next_index p \<le> base_index n then Inr (send_snapshot_chunk peer snapshot p n)
           else send_entries peer p n
       | None \<Rightarrow> send_entries peer p n)"

fun broadcast_to :: "NodeId list \<Rightarrow> raft_op" where
  "broadcast_to [] n = Inr n"
| "broadcast_to (voter # voters) n =
     (if voter \<noteq> self_id n then bindE (send_append_entries voter n) (broadcast_to voters)
      else broadcast_to voters n)"

definition broadcast_append_entries :: raft_op where
  "broadcast_append_entries n = broadcast_to (cfg_voters (rn_config n)) n"

definition append_local_entry :: "EntryKind \<Rightarrow> bytes \<Rightarrow> RaftNode \<Rightarrow> RaftNode" where
  "append_local_entry kind command n =
     (let entry = \<lparr>e_index = add64 (last_log_index n) 1, e_term = rn_current_term n,
            e_kind = kind, e_command = command\<rparr>
      in push_action (PersistLog (e_index entry) [entry]) (n\<lparr>rn_log := rn_log n @ [entry]\<rparr>))"

section \<open>Committing\<close>

text \<open>The loop that applies the entries up to the commit index.\<close>

function apply_committed :: raft_op where
  "apply_committed n =
     (if rn_last_applied n < rn_commit_index n then
        let n = n\<lparr>rn_last_applied := Suc (rn_last_applied n)\<rparr> in
        bindE (entry_at (rn_last_applied n) n) (\<lambda>entry.
          apply_committed (push_action (ApplyEntry entry) n))
      else Inr n)"
  by pat_completeness auto
termination
  by (relation "measure (\<lambda>n. rn_commit_index n - rn_last_applied n)") (auto simp: push_action_def)

declare apply_committed.simps [simp del]

definition commit_to :: "LogIndex \<Rightarrow> raft_op" where
  "commit_to new_commit n =
     apply_committed (push_action (CommitAdvanced (rn_commit_index n) new_commit)
       (n\<lparr>rn_commit_index := new_commit\<rparr>))"

definition advance_follower_commit :: "LogIndex \<Rightarrow> raft_op" where
  "advance_follower_commit leader_commit n =
     (let new_commit = min leader_commit (last_log_index n) in
      if new_commit \<le> rn_commit_index n then Inr n else commit_to new_commit n)"

definition replicated :: "LogIndex \<Rightarrow> RaftNode \<Rightarrow> nat" where
  "replicated candidate n =
     1 + length (filter (\<lambda>(peer, p). pp_match_index p \<ge> candidate) (rn_peer_progress n))"

fun leader_commit_from :: "LogIndex \<Rightarrow> RaftNode \<Rightarrow> (std_exn, bool \<times> RaftNode) result" where
  "leader_commit_from 0 n = Inr (False, n)"
| "leader_commit_from (Suc i) n =
     (if Suc i > rn_commit_index n then
        bindE (entry_at (Suc i) n) (\<lambda>entry.
          if e_term entry \<noteq> rn_current_term n then leader_commit_from i n
          else if replicated (Suc i) n < quorum n then leader_commit_from i n
          else bindE (commit_to (Suc i) n) (\<lambda>n. Inr (True, n)))
      else Inr (False, n))"

definition advance_leader_commit :: "RaftNode \<Rightarrow> (std_exn, bool \<times> RaftNode) result" where
  "advance_leader_commit n = leader_commit_from (last_log_index n) n"

definition new_progress :: "LogIndex \<Rightarrow> PeerProgress" where
  "new_progress next_index =
     \<lparr>pp_next_index = next_index, pp_match_index = 0, pp_newest_rpc_id = 0,
      pp_newest_rpc_last_index = 0, pp_recent_rpcs = [], pp_snapshot_index = 0,
      pp_snapshot_offset = 0, pp_recent_snapshot_rpcs = []\<rparr>"

definition become_leader :: raft_op where
  "become_leader n =
     (let previous_role = rn_role n;
          next_index = add64 (last_log_index n) 1;
          n = n\<lparr>rn_role := Leader, rn_leader_id := Some (self_id n), rn_votes_received := [],
                rn_peer_progress :=
                  map (\<lambda>voter. (voter, new_progress next_index))
                    (filter (\<lambda>voter. voter \<noteq> self_id n) (cfg_voters (rn_config n))),
                rn_heartbeat_deadline :=
                  saturating_add (rn_now n) (cfg_heartbeat_interval (rn_config n))\<rparr>;
          n = push_action (RoleChanged previous_role Leader (rn_current_term n) (rn_leader_id n)) n;
          n = append_local_entry No_op [] n
      in bindE (advance_leader_commit n) (\<lambda>(_, n). broadcast_append_entries n))"

definition start_election :: raft_op where
  "start_election n =
     (if rn_current_term n = u64_max then Inl (overflow_error ''Raft term space exhausted'')
      else
        let previous_role = rn_role n;
            n = n\<lparr>rn_current_term := rn_current_term n + 1, rn_role := Candidate,
                  rn_leader_id := None, rn_voted_for := Some (self_id n),
                  rn_votes_received := [self_id n]\<rparr>;
            n = reset_election_deadline n;
            n = (if previous_role \<noteq> Candidate
                 then push_action (RoleChanged previous_role Candidate (rn_current_term n) None) n
                 else n);
            n = push_action (PersistHardState (rn_current_term n) (rn_voted_for n)) n;
            request = \<lparr>rv_term = rn_current_term n, rv_candidate_id = self_id n,
              rv_last_log_index = last_log_index n, rv_last_log_term = last_log_term n\<rparr>;
            n = n\<lparr>rn_actions := rn_actions n @
                  map (\<lambda>voter. SendMessage voter (Msg_RequestVote request))
                    (filter (\<lambda>voter. voter \<noteq> self_id n) (cfg_voters (rn_config n)))\<rparr>
        in if length (rn_votes_received n) \<ge> quorum n then become_leader n else Inr n)"

section \<open>Message handlers\<close>

definition handle_request_vote :: "NodeId \<Rightarrow> RequestVote \<Rightarrow> RaftNode \<Rightarrow> RaftNode" where
  "handle_request_vote from request n =
     (let up_to_date = (rv_last_log_term request > last_log_term n \<or>
            rv_last_log_term request = last_log_term n \<and>
            rv_last_log_index request \<ge> last_log_index n);
          candidate_matches_source = (rv_candidate_id request = from);
          can_vote = (rn_voted_for n = None \<or> rn_voted_for n = Some from);
          grant = (rv_term request \<noteq> 0 \<and> rv_term request = rn_current_term n \<and>
            candidate_matches_source \<and> can_vote \<and> up_to_date);
          n = (if grant \<and> rn_voted_for n \<noteq> Some from
               then push_action (PersistHardState (rn_current_term n) (Some from))
                 (n\<lparr>rn_voted_for := Some from\<rparr>)
               else n);
          n = (if grant then reset_election_deadline n else n)
      in push_action (SendMessage from (Msg_RequestVoteResponse
           \<lparr>rvr_term = rn_current_term n, rvr_vote_granted = grant\<rparr>)) n)"

definition handle_request_vote_response :: "NodeId \<Rightarrow> RequestVoteResponse \<Rightarrow> raft_op" where
  "handle_request_vote_response from response n =
     (if rn_role n \<noteq> Candidate \<or> rvr_term response \<noteq> rn_current_term n \<or>
         \<not> rvr_vote_granted response
      then Inr n
      else
        let n = n\<lparr>rn_votes_received := List.insert from (rn_votes_received n)\<rparr>
        in if length (rn_votes_received n) \<ge> quorum n then become_leader n else Inr n)"

definition send_append_response ::
    "NodeId \<Rightarrow> AppendEntries \<Rightarrow> bool \<Rightarrow> LogIndex \<Rightarrow> LogIndex \<Rightarrow> RaftNode \<Rightarrow> RaftNode" where
  "send_append_response to request success match_index reject_hint n =
     push_action (SendMessage to (Msg_AppendEntriesResponse
       \<lparr>aer_term = rn_current_term n, aer_success = success, aer_match_index = match_index,
        aer_reject_hint = reject_hint, aer_rpc_id = ae_rpc_id request\<rparr>)) n"

text \<open>The backward search for the first entry of the conflicting term.\<close>

fun first_conflict :: "Term \<Rightarrow> LogIndex \<Rightarrow> RaftNode \<Rightarrow> (std_exn, LogIndex) result" where
  "first_conflict term 0 n = Inr 0"
| "first_conflict term (Suc i) n =
     (if Suc i > add64 (base_index n) 1
      then bindE (entry_at i n) (\<lambda>entry.
        if e_term entry = term then first_conflict term i n else Inr (Suc i))
      else Inr (Suc i))"

text \<open>The check of the incoming entries: the index at which the first bad one was expected.\<close>

fun reject_entries :: "Term \<Rightarrow> LogIndex \<Rightarrow> Term \<Rightarrow> LogEntry list \<Rightarrow> LogIndex option" where
  "reject_entries request_term expected_index expected_minimum_term [] = None"
| "reject_entries request_term expected_index expected_minimum_term (incoming # entries) =
     (if e_index incoming \<noteq> expected_index \<or> e_term incoming > request_term \<or>
         e_term incoming < expected_minimum_term \<or> e_index incoming = 0
      then Some expected_index
      else reject_entries request_term (add64 expected_index 1) (e_term incoming) entries)"

text \<open>Comparing the incoming entries with the log: all present, replace from an offset on, or reject.\<close>

datatype comparison = Present | Replace_from nat | Reject_with LogIndex

fun compare_entries :: "nat \<Rightarrow> LogEntry list \<Rightarrow> RaftNode \<Rightarrow> (std_exn, comparison) result" where
  "compare_entries offset [] n = Inr Present"
| "compare_entries offset (incoming # entries) n =
     (if e_index incoming > last_log_index n then Inr (Replace_from offset)
      else bindE (entry_at (e_index incoming) n) (\<lambda>existing.
        if e_term existing \<noteq> e_term incoming
        then (if e_index incoming \<le> rn_commit_index n
              then Inr (Reject_with (add64 (rn_commit_index n) 1))
              else Inr (Replace_from offset))
        else if existing \<noteq> incoming then Inr (Reject_with (e_index incoming))
        else compare_entries (Suc offset) entries n))"

definition replace_log :: "nat \<Rightarrow> AppendEntries \<Rightarrow> RaftNode \<Rightarrow> RaftNode" where
  "replace_log offset request n =
     (let entries = drop offset (ae_entries request);
          from_index = e_index (ae_entries request ! offset)
      in push_action (PersistLog from_index entries)
           (n\<lparr>rn_log := take (from_index - base_index n) (rn_log n) @ entries\<rparr>))"

text \<open>Hearing from the leader of the current term.\<close>

definition accept_leader :: "NodeId \<Rightarrow> RaftNode \<Rightarrow> RaftNode" where
  "accept_leader from n =
     (if rn_role n \<noteq> Follower then become_follower (rn_current_term n) (Some from) n
      else reset_election_deadline (n\<lparr>rn_leader_id := Some from\<rparr>))"

definition append_accepted :: "NodeId \<Rightarrow> AppendEntries \<Rightarrow> raft_op" where
  "append_accepted from request n =
     (let matched_index = add64 (ae_previous_log_index request) (length (ae_entries request))
      in bindE (advance_follower_commit (min (ae_leader_commit request) matched_index) n) (\<lambda>n.
           Inr (send_append_response from request True matched_index 0 n)))"

definition handle_append_entries :: "NodeId \<Rightarrow> AppendEntries \<Rightarrow> raft_op" where
  "handle_append_entries from request n =
     (if ae_term request = 0 \<or> ae_term request < rn_current_term n \<or> ae_leader_id request \<noteq> from
      then Inr (send_append_response from request False 0 (add64 (last_log_index n) 1) n)
      else
        let n = accept_leader from n in
        if ae_previous_log_index request < base_index n
        then Inr (send_append_response from request False 0 (add64 (base_index n) 1) n)
        else if ae_previous_log_index request > last_log_index n
        then Inr (send_append_response from request False 0 (add64 (last_log_index n) 1) n)
        else bindE (entry_at (ae_previous_log_index request) n) (\<lambda>local_previous.
          if e_term local_previous \<noteq> ae_previous_log_term request
          then bindE (first_conflict (e_term local_previous) (ae_previous_log_index request) n)
            (\<lambda>hint. Inr (send_append_response from request False 0 hint n))
          else case reject_entries (ae_term request) (add64 (ae_previous_log_index request) 1)
              (ae_previous_log_term request) (ae_entries request) of
            Some expected_index \<Rightarrow> Inr (send_append_response from request False 0 expected_index n)
          | None \<Rightarrow>
              bindE (compare_entries 0 (ae_entries request) n) (\<lambda>c.
                case c of
                  Reject_with hint \<Rightarrow> Inr (send_append_response from request False 0 hint n)
                | Replace_from offset \<Rightarrow> append_accepted from request (replace_log offset request n)
                | Present \<Rightarrow> append_accepted from request n)))"

text \<open>Removing the first element that satisfies a predicate (\<^verbatim>\<open>find_if\<close> and \<^verbatim>\<open>erase\<close>).\<close>

fun erase_first :: "('a \<Rightarrow> bool) \<Rightarrow> 'a list \<Rightarrow> 'a list" where
  "erase_first P [] = []"
| "erase_first P (x # xs) = (if P x then xs else x # erase_first P xs)"

definition append_success :: "NodeId \<Rightarrow> AppendEntriesResponse \<Rightarrow> RpcRange \<Rightarrow> PeerProgress \<Rightarrow> raft_op" where
  "append_success from response rpc p n =
     (let reported = min (aer_match_index response) (rr_last_index rpc);
          p = p\<lparr>pp_recent_rpcs := erase_first (\<lambda>sent. rr_rpc_id sent = aer_rpc_id response)
                  (pp_recent_rpcs p),
                pp_match_index := max (pp_match_index p) reported\<rparr>;
          p = p\<lparr>pp_next_index := add64 (pp_match_index p) 1\<rparr>;
          n = set_progress from p n
      in bindE (advance_leader_commit n) (\<lambda>(advanced, n).
           if advanced then broadcast_append_entries n
           else if pp_next_index p \<le> last_log_index n then send_append_entries from n
           else Inr n))"

definition append_failure :: "NodeId \<Rightarrow> AppendEntriesResponse \<Rightarrow> PeerProgress \<Rightarrow> raft_op" where
  "append_failure from response p n =
     (if aer_rpc_id response \<noteq> pp_newest_rpc_id p then Inr n
      else
        let p = p\<lparr>pp_recent_rpcs := erase_first (\<lambda>sent. rr_rpc_id sent = aer_rpc_id response)
                    (pp_recent_rpcs p)\<rparr>;
            minimum_next = add64 (pp_match_index p) 1;
            one_back = (if pp_next_index p > 1 then pp_next_index p - 1 else 1);
            requested_next =
              (if aer_reject_hint response = 0 \<or> aer_reject_hint response \<ge> pp_next_index p
               then one_back else aer_reject_hint response);
            p = p\<lparr>pp_next_index := max minimum_next requested_next\<rparr>
        in send_append_entries from (set_progress from p n))"

definition handle_append_entries_response :: "NodeId \<Rightarrow> AppendEntriesResponse \<Rightarrow> raft_op" where
  "handle_append_entries_response from response n =
     (if rn_role n \<noteq> Leader \<or> aer_term response \<noteq> rn_current_term n then Inr n
      else case map_of (rn_peer_progress n) from of
          None \<Rightarrow> Inr n
        | Some p \<Rightarrow>
            (case find (\<lambda>sent. rr_rpc_id sent = aer_rpc_id response) (pp_recent_rpcs p) of
               None \<Rightarrow> Inr n
             | Some rpc \<Rightarrow>
                 if aer_success response then append_success from response rpc p n
                 else append_failure from response p n))"

subsection \<open>Snapshots\<close>

definition send_snapshot_response ::
    "NodeId \<Rightarrow> InstallSnapshot \<Rightarrow> bool \<Rightarrow> nat \<Rightarrow> RaftNode \<Rightarrow> RaftNode" where
  "send_snapshot_response to request success next_offset n =
     push_action (SendMessage to (Msg_InstallSnapshotResponse
       \<lparr>isr_term = rn_current_term n, isr_success = success,
        isr_last_included_index = is_last_included_index request,
        isr_next_offset = next_offset, isr_rpc_id = is_rpc_id request\<rparr>)) n"

definition bad_install :: "NodeId \<Rightarrow> InstallSnapshot \<Rightarrow> RaftNode \<Rightarrow> bool" where
  "bad_install from request n \<longleftrightarrow>
     is_term request = 0 \<or> is_term request < rn_current_term n \<or> is_leader_id request \<noteq> from \<or>
     is_rpc_id request = 0 \<or> is_last_included_index request = 0 \<or>
     is_last_included_index request = u64_max \<or> is_last_included_term request = 0 \<or>
     is_last_included_term request > is_term request \<or>
     is_total_size request > 512 * 1024 * 1024 \<or> is_offset request > is_total_size request \<or>
     length (is_data request) > is_total_size request - is_offset request \<or>
     is_done request \<noteq> (is_offset request + length (is_data request) = is_total_size request)"

definition begin_incoming :: "NodeId \<Rightarrow> InstallSnapshot \<Rightarrow> RaftNode \<Rightarrow> RaftNode" where
  "begin_incoming from request n =
     (if is_offset request = 0
      then n\<lparr>rn_incoming_snapshot := Some \<lparr>in_leader_id = from,
             in_last_included_index = is_last_included_index request,
             in_last_included_term = is_last_included_term request,
             in_total_size = is_total_size request, in_bytes = []\<rparr>\<rparr>
      else n)"

definition incoming_matches :: "NodeId \<Rightarrow> InstallSnapshot \<Rightarrow> IncomingSnapshot \<Rightarrow> bool" where
  "incoming_matches from request i \<longleftrightarrow>
     in_leader_id i = from \<and> in_last_included_index i = is_last_included_index request \<and>
     in_last_included_term i = is_last_included_term request \<and>
     in_total_size i = is_total_size request \<and> length (in_bytes i) = is_offset request"

text \<open>The log suffix that survives the installation of a snapshot.\<close>

definition retained_suffix :: "StateMachineSnapshot \<Rightarrow> RaftNode \<Rightarrow> (std_exn, LogEntry list) result" where
  "retained_suffix installed n =
     (if s_index installed \<le> last_log_index n \<and> s_index installed \<ge> base_index n
      then bindE (entry_at (s_index installed) n) (\<lambda>entry.
        if e_term entry = s_term installed
        then Inr (drop (s_index installed - base_index n + 1) (rn_log n)) else Inr [])
      else Inr [])"

definition sentinel :: "StateMachineSnapshot \<Rightarrow> LogEntry" where
  "sentinel snap = \<lparr>e_index = s_index snap, e_term = s_term snap, e_kind = No_op, e_command = []\<rparr>"

definition install_snapshot :: "StateMachineSnapshot \<Rightarrow> raft_op" where
  "install_snapshot installed n =
     bindE (retained_suffix installed n) (\<lambda>suffix.
       let n = n\<lparr>rn_log := sentinel installed # suffix, rn_durable_snapshot := Some installed\<rparr>;
           n = n\<lparr>rn_commit_index := max (rn_commit_index n) (s_index installed)\<rparr>;
           n = n\<lparr>rn_commit_index := min (rn_commit_index n) (last_log_index n),
                 rn_last_applied := s_index installed\<rparr>
       in Inr (push_action (ApplySnapshot installed) (push_action (PersistSnapshot installed) n)))"

definition handle_install_snapshot :: "NodeId \<Rightarrow> InstallSnapshot \<Rightarrow> raft_op" where
  "handle_install_snapshot from request n =
     (if bad_install from request n then Inr (send_snapshot_response from request False 0 n)
      else
        let n = accept_leader from n in
        if is_last_included_index request \<le> rn_last_applied n
        then Inr (send_snapshot_response from request True (is_total_size request) n)
        else
          let n = begin_incoming from request n in
          case rn_incoming_snapshot n of
            None \<Rightarrow> Inr (send_snapshot_response from request False 0 n)
          | Some i \<Rightarrow>
              if \<not> incoming_matches from request i
              then Inr (send_snapshot_response from request False (length (in_bytes i)) n)
              else
                let i = i\<lparr>in_bytes := in_bytes i @ is_data request\<rparr>;
                    n = n\<lparr>rn_incoming_snapshot := Some i\<rparr>
                in if \<not> is_done request
                   then Inr (send_snapshot_response from request True (length (in_bytes i)) n)
                   else bindE (install_snapshot
                       \<lparr>s_index = is_last_included_index request,
                        s_term = is_last_included_term request, s_state = in_bytes i\<rparr>
                       (n\<lparr>rn_incoming_snapshot := None\<rparr>)) (\<lambda>n.
                     Inr (send_snapshot_response from request True (is_total_size request) n)))"

definition snapshot_success ::
    "NodeId \<Rightarrow> StateMachineSnapshot \<Rightarrow> InstallSnapshotResponse \<Rightarrow> SnapshotRpcRange \<Rightarrow> PeerProgress \<Rightarrow> raft_op" where
  "snapshot_success from snapshot response sent p n =
     (if isr_next_offset response \<noteq> sr_end sent then Inr n
      else if sr_end sent \<le> pp_snapshot_offset p then Inr n
      else if sr_offset sent \<noteq> pp_snapshot_offset p then Inr n
      else
        let p = p\<lparr>pp_recent_snapshot_rpcs :=
                    erase_first (\<lambda>s. sr_rpc_id s = isr_rpc_id response \<and>
                      sr_snapshot_index s = isr_last_included_index response)
                      (pp_recent_snapshot_rpcs p),
                  pp_snapshot_offset := sr_end sent\<rparr>
        in if pp_snapshot_offset p < length (s_state snapshot)
           then send_append_entries from (set_progress from p n)
           else
             let p = p\<lparr>pp_match_index := max (pp_match_index p) (s_index snapshot)\<rparr>;
                 p = p\<lparr>pp_next_index := add64 (pp_match_index p) 1, pp_snapshot_offset := 0,
                       pp_snapshot_index := 0, pp_recent_snapshot_rpcs := [],
                       pp_recent_rpcs := []\<rparr>
             in send_append_entries from (set_progress from p n))"

definition snapshot_failure ::
    "NodeId \<Rightarrow> InstallSnapshotResponse \<Rightarrow> SnapshotRpcRange \<Rightarrow> PeerProgress \<Rightarrow> raft_op" where
  "snapshot_failure from response sent p n =
     (if isr_rpc_id response \<noteq> pp_newest_rpc_id p \<or> isr_next_offset response > sr_end sent
      then Inr n
      else
        let p = p\<lparr>pp_recent_snapshot_rpcs :=
                    erase_first (\<lambda>s. sr_rpc_id s = isr_rpc_id response \<and>
                      sr_snapshot_index s = isr_last_included_index response)
                      (pp_recent_snapshot_rpcs p),
                  pp_snapshot_offset := isr_next_offset response\<rparr>
        in send_append_entries from (set_progress from p n))"

definition handle_install_snapshot_response :: "NodeId \<Rightarrow> InstallSnapshotResponse \<Rightarrow> raft_op" where
  "handle_install_snapshot_response from response n =
     (if rn_role n \<noteq> Leader \<or> isr_term response \<noteq> rn_current_term n then Inr n
      else case (map_of (rn_peer_progress n) from, rn_durable_snapshot n) of
          (Some p, Some snapshot) \<Rightarrow>
            if isr_last_included_index response \<noteq> s_index snapshot \<or>
               pp_snapshot_index p \<noteq> s_index snapshot
            then Inr n
            else (case find (\<lambda>sent. sr_rpc_id sent = isr_rpc_id response \<and>
                      sr_snapshot_index sent = isr_last_included_index response)
                      (pp_recent_snapshot_rpcs p) of
                    None \<Rightarrow> Inr n
                  | Some sent \<Rightarrow>
                      if isr_success response then snapshot_success from snapshot response sent p n
                      else snapshot_failure from response sent p n)
        | _ \<Rightarrow> Inr n)"

section \<open>The interface\<close>

fun handle_message :: "NodeId \<Rightarrow> Message \<Rightarrow> raft_op" where
  "handle_message from (Msg_RequestVote m) n = Inr (handle_request_vote from m n)"
| "handle_message from (Msg_RequestVoteResponse m) n = handle_request_vote_response from m n"
| "handle_message from (Msg_AppendEntries m) n = handle_append_entries from m n"
| "handle_message from (Msg_AppendEntriesResponse m) n = handle_append_entries_response from m n"
| "handle_message from (Msg_InstallSnapshot m) n = handle_install_snapshot from m n"
| "handle_message from (Msg_InstallSnapshotResponse m) n =
     handle_install_snapshot_response from m n"

definition incoming_leader :: "NodeId \<Rightarrow> Message \<Rightarrow> NodeId option" where
  "incoming_leader from message =
     (case message of
        Msg_AppendEntries m \<Rightarrow> if ae_leader_id m = from then Some from else None
      | Msg_InstallSnapshot m \<Rightarrow> if is_leader_id m = from then Some from else None
      | _ \<Rightarrow> None)"

definition step_impl :: "NodeId \<Rightarrow> Message \<Rightarrow> raft_op" where
  "step_impl from message n =
     (if from = self_id n \<or> \<not> is_voter from n then Inr n
      else
        let n = (if message_term message > rn_current_term n
                 then become_follower (message_term message) (incoming_leader from message) n
                 else n)
        in handle_message from message n)"

text \<open>
  Every call of the interface clears the actions, runs, checks the invariants, and moves the actions
  out.
\<close>

definition finish_call :: "(std_exn, RaftNode) result \<Rightarrow> (std_exn, Actions \<times> RaftNode) result" where
  "finish_call r =
     bindE r (\<lambda>n. bindE (verify_invariants n) (\<lambda>n. Inr (rn_actions n, n\<lparr>rn_actions := []\<rparr>)))"

type_synonym raft_call = "RaftNode \<Rightarrow> (std_exn, Actions \<times> RaftNode) result"

definition advance_time :: "LogicalTime \<Rightarrow> raft_call" where
  "advance_time now n =
     (if now < rn_now n then Inl (invalid_argument ''Raft logical time cannot move backward'')
      else
        let n = n\<lparr>rn_now := now, rn_actions := []\<rparr> in
        finish_call
          (if rn_role n \<noteq> Leader \<and> now \<ge> rn_election_deadline n then start_election n
           else if rn_role n = Leader \<and> now \<ge> rn_heartbeat_deadline n
           then bindE (broadcast_append_entries n) (\<lambda>n. Inr (n\<lparr>rn_heartbeat_deadline :=
                  saturating_add now (cfg_heartbeat_interval (rn_config n))\<rparr>))
           else Inr n))"

definition step :: "NodeId \<Rightarrow> Message \<Rightarrow> raft_call" where
  "step from message n = finish_call (step_impl from message (n\<lparr>rn_actions := []\<rparr>))"

definition propose_entry :: "EntryKind \<Rightarrow> bytes \<Rightarrow> raft_call" where
  "propose_entry kind command n =
     (let n = n\<lparr>rn_actions := []\<rparr> in
      finish_call
        (if rn_role n \<noteq> Leader then Inr (push_action (ProposalRejected (rn_leader_id n)) n)
         else bindE (advance_leader_commit (append_local_entry kind command n))
           (\<lambda>(_, n). broadcast_append_entries n)))"

definition propose :: "bytes \<Rightarrow> raft_call" where
  "propose command n = propose_entry Command_entry command n"

definition read_barrier :: raft_call where
  "read_barrier n = propose_entry No_op [] n"

definition compact :: "StateMachineSnapshot \<Rightarrow> raft_call" where
  "compact snap n =
     (let n = n\<lparr>rn_actions := []\<rparr>;
          mismatch = invalid_argument ''snapshot does not match an applied log prefix'' in
      if s_index snap = u64_max \<or> s_index snap \<le> base_index n \<or> s_index snap > rn_last_applied n
      then Inl mismatch
      else bindE (entry_at (s_index snap) n) (\<lambda>entry.
        if e_term entry \<noteq> s_term snap then Inl mismatch
        else
          let suffix = drop (s_index snap - base_index n + 1) (rn_log n);
              n = n\<lparr>rn_log := sentinel snap # suffix, rn_durable_snapshot := Some snap,
                    rn_peer_progress :=
                      map (\<lambda>(peer, p). (peer, p\<lparr>pp_snapshot_index := s_index snap,
                        pp_snapshot_offset := 0, pp_recent_snapshot_rpcs := []\<rparr>))
                        (rn_peer_progress n)\<rparr>
          in finish_call (Inr (push_action (PersistSnapshot snap) n))))"

definition new_raft_node :: "RaftConfig \<Rightarrow> RaftPersistentState \<Rightarrow> LogicalTime \<Rightarrow> nat stream \<Rightarrow>
    (std_exn, RaftNode) result" where
  "new_raft_node config persistent initial_time random =
     bindE (validate_raft_config config) (\<lambda>_.
     bindE (validate_persistent_state config persistent) (\<lambda>_.
       let base = \<lparr>e_index = snapshot_index (ps_snapshot persistent),
             e_term = snapshot_term (ps_snapshot persistent), e_kind = No_op, e_command = []\<rparr>
       in verify_invariants (reset_election_deadline
            \<lparr>rn_config = config, rn_role = Follower,
             rn_current_term = ps_current_term persistent, rn_voted_for = ps_voted_for persistent,
             rn_leader_id = None, rn_durable_snapshot = ps_snapshot persistent,
             rn_log = base # ps_log persistent, rn_commit_index = e_index base,
             rn_last_applied = e_index base, rn_now = initial_time, rn_election_deadline = 0,
             rn_heartbeat_deadline = 0, rn_random = random, rn_votes_received = [],
             rn_peer_progress = [], rn_incoming_snapshot = None, rn_next_rpc_id = 1,
             rn_actions = []\<rparr>)))"

definition snapshot_view :: "RaftNode \<Rightarrow> RaftSnapshot" where
  "snapshot_view n =
     \<lparr>rs_self_id = self_id n, rs_role = rn_role n, rs_current_term = rn_current_term n,
      rs_voted_for = rn_voted_for n, rs_leader_id = rn_leader_id n,
      rs_durable_snapshot = rn_durable_snapshot n, rs_log = tl (rn_log n),
      rs_commit_index = rn_commit_index n, rs_last_applied = rn_last_applied n,
      rs_now = rn_now n, rs_election_deadline = rn_election_deadline n,
      rs_heartbeat_deadline = rn_heartbeat_deadline n\<rparr>"

definition status :: "RaftNode \<Rightarrow> RaftStatus" where
  "status n =
     \<lparr>st_self_id = self_id n, st_role = rn_role n, st_current_term = rn_current_term n,
      st_leader_id = rn_leader_id n, st_commit_index = rn_commit_index n,
      st_last_applied = rn_last_applied n, st_last_log_index = last_log_index n,
      st_retained_log_records = length (rn_log n) - 1\<rparr>"

definition progress :: "NodeId \<Rightarrow> RaftNode \<Rightarrow> PeerProgress option" where
  "progress peer n = map_of (rn_peer_progress n) peer"

definition match_index :: "NodeId \<Rightarrow> RaftNode \<Rightarrow> LogIndex option" where
  "match_index peer n = map_option pp_match_index (map_of (rn_peer_progress n) peer)"

end
