(* ===== verification/Raft_Inv.thy ===== *)
theory Raft_Inv
  imports Raft_Node
begin

text \<open>
  The invariant of a Raft node: a well-formed log above the snapshot boundary, consistent term, vote,
  commit and apply indexes, and leader bookkeeping within bounds. It implies that the run-time check
  \<^verbatim>\<open>verify_invariants\<close> passes. The sending operations of a leader (\<^verbatim>\<open>send_append_entries\<close> and
  \<^verbatim>\<open>broadcast_append_entries\<close>) keep it, never fail, and send only messages that tell the truth about
  the leader's state.
\<close>

section \<open>The log\<close>

text \<open>
  A well-formed log for a node in term \<open>T\<close>: a sentinel that stands for the compacted prefix, then
  entries with consecutive indexes and nondecreasing, positive terms.
\<close>

definition log_ok :: "Term \<Rightarrow> LogEntry list \<Rightarrow> bool" where
  "log_ok T es \<longleftrightarrow>
     es \<noteq> [] \<and> e_kind (hd es) = No_op \<and> e_command (hd es) = [] \<and>
     (e_index (hd es) = 0) = (e_term (hd es) = 0) \<and>
     (\<forall>i < length es. e_index (es ! i) = e_index (hd es) + i) \<and>
     sorted (map e_term es) \<and> (\<forall>e \<in> set es. e_term e \<le> T) \<and>
     (\<forall>e \<in> set (tl es). 0 < e_term e) \<and> e_index (last es) < u64_max"

lemma log_ok_last: "log_ok T es \<Longrightarrow> e_index (last es) = e_index (hd es) + (length es - 1)"
  by (simp add: log_ok_def last_conv_nth)

lemma log_ok_mono: "log_ok T es \<Longrightarrow> T \<le> T' \<Longrightarrow> log_ok T' es"
  by (auto simp: log_ok_def)

lemma last_log_index_eq:
  "log_ok T (rn_log n) \<Longrightarrow> last_log_index n = base_index n + (length (rn_log n) - 1)"
  by (simp add: last_log_index_def base_index_def log_ok_last)

lemma entry_at_ok:
  assumes "log_ok T (rn_log n)" and "base_index n \<le> i" and "i \<le> last_log_index n"
  shows "entry_at i n = Inr (rn_log n ! (i - base_index n))"
    and "i - base_index n < length (rn_log n)"
    and "e_index (rn_log n ! (i - base_index n)) = i"
proof -
  have ne: "rn_log n \<noteq> []" using assms(1) by (simp add: log_ok_def)
  then show len: "i - base_index n < length (rn_log n)"
    using assms last_log_index_eq [OF assms(1)] by (cases "rn_log n") auto
  then show "entry_at i n = Inr (rn_log n ! (i - base_index n))"
    using assms(2,3) by (simp add: entry_at_def)
  show "e_index (rn_log n ! (i - base_index n)) = i"
    using assms(1,2) len by (simp add: log_ok_def base_index_def)
qed

lemma sorted_map_le_last: "sorted (map f xs) \<Longrightarrow> x \<in> set xs \<Longrightarrow> f x \<le> f (last xs)"
  by (induction xs) auto

lemma log_ok_append:
  assumes "log_ok T es" and "e_index e = e_index (last es) + 1" and "e_index e < u64_max"
    and "e_term (last es) \<le> e_term e" and "e_term e \<le> T" and "0 < e_term e"
  shows "log_ok T (es @ [e])"
proof -
  have ne: "es \<noteq> []" using assms(1) by (simp add: log_ok_def)
  have idx: "e_index e = e_index (hd es) + length es"
    using assms(2) log_ok_last [OF assms(1)] ne by (cases es) auto
  have "sorted (map e_term (es @ [e]))"
    using assms(1,4) by (auto simp: log_ok_def sorted_append dest: sorted_map_le_last)
  then show ?thesis
    using assms ne idx by (auto simp: log_ok_def nth_append hd_append less_Suc_eq)
qed

text \<open>A run of incoming entries that continues a log after index \<open>i\<close> and term \<open>t\<close>.\<close>

fun entries_follow :: "Term \<Rightarrow> LogIndex \<Rightarrow> Term \<Rightarrow> LogEntry list \<Rightarrow> bool" where
  "entries_follow T i t [] \<longleftrightarrow> True"
| "entries_follow T i t (e # es) \<longleftrightarrow>
     e_index e = Suc i \<and> Suc i < u64_max \<and> t \<le> e_term e \<and> e_term e \<le> T \<and> 0 < e_term e \<and>
     entries_follow T (Suc i) (e_term e) es"

lemma log_ok_extend:
  "log_ok T es \<Longrightarrow> entries_follow T (e_index (last es)) (e_term (last es)) new \<Longrightarrow> log_ok T (es @ new)"
proof (induction new arbitrary: es)
  case (Cons e new)
  have "log_ok T (es @ [e])" using Cons.prems by (intro log_ok_append) auto
  moreover have "entries_follow T (e_index (last (es @ [e]))) (e_term (last (es @ [e]))) new"
    using Cons.prems(2) by simp
  ultimately show ?case using Cons.IH [of "es @ [e]"] by simp
qed simp

lemma log_ok_take:
  assumes "log_ok T es" and "0 < k"
  shows "log_ok T (take k es)"
proof -
  have "last (take k es) \<in> set es"
    using assms by (metis in_set_takeD last_in_set log_ok_def take_eq_Nil not_less0)
  then obtain i where i: "i < length es" "last (take k es) = es ! i" by (metis in_set_conv_nth)
  have "e_index (es ! i) \<le> e_index (last es)"
    using assms(1) i(1) log_ok_last [OF assms(1)] by (auto simp: log_ok_def)
  then have "e_index (last (take k es)) < u64_max" using i(2) assms(1) by (auto simp: log_ok_def)
  moreover have "sorted (map e_term (take k es))"
    using assms(1) by (simp add: log_ok_def take_map [symmetric] sorted_wrt_take)
  moreover have "set (tl (take k es)) \<subseteq> set (tl es)"
    using assms(2) by (cases es; cases k) (auto dest: in_set_takeD)
  ultimately show ?thesis
    using assms by (auto simp: log_ok_def dest: in_set_takeD)
qed

lemma log_ok_sentinel:
  assumes "log_ok T es" and "k < length es" and "s_index snap = e_index (es ! k)"
    and "s_term snap = e_term (es ! k)" and "s_index snap \<noteq> 0"
  shows "log_ok T (sentinel snap # drop (Suc k) es)"
proof -
  have t0: "s_term snap \<noteq> 0"
  proof (cases k)
    case 0
    then have "es ! k = hd es" using assms(2) by (cases es) auto
    then show ?thesis using assms(1,3-5) unfolding log_ok_def by metis
  next
    case (Suc j)
    then have "es ! k \<in> set (tl es)" using assms(2) by (cases es) auto
    then show ?thesis using assms(1,4) by (auto simp: log_ok_def)
  qed
  have ix: "s_index snap = e_index (hd es) + k" using assms(1,2,3) by (auto simp: log_ok_def)
  have dr: "drop k es = es ! k # drop (Suc k) es" using assms(2) by (simp add: Cons_nth_drop_Suc)
  have "sorted (map e_term (drop k es))"
    using assms(1) by (simp add: log_ok_def drop_map [symmetric] sorted_wrt_drop)
  then have "sorted (map e_term (sentinel snap # drop (Suc k) es))"
    using assms(4) dr by (simp add: sentinel_def)
  moreover have "e_index (last (sentinel snap # drop (Suc k) es)) = e_index (last es)"
    using assms(2,3) log_ok_last [OF assms(1)] ix by (auto simp: sentinel_def last_drop)
  moreover have "set (drop (Suc k) es) \<subseteq> set (tl es)"
    by (metis drop_Suc set_drop_subset)
  ultimately show ?thesis
    using assms t0 ix
    by (auto simp: log_ok_def sentinel_def nth_Cons dest: in_set_dropD split: nat.splits)
qed

lemma log_ok_only_sentinel:
  "0 < s_index snap \<Longrightarrow> s_index snap < u64_max \<Longrightarrow> 0 < s_term snap \<Longrightarrow> s_term snap \<le> T \<Longrightarrow>
   log_ok T [sentinel snap]"
  by (auto simp: log_ok_def sentinel_def)

lemma log_ordered_ok:
  "\<forall>i < length es. e_index (es ! i) = b + i \<Longrightarrow> sorted (map e_term es) \<Longrightarrow>
   \<forall>e \<in> set es. e_term e \<le> T \<Longrightarrow> b + length es < 2 ^ 64 \<Longrightarrow> log_ordered T (Suc b) es"
proof (induction T "Suc b" es arbitrary: b rule: log_ordered.induct)
  case (3 T p c es)
  have "\<forall>i < length (c # es). e_index ((c # es) ! i) = Suc b + i"
    using 3(2) by (metis Suc_less_eq add_Suc add_Suc_right length_Cons nth_Cons_Suc)
  then show ?case
    using 3(1) [of "Suc b"] 3(2-5) by auto
qed auto

section \<open>The invariant of a node\<close>

definition config_ok :: "RaftConfig \<Rightarrow> bool" where
  "config_ok cfg \<longleftrightarrow> validate_raft_config cfg = Inr ()"

text \<open>
  The bookkeeping for one peer, for a leader whose log ends at \<open>last_index\<close>, with durable snapshot
  \<open>snap\<close> and next RPC identifier \<open>rpc\<close>.
\<close>

definition progress_ok :: "LogIndex \<Rightarrow> StateMachineSnapshot option \<Rightarrow> RpcId \<Rightarrow> PeerProgress \<Rightarrow> bool" where
  "progress_ok last_index snap rpc p \<longleftrightarrow>
     pp_match_index p < pp_next_index p \<and> pp_next_index p \<le> Suc last_index \<and>
     pp_newest_rpc_last_index p \<le> last_index \<and> pp_newest_rpc_id p < rpc \<and>
     length (pp_recent_rpcs p) \<le> kMaximumTrackedRpcsPerPeer \<and>
     length (pp_recent_snapshot_rpcs p) \<le> kMaximumTrackedRpcsPerPeer \<and>
     (\<forall>r \<in> set (pp_recent_rpcs p). rr_rpc_id r \<noteq> 0 \<and> rr_rpc_id r \<le> pp_newest_rpc_id p \<and>
        rr_last_index r \<le> last_index) \<and>
     (pp_snapshot_index p \<noteq> 0 \<longrightarrow>
        (\<exists>s. snap = Some s \<and> pp_snapshot_index p = s_index s \<and>
           pp_snapshot_offset p \<le> length (s_state s))) \<and>
     (\<forall>r \<in> set (pp_recent_snapshot_rpcs p). sr_rpc_id r \<noteq> 0 \<and> sr_rpc_id r \<le> pp_newest_rpc_id p \<and>
        sr_snapshot_index r = pp_snapshot_index p \<and> sr_offset r \<le> sr_end r \<and>
        (\<exists>s. snap = Some s \<and> sr_end r \<le> length (s_state s)))"

definition peers_ok :: "RaftNode \<Rightarrow> bool" where
  "peers_ok n \<longleftrightarrow>
     (if rn_role n = Leader
      then rn_leader_id n = Some (self_id n) \<and> distinct (map fst (rn_peer_progress n)) \<and>
        fst ` set (rn_peer_progress n) = set (cfg_voters (rn_config n)) - {self_id n} \<and>
        (\<forall>(peer, p) \<in> set (rn_peer_progress n).
           progress_ok (last_log_index n) (rn_durable_snapshot n) (rn_next_rpc_id n) p)
      else rn_peer_progress n = [])"

definition snapshot_positive :: "StateMachineSnapshot option \<Rightarrow> bool" where
  "snapshot_positive s \<longleftrightarrow> s = None \<or> 0 < snapshot_index s"

definition snapshot_ok :: "RaftNode \<Rightarrow> bool" where
  "snapshot_ok n \<longleftrightarrow>
     base_index n = snapshot_index (rn_durable_snapshot n) \<and>
     e_term (hd (rn_log n)) = snapshot_term (rn_durable_snapshot n) \<and>
     snapshot_positive (rn_durable_snapshot n)"

definition raft_inv :: "RaftNode \<Rightarrow> bool" where
  "raft_inv n \<longleftrightarrow>
     config_ok (rn_config n) \<and> log_ok (rn_current_term n) (rn_log n) \<and> snapshot_ok n \<and>
     rn_current_term n \<le> u64_max \<and>
     base_index n \<le> rn_commit_index n \<and> rn_commit_index n \<le> last_log_index n \<and>
     rn_last_applied n = rn_commit_index n \<and>
     (\<forall>v. rn_voted_for n = Some v \<longrightarrow> is_voter v n \<and> 0 < rn_current_term n) \<and>
     (\<forall>v. rn_leader_id n = Some v \<longrightarrow> is_voter v n) \<and>
     (rn_role n \<noteq> Follower \<longrightarrow> rn_voted_for n = Some (self_id n)) \<and>
     distinct (rn_votes_received n) \<and> set (rn_votes_received n) \<subseteq> set (cfg_voters (rn_config n)) \<and>
     0 < rn_next_rpc_id n \<and> peers_ok n"

lemmas node_access = last_log_index_def base_index_def last_log_term_def is_voter_def quorum_def
  push_action_def set_progress_def

lemma push_action_simps [simp]:
  "rn_config (push_action a n) = rn_config n"
  "rn_role (push_action a n) = rn_role n"
  "rn_current_term (push_action a n) = rn_current_term n"
  "rn_voted_for (push_action a n) = rn_voted_for n"
  "rn_leader_id (push_action a n) = rn_leader_id n"
  "rn_durable_snapshot (push_action a n) = rn_durable_snapshot n"
  "rn_log (push_action a n) = rn_log n"
  "rn_commit_index (push_action a n) = rn_commit_index n"
  "rn_last_applied (push_action a n) = rn_last_applied n"
  "rn_now (push_action a n) = rn_now n"
  "rn_election_deadline (push_action a n) = rn_election_deadline n"
  "rn_heartbeat_deadline (push_action a n) = rn_heartbeat_deadline n"
  "rn_random (push_action a n) = rn_random n"
  "rn_votes_received (push_action a n) = rn_votes_received n"
  "rn_peer_progress (push_action a n) = rn_peer_progress n"
  "rn_incoming_snapshot (push_action a n) = rn_incoming_snapshot n"
  "rn_next_rpc_id (push_action a n) = rn_next_rpc_id n"
  "rn_actions (push_action a n) = rn_actions n @ [a]"
  "last_log_index (push_action a n) = last_log_index n"
  "base_index (push_action a n) = base_index n"
  by (simp_all add: node_access)

lemma set_progress_simps [simp]:
  "rn_config (set_progress peer p n) = rn_config n"
  "rn_role (set_progress peer p n) = rn_role n"
  "rn_current_term (set_progress peer p n) = rn_current_term n"
  "rn_voted_for (set_progress peer p n) = rn_voted_for n"
  "rn_leader_id (set_progress peer p n) = rn_leader_id n"
  "rn_durable_snapshot (set_progress peer p n) = rn_durable_snapshot n"
  "rn_log (set_progress peer p n) = rn_log n"
  "rn_commit_index (set_progress peer p n) = rn_commit_index n"
  "rn_last_applied (set_progress peer p n) = rn_last_applied n"
  "rn_now (set_progress peer p n) = rn_now n"
  "rn_election_deadline (set_progress peer p n) = rn_election_deadline n"
  "rn_heartbeat_deadline (set_progress peer p n) = rn_heartbeat_deadline n"
  "rn_random (set_progress peer p n) = rn_random n"
  "rn_votes_received (set_progress peer p n) = rn_votes_received n"
  "rn_incoming_snapshot (set_progress peer p n) = rn_incoming_snapshot n"
  "rn_next_rpc_id (set_progress peer p n) = rn_next_rpc_id n"
  "rn_actions (set_progress peer p n) = rn_actions n"
  "rn_peer_progress (set_progress peer p n) = AList.update peer p (rn_peer_progress n)"
  "last_log_index (set_progress peer p n) = last_log_index n"
  "base_index (set_progress peer p n) = base_index n"
  by (simp_all add: node_access)

lemma voters_valid_iff:
  "voters_valid unique voters \<longleftrightarrow> 0 \<notin> set voters \<and> distinct voters \<and> set voters \<inter> set unique = {}"
  by (induction unique voters rule: voters_valid.induct) auto

lemma config_okD:
  assumes "config_ok cfg"
  shows "distinct (cfg_voters cfg)" "cfg_self_id cfg \<in> set (cfg_voters cfg)" "0 \<notin> set (cfg_voters cfg)"
    "length (cfg_voters cfg) \<le> 7" "odd (length (cfg_voters cfg))"
    "0 < cfg_max_append_entries cfg" "24 \<le> cfg_max_append_bytes cfg"
    "cfg_election_timeout_min cfg \<le> cfg_election_timeout_max cfg" "0 < cfg_election_timeout_min cfg"
  using assms
  by (auto simp: config_ok_def validate_raft_config_def voters_valid_iff even_iff_mod_2_eq_zero
      split: if_splits)

lemma peers_okD:
  assumes "peers_ok n" and "rn_role n = Leader" and "(peer, p) \<in> set (rn_peer_progress n)"
  shows "progress_ok (last_log_index n) (rn_durable_snapshot n) (rn_next_rpc_id n) p"
    and "peer \<in> set (cfg_voters (rn_config n))" and "peer \<noteq> self_id n"
proof -
  have "peer \<in> fst ` set (rn_peer_progress n)" using assms(3) by force
  then show "peer \<in> set (cfg_voters (rn_config n))" "peer \<noteq> self_id n"
    using assms(1,2) by (auto simp: peers_ok_def)
  show "progress_ok (last_log_index n) (rn_durable_snapshot n) (rn_next_rpc_id n) p"
    using assms by (auto simp: peers_ok_def)
qed

lemma peers_length:
  assumes "config_ok (rn_config n)" and "peers_ok n" and "rn_role n = Leader"
  shows "length (rn_peer_progress n) + 1 = length (cfg_voters (rn_config n))"
proof -
  have "length (rn_peer_progress n) = card (fst ` set (rn_peer_progress n))"
    using assms(2,3) distinct_card [of "map fst (rn_peer_progress n)"] by (simp add: peers_ok_def)
  also have "\<dots> = length (cfg_voters (rn_config n)) - 1"
    using assms config_okD(1,2) [OF assms(1)] by (simp add: peers_ok_def distinct_card)
  finally show ?thesis
    using config_okD(2) [OF assms(1)] by (cases "cfg_voters (rn_config n)") auto
qed

lemma verify_progress_ok:
  assumes "progress_ok (last_log_index n) (rn_durable_snapshot n) rpc p" and "last_log_index n < u64_max"
    and "peer \<noteq> self_id n" and "is_voter peer n"
  shows "verify_progress n peer p = Inr ()"
proof -
  have "pp_match_index p + 1 < 2 ^ 64" "last_log_index n + 1 < 2 ^ 64"
    using assms(1,2) by (auto simp: progress_ok_def u64_max_def)
  then show ?thesis
    using assms unfolding verify_progress_def progress_in_bounds_def snapshot_progress_in_bounds_def
      snapshot_rpc_in_bounds_def rpc_in_bounds_def list_all_iff
    by (auto simp: progress_ok_def)
qed

lemma verify_all_progress_ok:
  "\<forall>(peer, p) \<in> set ps. verify_progress n peer p = Inr () \<Longrightarrow> verify_all_progress n ps = Inr ()"
  by (induction ps) auto

lemma raft_inv_verify:
  assumes "raft_inv n"
  shows "verify_invariants n = Inr n"
proof -
  have l: "log_ok (rn_current_term n) (rn_log n)" using assms by (simp add: raft_inv_def)
  have li: "last_log_index n < u64_max" using l by (simp add: log_ok_def last_log_index_def)
  have len: "base_index n + length (rn_log n) < 2 ^ 64"
    using l li last_log_index_eq [OF l] by (cases "rn_log n") (auto simp: log_ok_def u64_max_def)
  have ne: "rn_log n \<noteq> []" using l by (simp add: log_ok_def)
  have b1: "add64 (base_index n) 1 = Suc (base_index n)" using len ne by (cases "rn_log n") auto
  have ord: "log_ordered (rn_current_term n) (Suc (base_index n)) (rn_log n)"
    using l len by (intro log_ordered_ok) (auto simp: log_ok_def base_index_def)
  have prog: "verify_all_progress n (rn_peer_progress n) = Inr ()" if leader: "rn_role n = Leader"
  proof (rule verify_all_progress_ok, clarify)
    fix peer p
    assume mem: "(peer, p) \<in> set (rn_peer_progress n)"
    have "progress_ok (last_log_index n) (rn_durable_snapshot n) (rn_next_rpc_id n) p"
      "peer \<in> set (cfg_voters (rn_config n)) - {self_id n}"
      using peers_okD [OF _ leader mem] assms by (auto simp: raft_inv_def)
    then show "verify_progress n peer p = Inr ()"
      using li by (intro verify_progress_ok) (auto simp: is_voter_def)
  qed
  have pl: "length (rn_peer_progress n) + 1 = length (cfg_voters (rn_config n))"
    if "rn_role n = Leader" using assms that by (intro peers_length) (auto simp: raft_inv_def)
  have snap: "\<not> (\<exists>snap \<in> set_option (rn_durable_snapshot n).
      s_index snap \<noteq> e_index (hd (rn_log n)) \<or> s_term snap \<noteq> e_term (hd (rn_log n)))"
    using assms by (auto simp: raft_inv_def snapshot_ok_def base_index_def snapshot_index_def snapshot_term_def)
  show ?thesis
    unfolding verify_invariants_def b1
    using assms l ord snap prog pl by (auto simp: raft_inv_def log_ok_def peers_ok_def)
qed

section \<open>Sending to peers\<close>

lemma raft_inv_actions [simp]: "raft_inv (n\<lparr>rn_actions := acts\<rparr>) = raft_inv n"
  by (simp add: raft_inv_def peers_ok_def snapshot_ok_def node_access)

lemma raft_inv_push_action [simp]: "raft_inv (push_action a n) = raft_inv n"
  by (simp add: push_action_def)

lemma progress_ok_mono:
  "progress_ok l snap rpc p \<Longrightarrow> l \<le> l' \<Longrightarrow> rpc \<le> rpc' \<Longrightarrow> progress_ok l' snap rpc' p"
  by (fastforce simp: progress_ok_def)

lemma set_update_subset: "set (AList.update k v al) \<subseteq> insert (k, v) (set al)"
  by (induction al) auto

lemma set_progress_inv:
  assumes "raft_inv n" and "rn_role n = Leader" and "peer \<in> set (cfg_voters (rn_config n))"
    and "peer \<noteq> self_id n" and "rn_next_rpc_id n \<le> rpc"
    and "progress_ok (last_log_index n) (rn_durable_snapshot n) rpc p"
  shows "raft_inv (set_progress peer p (n\<lparr>rn_next_rpc_id := rpc\<rparr>))"
proof -
  have "\<forall>(peer, q) \<in> set (AList.update peer p (rn_peer_progress n)).
      progress_ok (last_log_index n) (rn_durable_snapshot n) rpc q"
    using assms progress_ok_mono [OF _ order_refl assms(5)] set_update_subset [of peer p]
    by (fastforce simp: raft_inv_def peers_ok_def)
  moreover have "fst ` set (AList.update peer p (rn_peer_progress n)) = fst ` set (rn_peer_progress n)"
    using assms by (auto simp: dom_update raft_inv_def peers_ok_def)
  ultimately show ?thesis
    using assms by (simp add: raft_inv_def peers_ok_def snapshot_ok_def node_access distinct_update)
qed

lemma set_progress_inv':
  assumes "raft_inv n" and "rn_role n = Leader" and "peer \<in> set (cfg_voters (rn_config n))"
    and "peer \<noteq> self_id n"
    and "progress_ok (last_log_index n) (rn_durable_snapshot n) (rn_next_rpc_id n) p"
  shows "raft_inv (set_progress peer p n)"
  using set_progress_inv [OF assms(1-4) order_refl assms(5)] by simp

subsection \<open>What a leader sends\<close>

text \<open>
  A message of a leader tells the truth about the leader's state: its term and commit index, a piece
  of its log with the entry before it, or a piece of its snapshot.
\<close>

fun leader_message :: "RaftNode \<Rightarrow> Message \<Rightarrow> bool" where
  "leader_message n (Msg_AppendEntries a) \<longleftrightarrow>
     ae_term a = rn_current_term n \<and> ae_leader_id a = self_id n \<and>
     ae_leader_commit a = rn_commit_index n \<and>
     base_index n \<le> ae_previous_log_index a \<and> ae_previous_log_index a \<le> last_log_index n \<and>
     ae_previous_log_term a = e_term (rn_log n ! (ae_previous_log_index a - base_index n)) \<and>
     (\<exists>k. ae_entries a = take k (drop (Suc (ae_previous_log_index a - base_index n)) (rn_log n))) \<and>
     length (ae_entries a) \<le> cfg_max_append_entries (rn_config n) \<and>
     (length (ae_entries a) \<le> 1 \<or>
      (\<Sum>e \<leftarrow> ae_entries a. 24 + length (e_command e)) \<le> cfg_max_append_bytes (rn_config n))"
| "leader_message n (Msg_InstallSnapshot i) \<longleftrightarrow>
     is_term i = rn_current_term n \<and> is_leader_id i = self_id n \<and>
     (\<exists>s. rn_durable_snapshot n = Some s \<and> is_last_included_index i = s_index s \<and>
        is_last_included_term i = s_term s \<and> is_total_size i = length (s_state s) \<and>
        is_offset i + length (is_data i) \<le> length (s_state s) \<and>
        is_data i = subspan (is_offset i) (length (is_data i)) (s_state s) \<and>
        is_done i = (is_offset i + length (is_data i) = length (s_state s)) \<and>
        length (is_data i) \<le> kSnapshotChunkSize)"
| "leader_message n _ \<longleftrightarrow> False"

definition sent_from :: "RaftNode \<Rightarrow> RaftNode \<Rightarrow> bool" where
  "sent_from n n' \<longleftrightarrow>
     (\<exists>P R A. n' = n\<lparr>rn_peer_progress := P, rn_next_rpc_id := R, rn_actions := rn_actions n @ A\<rparr> \<and>
        (\<forall>a \<in> set A. \<exists>to m. a = SendMessage to m \<and> leader_message n m))"

lemma leader_message_cong:
  "rn_config n' = rn_config n \<Longrightarrow> rn_log n' = rn_log n \<Longrightarrow> rn_current_term n' = rn_current_term n \<Longrightarrow>
   rn_commit_index n' = rn_commit_index n \<Longrightarrow> rn_durable_snapshot n' = rn_durable_snapshot n \<Longrightarrow>
   leader_message n' m = leader_message n m"
  by (cases "(n, m)" rule: leader_message.cases) (auto simp: node_access)

lemma sent_from_refl: "sent_from n n"
  unfolding sent_from_def by (intro exI [of _ "rn_peer_progress n"] exI [of _ "rn_next_rpc_id n"] exI [of _ "[]"]) simp

lemma sent_from_trans:
  assumes "sent_from n n1" and "sent_from n1 n2"
  shows "sent_from n n2"
proof -
  obtain P R A where 1: "n1 = n\<lparr>rn_peer_progress := P, rn_next_rpc_id := R, rn_actions := rn_actions n @ A\<rparr>"
    "\<forall>a \<in> set A. \<exists>to m. a = SendMessage to m \<and> leader_message n m"
    using assms(1) by (auto simp: sent_from_def)
  obtain P' R' A' where 2: "n2 = n1\<lparr>rn_peer_progress := P', rn_next_rpc_id := R', rn_actions := rn_actions n1 @ A'\<rparr>"
    "\<forall>a \<in> set A'. \<exists>to m. a = SendMessage to m \<and> leader_message n1 m"
    using assms(2) by (auto simp: sent_from_def)
  have "leader_message n1 m = leader_message n m" for m
    using 1(1) by (intro leader_message_cong) auto
  then show ?thesis
    unfolding sent_from_def using 1 2
    by (intro exI [of _ P'] exI [of _ R'] exI [of _ "A @ A'"]) auto
qed

lemma sent_from_same:
  "sent_from n n' \<Longrightarrow> rn_config n' = rn_config n \<and> rn_log n' = rn_log n \<and> rn_role n' = rn_role n \<and>
   rn_current_term n' = rn_current_term n \<and> rn_commit_index n' = rn_commit_index n \<and>
   rn_voted_for n' = rn_voted_for n \<and> rn_durable_snapshot n' = rn_durable_snapshot n \<and>
   rn_last_applied n' = rn_last_applied n \<and> rn_leader_id n' = rn_leader_id n"
  by (auto simp: sent_from_def)

lemma collect_entries_prefix: "\<exists>k. collect_entries cfg xs acc b = acc @ take k xs"
proof (induction cfg xs acc b rule: collect_entries.induct)
  case (2 cfg e rest acc b)
  show ?case
  proof (cases "length acc < cfg_max_append_entries cfg \<and> \<not> (acc \<noteq> [] \<and>
      (b \<ge> cfg_max_append_bytes cfg \<or> 24 + length (e_command e) > cfg_max_append_bytes cfg - b))")
    case True
    then obtain k where "collect_entries cfg rest (acc @ [e]) (b + (24 + length (e_command e))) =
        (acc @ [e]) @ take k rest" using 2 by blast
    then show ?thesis using True by (intro exI [of _ "Suc k"]) auto
  next
    case False
    then show ?thesis by (intro exI [of _ 0]) auto
  qed
qed simp

lemma collect_entries_limits:
  assumes "length acc \<le> cfg_max_append_entries cfg" and "b = (\<Sum>e \<leftarrow> acc. 24 + length (e_command e))"
    and "length acc \<le> 1 \<or> b \<le> cfg_max_append_bytes cfg"
  shows "length (collect_entries cfg xs acc b) \<le> cfg_max_append_entries cfg \<and>
    (length (collect_entries cfg xs acc b) \<le> 1 \<or>
     (\<Sum>e \<leftarrow> collect_entries cfg xs acc b. 24 + length (e_command e)) \<le> cfg_max_append_bytes cfg)"
  using assms
proof (induction cfg xs acc b rule: collect_entries.induct)
  case (2 cfg e rest acc b)
  show ?case
  proof (cases "length acc < cfg_max_append_entries cfg \<and> \<not> (acc \<noteq> [] \<and>
      (b \<ge> cfg_max_append_bytes cfg \<or> 24 + length (e_command e) > cfg_max_append_bytes cfg - b))")
    case True
    then have "length (acc @ [e]) \<le> 1 \<or> b + (24 + length (e_command e)) \<le> cfg_max_append_bytes cfg"
      by auto
    then show ?thesis using 2(1) [OF True] 2(3) True by simp
  next
    case False
    then show ?thesis using 2 by auto
  qed
qed auto

lemma raft_invD:
  assumes "raft_inv n"
  shows "log_ok (rn_current_term n) (rn_log n)" "config_ok (rn_config n)" "last_log_index n < u64_max"
    "base_index n \<le> last_log_index n" "snapshot_ok n" "peers_ok n"
    "base_index n \<le> rn_commit_index n" "rn_commit_index n \<le> last_log_index n"
    "rn_last_applied n = rn_commit_index n"
  using assms by (auto simp: raft_inv_def log_ok_def last_log_index_def)

lemma add64_one: "i < u64_max \<Longrightarrow> add64 i 1 = Suc i"
  using less_u64_max [of i] by simp

lemma push_tracked_set: "set (push_tracked x xs) \<subseteq> insert x (set xs)"
  by (auto simp: push_tracked_def Let_def dest: list.set_sel(2) [rotated])

lemma length_push_tracked:
  "length xs \<le> kMaximumTrackedRpcsPerPeer \<Longrightarrow> length (push_tracked x xs) \<le> kMaximumTrackedRpcsPerPeer"
  by (simp add: push_tracked_def Let_def)

lemma sent_fromI:
  "leader_message n m \<Longrightarrow> sent_from n (push_action (SendMessage peer m)
     (set_progress peer p (n\<lparr>rn_next_rpc_id := R\<rparr>)))"
  unfolding sent_from_def
  by (intro exI [of _ "AList.update peer p (rn_peer_progress n)"] exI [of _ R] exI [of _ "[SendMessage peer m]"])
     (simp add: push_action_def set_progress_def)

definition sends_one :: "RaftNode \<Rightarrow> RaftNode \<Rightarrow> bool" where
  "sends_one n n' \<longleftrightarrow> raft_inv n' \<and> sent_from n n' \<and> rn_next_rpc_id n' = Suc (rn_next_rpc_id n)"

lemma send_entries_ok:
  assumes "raft_inv n" and "rn_role n = Leader" and "peer \<in> set (cfg_voters (rn_config n))"
    and "peer \<noteq> self_id n" and "rn_next_rpc_id n < u64_max"
    and "progress_ok (last_log_index n) (rn_durable_snapshot n) (rn_next_rpc_id n) p"
  shows "ok_to (sends_one n) (send_entries peer p n)"
proof -
  note inv = raft_invD [OF assms(1)]
  define q where "q = p\<lparr>pp_next_index := max (pp_next_index p) (Suc (base_index n))\<rparr>"
  define prev where "prev = pp_next_index q - 1"
  have next_q: "pp_next_index q = Suc prev" "base_index n \<le> prev" "prev \<le> last_log_index n"
    using inv(4) assms(6) by (auto simp: q_def prev_def progress_ok_def)
  define es where "es = collect_entries (rn_config n) (drop (Suc prev - base_index n) (rn_log n)) [] 0"
  obtain k where es: "es = take k (drop (Suc prev - base_index n) (rn_log n))"
    using collect_entries_prefix [of "rn_config n" "drop (Suc prev - base_index n) (rn_log n)" "[]" 0]
    by (auto simp: es_def)
  then have ex: "\<exists>k. es = take k (drop (Suc (prev - base_index n)) (rn_log n))"
    using next_q(2) by (metis Suc_diff_le)
  have lim: "length es \<le> cfg_max_append_entries (rn_config n) \<and> (length es \<le> 1 \<or>
      (\<Sum>e \<leftarrow> es. 24 + length (e_command e)) \<le> cfg_max_append_bytes (rn_config n))"
    unfolding es_def by (rule collect_entries_limits) simp_all
  note at = entry_at_ok [OF inv(1) next_q(2,3)]
  define li where "li = (if es = [] then prev else e_index (last es))"
  have li: "li \<le> last_log_index n"
  proof (cases "es = []")
    case False
    then have "last es \<in> set (rn_log n)" by (metis es in_set_dropD in_set_takeD last_in_set)
    then obtain i where "i < length (rn_log n)" "last es = rn_log n ! i" by (metis in_set_conv_nth)
    then show ?thesis
      using inv(1) last_log_index_eq [OF inv(1)] False
      by (auto simp: li_def log_ok_def base_index_def)
  qed (use next_q in \<open>simp add: li_def\<close>)
  define q' where "q' = q\<lparr>pp_newest_rpc_id := rn_next_rpc_id n, pp_newest_rpc_last_index := li,
      pp_recent_rpcs := push_tracked \<lparr>rr_rpc_id = rn_next_rpc_id n, rr_last_index = li\<rparr> (pp_recent_rpcs q)\<rparr>"
  have q': "progress_ok (last_log_index n) (rn_durable_snapshot n) (Suc (rn_next_rpc_id n)) q'"
    using assms(1,6) li next_q push_tracked_set
      [of "\<lparr>rr_rpc_id = rn_next_rpc_id n, rr_last_index = li\<rparr>" "pp_recent_rpcs p"]
    by (fastforce simp: progress_ok_def q'_def q_def length_push_tracked raft_inv_def)
  define msg where "msg = Msg_AppendEntries \<lparr>ae_term = rn_current_term n, ae_leader_id = self_id n,
      ae_previous_log_index = prev, ae_previous_log_term = e_term (rn_log n ! (prev - base_index n)),
      ae_entries = es, ae_leader_commit = rn_commit_index n, ae_rpc_id = rn_next_rpc_id n\<rparr>"
  have "leader_message n msg"
    unfolding msg_def leader_message.simps using next_q lim ex by simp
  moreover have "add64 (base_index n) 1 = Suc (base_index n)" using inv(3,4) by (intro add64_one) simp
  moreover have "add64 (rn_next_rpc_id n) 1 = Suc (rn_next_rpc_id n)" using assms(5) by (rule add64_one)
  ultimately have "send_entries peer p n = Inr (push_action (SendMessage peer msg)
      (set_progress peer q' (n\<lparr>rn_next_rpc_id := Suc (rn_next_rpc_id n)\<rparr>)))"
    using at(1) unfolding send_entries_def Let_def msg_def
    by (simp only: q_def [symmetric] prev_def [symmetric] next_q(1) bindE_simps
        es_def [symmetric] li_def [symmetric] q'_def [symmetric] set_progress_simps diff_Suc_1) simp
  then show ?thesis
    using \<open>leader_message n msg\<close> set_progress_inv [OF assms(1-4) _ q']
    by (simp add: sends_one_def sent_fromI)
qed


lemma progress_ok_restart:
  "progress_ok l (Some snap) rpc p \<Longrightarrow> progress_ok l (Some snap) rpc
     (p\<lparr>pp_snapshot_index := s_index snap, pp_snapshot_offset := 0, pp_recent_snapshot_rpcs := []\<rparr>)"
  by (simp add: progress_ok_def)

lemma progress_ok_chunk:
  assumes "progress_ok l (Some snap) rpc p" and "0 < rpc" and "sr_rpc_id r = rpc"
    and "sr_snapshot_index r = s_index snap" and "pp_snapshot_index p = s_index snap"
    and "sr_offset r = off" and "off \<le> sr_end r" and "sr_end r \<le> length (s_state snap)"
  shows "progress_ok l (Some snap) (Suc rpc) (p\<lparr>pp_snapshot_offset := off, pp_newest_rpc_id := rpc,
    pp_recent_snapshot_rpcs := push_tracked r (pp_recent_snapshot_rpcs p)\<rparr>)"
proof -
  have "\<forall>r' \<in> set (push_tracked r (pp_recent_snapshot_rpcs p)). sr_rpc_id r' \<noteq> 0 \<and> sr_rpc_id r' \<le> rpc \<and>
      sr_snapshot_index r' = s_index snap \<and> sr_offset r' \<le> sr_end r' \<and> sr_end r' \<le> length (s_state snap)"
    using assms push_tracked_set [of r "pp_recent_snapshot_rpcs p"] by (fastforce simp: progress_ok_def)
  moreover have "\<forall>r' \<in> set (pp_recent_rpcs p). rr_rpc_id r' \<le> rpc"
    using assms(1) by (fastforce simp: progress_ok_def)
  ultimately show ?thesis
    using assms by (simp add: progress_ok_def length_push_tracked)
qed

lemma send_snapshot_chunk_ok:
  assumes "raft_inv n" and "rn_role n = Leader" and "peer \<in> set (cfg_voters (rn_config n))"
    and "peer \<noteq> self_id n" and "rn_next_rpc_id n < u64_max" and "rn_durable_snapshot n = Some snap"
    and "progress_ok (last_log_index n) (rn_durable_snapshot n) (rn_next_rpc_id n) p"
  shows "sends_one n (send_snapshot_chunk peer snap p n)"
proof -
  define q where "q = (if pp_snapshot_index p \<noteq> s_index snap
    then p\<lparr>pp_snapshot_index := s_index snap, pp_snapshot_offset := 0, pp_recent_snapshot_rpcs := []\<rparr> else p)"
  define off where "off = min (pp_snapshot_offset q) (length (s_state snap))"
  define chunk where "chunk = min (length (s_state snap) - off) kSnapshotChunkSize"
  define r where "r = \<lparr>sr_rpc_id = rn_next_rpc_id n, sr_snapshot_index = s_index snap, sr_offset = off,
    sr_end = off + chunk\<rparr>"
  define q' where "q' = q\<lparr>pp_snapshot_offset := off, pp_newest_rpc_id := rn_next_rpc_id n,
    pp_recent_snapshot_rpcs := push_tracked r (pp_recent_snapshot_rpcs q)\<rparr>"
  have q: "progress_ok (last_log_index n) (Some snap) (rn_next_rpc_id n) q" "pp_snapshot_index q = s_index snap"
    using progress_ok_restart [of "last_log_index n" snap] assms(6,7) by (simp_all add: q_def)
  have b: "off \<le> length (s_state snap)" "off + chunk \<le> length (s_state snap)" "0 < rn_next_rpc_id n"
    using assms(1) by (auto simp: off_def chunk_def raft_inv_def)
  have q': "progress_ok (last_log_index n) (rn_durable_snapshot n) (Suc (rn_next_rpc_id n)) q'"
    unfolding q'_def assms(6) using b by (intro progress_ok_chunk q) (simp_all add: r_def)
  define msg where "msg = Msg_InstallSnapshot \<lparr>is_term = rn_current_term n, is_leader_id = self_id n,
      is_last_included_index = s_index snap, is_last_included_term = s_term snap,
      is_total_size = length (s_state snap), is_offset = off, is_data = subspan off chunk (s_state snap),
      is_done = (chunk = length (s_state snap) - off), is_rpc_id = rn_next_rpc_id n\<rparr>"
  have "length (subspan off chunk (s_state snap)) = chunk" using b by simp
  then have "leader_message n msg"
    unfolding msg_def leader_message.simps using b assms(6) by (auto simp: chunk_def)
  moreover have "send_snapshot_chunk peer snap p n = push_action (SendMessage peer msg)
      (set_progress peer q' (n\<lparr>rn_next_rpc_id := Suc (rn_next_rpc_id n)\<rparr>))"
    unfolding send_snapshot_chunk_def Let_def msg_def add64_one [OF assms(5)]
    by (simp add: q_def [symmetric] off_def [symmetric] chunk_def [symmetric] q'_def r_def)
  ultimately show ?thesis
    using set_progress_inv [OF assms(1-4) _ q'] by (simp add: sends_one_def sent_fromI)
qed

lemma progress_at_ok:
  assumes "raft_inv n" and "rn_role n = Leader" and "peer \<in> set (cfg_voters (rn_config n))"
    and "peer \<noteq> self_id n"
  obtains p where "progress_at peer n = Inr p" "map_of (rn_peer_progress n) peer = Some p"
    "progress_ok (last_log_index n) (rn_durable_snapshot n) (rn_next_rpc_id n) p"
proof -
  have "peer \<in> fst ` set (rn_peer_progress n)"
    using assms by (auto simp: raft_inv_def peers_ok_def)
  then obtain p where p: "map_of (rn_peer_progress n) peer = Some p"
    by (metis domIff dom_map_of_conv_image_fst option.exhaust)
  with that show ?thesis
    using peers_okD(1) [OF _ assms(2) map_of_SomeD [OF p]] assms(1)
    by (simp add: progress_at_def raft_inv_def)
qed

lemma send_append_entries_ok:
  assumes "raft_inv n" and "rn_role n = Leader" and "peer \<in> set (cfg_voters (rn_config n))"
    and "peer \<noteq> self_id n" and "rn_next_rpc_id n < u64_max"
  shows "ok_to (sends_one n) (send_append_entries peer n)"
proof -
  obtain p where p: "progress_at peer n = Inr p"
    "progress_ok (last_log_index n) (rn_durable_snapshot n) (rn_next_rpc_id n) p"
    by (rule progress_at_ok [OF assms(1-4)])
  have "pp_next_index p \<le> add64 (last_log_index n) 1"
    using p(2) add64_one [OF raft_invD(3) [OF assms(1)]] by (simp add: progress_ok_def)
  then show ?thesis
    using p(1) send_entries_ok [OF assms p(2)] send_snapshot_chunk_ok [OF assms _ p(2)]
    by (simp add: send_append_entries_def min_absorb1 split: option.split)
qed

definition sends :: "nat \<Rightarrow> RaftNode \<Rightarrow> RaftNode \<Rightarrow> bool" where
  "sends k n n' \<longleftrightarrow> raft_inv n' \<and> sent_from n n' \<and> rn_next_rpc_id n' \<le> rn_next_rpc_id n + k"

lemma sends_0: "raft_inv n \<Longrightarrow> sends k n n"
  by (simp add: sends_def sent_from_refl)

lemma broadcast_to_ok:
  assumes "raft_inv n" and "rn_role n = Leader" and "set voters \<subseteq> set (cfg_voters (rn_config n))"
    and "rn_next_rpc_id n + length voters \<le> u64_max"
  shows "ok_to (sends (length voters) n) (broadcast_to voters n)"
  using assms
proof (induction voters arbitrary: n)
  case Nil
  then show ?case by (simp add: sends_0)
next
  case (Cons v vs)
  show ?case
  proof (cases "v = self_id n")
    case True
    then show ?thesis using Cons.IH [of n] Cons.prems by (auto simp: sends_def ok_to_iff)
  next
    case False
    then obtain n1 where n1: "send_append_entries v n = Inr n1" "sends_one n n1"
      using send_append_entries_ok [of n v] Cons.prems by (auto simp: ok_to_iff)
    have "ok_to (sends (length vs) n1) (broadcast_to vs n1)"
      using n1(2) Cons.prems sent_from_same [of n n1] by (intro Cons.IH) (simp_all add: sends_one_def)
    then obtain n2 where "broadcast_to vs n1 = Inr n2" "sends (length vs) n1 n2"
      by (auto simp: ok_to_iff)
    then show ?thesis
      using n1 False sent_from_trans [of n n1 n2] by (simp add: sends_def sends_one_def)
  qed
qed

lemma broadcast_ok:
  assumes "raft_inv n" and "rn_role n = Leader"
    and "rn_next_rpc_id n + length (cfg_voters (rn_config n)) \<le> u64_max"
  shows "ok_to (sends (length (cfg_voters (rn_config n))) n) (broadcast_append_entries n)"
  unfolding broadcast_append_entries_def using assms by (intro broadcast_to_ok) auto

end
