(* ===== verification/Raft_Calls.thy ===== *)
theory Raft_Calls
  imports Raft_Inv
begin

text \<open>
  What a call of a Raft node does, seen from outside, as one relation between the node before and
  after: the invariant holds, terms, votes and the commit index only move forward, committed entries
  stay, the persist actions turn the old persistent state into the new one, the apply actions move the
  state machine forward entry by entry, and every message tells the truth about the node. This theory
  proves it for elections, votes, local appends and commits.
\<close>

section \<open>What a call does, seen from outside\<close>

subsection \<open>Persistence\<close>

text \<open>The part of a node that a restart recovers, and the effect of the persist actions on it.\<close>

definition persistent_of :: "RaftNode \<Rightarrow> RaftPersistentState" where
  "persistent_of n = \<lparr>ps_current_term = rn_current_term n, ps_voted_for = rn_voted_for n,
     ps_snapshot = rn_durable_snapshot n, ps_log = tl (rn_log n)\<rparr>"

definition retained_log :: "StateMachineSnapshot \<Rightarrow> RaftPersistentState \<Rightarrow> LogEntry list" where
  "retained_log snap p =
     (let base = snapshot_index (ps_snapshot p) in
      if s_index snap \<le> base + length (ps_log p) \<and>
         e_term (ps_log p ! (s_index snap - base - 1)) = s_term snap
      then drop (s_index snap - base) (ps_log p) else [])"

fun persist :: "Action \<Rightarrow> RaftPersistentState \<Rightarrow> RaftPersistentState" where
  "persist (PersistHardState term vote) p = p\<lparr>ps_current_term := term, ps_voted_for := vote\<rparr>"
| "persist (PersistLog from_index entries) p =
     (if entries = [] then p
      else p\<lparr>ps_log := take (from_index - snapshot_index (ps_snapshot p) - 1) (ps_log p) @ entries\<rparr>)"
| "persist (PersistSnapshot snap) p = p\<lparr>ps_snapshot := Some snap, ps_log := retained_log snap p\<rparr>"
| "persist _ p = p"

subsection \<open>Application\<close>

text \<open>The index the state machine has reached, or None when an action is not the next one to apply.\<close>

fun apply_index :: "Action \<Rightarrow> LogIndex option \<Rightarrow> LogIndex option" where
  "apply_index (ApplyEntry e) (Some i) = (if e_index e = Suc i then Some (Suc i) else None)"
| "apply_index (ApplySnapshot s) (Some i) = (if i < s_index s then Some (s_index s) else None)"
| "apply_index _ r = r"

definition log_entry :: "RaftNode \<Rightarrow> LogIndex \<Rightarrow> LogEntry option" where
  "log_entry n i = (if base_index n < i \<and> i \<le> last_log_index n
     then Some (rn_log n ! (i - base_index n)) else None)"

definition effect :: "RaftNode \<Rightarrow> Actions \<Rightarrow> RaftNode \<Rightarrow> bool" where
  "effect n A n' \<longleftrightarrow>
     rn_actions n' = rn_actions n @ A \<and> fold persist A (persistent_of n) = persistent_of n' \<and>
     fold apply_index A (Some (rn_last_applied n)) = Some (rn_last_applied n') \<and>
     (\<forall>e. ApplyEntry e \<in> set A \<longrightarrow> e_index e \<le> rn_commit_index n' \<and>
        (base_index n' < e_index e \<longrightarrow> log_entry n' (e_index e) = Some e))"

subsection \<open>What never changes\<close>

definition kept :: "RaftNode \<Rightarrow> RaftNode \<Rightarrow> bool" where
  "kept n n' \<longleftrightarrow>
     rn_config n' = rn_config n \<and> rn_current_term n \<le> rn_current_term n' \<and>
     (rn_current_term n' = rn_current_term n \<and> rn_voted_for n \<noteq> None \<longrightarrow> rn_voted_for n' = rn_voted_for n) \<and>
     rn_commit_index n \<le> rn_commit_index n' \<and> base_index n \<le> base_index n' \<and>
     (\<forall>i. base_index n' < i \<and> i \<le> rn_commit_index n \<longrightarrow> log_entry n' i = log_entry n i)"

text \<open>
  A persistent state that a restart may find: it belongs to a well-formed node of the same cluster,
  and its term and vote are not behind those of \<open>n\<close>.
\<close>

definition hard_kept :: "RaftPersistentState \<Rightarrow> RaftPersistentState \<Rightarrow> bool" where
  "hard_kept p p' \<longleftrightarrow> ps_current_term p \<le> ps_current_term p' \<and>
     (ps_current_term p' = ps_current_term p \<and> ps_voted_for p \<noteq> None \<longrightarrow> ps_voted_for p' = ps_voted_for p)"

definition safe_point :: "RaftNode \<Rightarrow> RaftPersistentState \<Rightarrow> bool" where
  "safe_point n p \<longleftrightarrow> hard_kept (persistent_of n) p \<and>
     (\<exists>m. raft_inv m \<and> rn_config m = rn_config n \<and> persistent_of m = p)"

definition trace :: "RaftNode \<Rightarrow> Actions \<Rightarrow> RaftNode \<Rightarrow> bool" where
  "trace n A n' \<longleftrightarrow> effect n A n' \<and> (\<forall>k. safe_point n (fold persist (take k A) (persistent_of n)))"

text \<open>What the messages of a node say of its state when the call returns.\<close>

fun honest :: "RaftNode \<Rightarrow> NodeId \<Rightarrow> Message \<Rightarrow> bool" where
  "honest n to (Msg_RequestVote m) \<longleftrightarrow>
     rv_term m = rn_current_term n \<and> rv_candidate_id m = self_id n \<and> rn_voted_for n = Some (self_id n) \<and>
     rv_last_log_index m = last_log_index n \<and> rv_last_log_term m = last_log_term n"
| "honest n to (Msg_RequestVoteResponse m) \<longleftrightarrow>
     rvr_term m = rn_current_term n \<and> (rvr_vote_granted m \<longrightarrow> rn_voted_for n = Some to)"
| "honest n to (Msg_AppendEntriesResponse m) \<longleftrightarrow>
     aer_term m = rn_current_term n \<and> (aer_success m \<longrightarrow> aer_match_index m \<le> last_log_index n)"
| "honest n to (Msg_InstallSnapshotResponse m) \<longleftrightarrow> isr_term m = rn_current_term n"
| "honest n to m \<longleftrightarrow> rn_role n = Leader \<and> leader_message n m"

definition quiet :: "RaftNode \<Rightarrow> RaftNode \<Rightarrow> bool" where
  "quiet n n' \<longleftrightarrow> raft_inv n' \<and> kept n n' \<and> rn_next_rpc_id n' = rn_next_rpc_id n \<and>
     (\<exists>A. trace n A n' \<and> (\<forall>to m. SendMessage to m \<notin> set A))"

definition evolves :: "RaftNode \<Rightarrow> RaftNode \<Rightarrow> bool" where
  "evolves n n' \<longleftrightarrow> raft_inv n' \<and> kept n n' \<and>
     (\<exists>A B. trace n (A @ B) n' \<and> (\<forall>to m. SendMessage to m \<notin> set A) \<and>
        (\<forall>a \<in> set B. \<exists>to m. a = SendMessage to m \<and> honest n' to m))"

lemma kept_refl [simp]: "kept n n"
  by (simp add: kept_def)

lemma kept_trans: "kept n n1 \<Longrightarrow> kept n1 n2 \<Longrightarrow> kept n n2"
  unfolding kept_def by (auto simp: le_antisym) 

lemma hard_kept_trans: "hard_kept p p1 \<Longrightarrow> hard_kept p1 p2 \<Longrightarrow> hard_kept p p2"
  by (auto simp: hard_kept_def)

lemma kept_hard: "kept n n' \<Longrightarrow> hard_kept (persistent_of n) (persistent_of n')"
  by (simp add: kept_def hard_kept_def persistent_of_def)

lemma safe_point_node: "raft_inv n' \<Longrightarrow> kept n n' \<Longrightarrow> safe_point n (persistent_of n')"
  unfolding safe_point_def using kept_hard [of n n'] by (auto simp: kept_def)

lemma safe_point_trans:
  assumes "kept n n1" and "safe_point n1 p"
  shows "safe_point n p"
  using assms hard_kept_trans [OF kept_hard [OF assms(1)]] by (auto simp: safe_point_def kept_def)

fun durable :: "Action \<Rightarrow> bool" where
  "durable (PersistHardState _ _) \<longleftrightarrow> True"
| "durable (PersistLog _ _) \<longleftrightarrow> True"
| "durable (PersistSnapshot _) \<longleftrightarrow> True"
| "durable _ \<longleftrightarrow> False"

lemma persist_not_durable: "\<not> durable a \<Longrightarrow> persist a p = p"
  by (cases a) auto

lemma fold_persist_none: "filter durable A = [] \<Longrightarrow> fold persist A p = p"
  by (induction A) (auto simp: persist_not_durable split: if_splits)

lemma fold_persist_one:
  assumes "length (filter durable A) \<le> 1"
  shows "fold persist (take k A) p = p \<or> fold persist (take k A) p = fold persist A p"
  using assms
proof (induction A arbitrary: k p)
  case (Cons a A)
  show ?case
  proof (cases "durable a")
    case True
    then have none: "filter durable A = []" using Cons.prems by auto
    then have "filter durable (take (k - 1) A) = []" by (auto simp: filter_empty_conv dest: in_set_takeD)
    then show ?thesis using none by (cases k) (simp_all add: fold_persist_none)
  next
    case False
    then show ?thesis using Cons by (cases k) (auto simp: persist_not_durable)
  qed
qed simp

lemma traceI:
  assumes "effect n A n'" and "raft_inv n" and "raft_inv n'" and "kept n n'" and "length (filter durable A) \<le> 1"
  shows "trace n A n'"
proof -
  have "fold persist (take k A) (persistent_of n) = persistent_of n \<or>
      fold persist (take k A) (persistent_of n) = persistent_of n'" for k
    using fold_persist_one [OF assms(5), of k "persistent_of n"] assms(1) by (simp add: effect_def)
  then show ?thesis
    using assms(1) safe_point_node [OF assms(3,4)] safe_point_node [OF assms(2) kept_refl]
    unfolding trace_def by metis
qed

lemma trace_silent:
  assumes "effect n A n'" and "filter durable A = []" and "raft_inv n'" and "kept n n'"
  shows "trace n A n'"
proof -
  have "persistent_of n = persistent_of n'" using assms(1,2) by (simp add: effect_def fold_persist_none)
  moreover have "filter durable (take k A) = []" for k
    using assms(2) by (auto simp: filter_empty_conv dest: in_set_takeD)
  ultimately show ?thesis
    using assms(1) safe_point_node [OF assms(3,4)] by (simp add: trace_def fold_persist_none)
qed

lemma trace_Nil: "raft_inv n \<Longrightarrow> trace n [] n"
  by (rule trace_silent) (simp_all add: effect_def)

lemma trace_append:
  assumes "trace n A n1" and "trace n1 B n2" and "kept n n1" and "kept n1 n2"
  shows "trace n (A @ B) n2"
proof -
  have p1: "fold persist A (persistent_of n) = persistent_of n1" using assms(1) by (simp add: trace_def effect_def)
  have "safe_point n (fold persist (take k (A @ B)) (persistent_of n))" for k
  proof (cases "k \<le> length A")
    case True
    then show ?thesis using assms(1) by (simp add: trace_def)
  next
    case False
    then show ?thesis using assms(2) p1 safe_point_trans [OF assms(3)] by (simp add: trace_def)
  qed
  moreover have "effect n (A @ B) n2"
    using assms by (fastforce simp: trace_def effect_def kept_def)
  ultimately show ?thesis by (simp add: trace_def)
qed

lemma fold_sends:
  assumes "\<forall>a \<in> set A. \<exists>to m. a = SendMessage to m"
  shows "fold persist A p = p" and "fold apply_index A r = r" and "filter durable A = []"
  using assms by (induction A arbitrary: p r) auto

lemma quiet_refl: "raft_inv n \<Longrightarrow> quiet n n"
  unfolding quiet_def by (intro conjI exI [of _ "[]"] trace_Nil) simp_all

lemma quiet_evolves: "quiet n n' \<Longrightarrow> evolves n n'"
  unfolding quiet_def evolves_def by (metis append_Nil2 empty_iff list.set(1))

lemma quiet_trans:
  assumes "quiet n n1" and "quiet n1 n2"
  shows "quiet n n2"
proof -
  obtain A B where "trace n A n1" "\<forall>to m. SendMessage to m \<notin> set A" "trace n1 B n2"
      "\<forall>to m. SendMessage to m \<notin> set B" "kept n n1" "kept n1 n2"
    using assms by (auto simp: quiet_def)
  then have "trace n (A @ B) n2" "\<forall>to m. SendMessage to m \<notin> set (A @ B)" "kept n n2"
    by (auto intro: trace_append kept_trans)
  then show ?thesis using assms unfolding quiet_def by fastforce
qed

lemma quiet_then_evolves:
  assumes "quiet n n1" and "evolves n1 n2"
  shows "evolves n n2"
proof -
  obtain A where A: "trace n A n1" "\<forall>to m. SendMessage to m \<notin> set A" "kept n n1"
    using assms(1) by (auto simp: quiet_def)
  obtain B C where B: "trace n1 (B @ C) n2" "\<forall>to m. SendMessage to m \<notin> set B" "kept n1 n2" "raft_inv n2"
      "\<forall>a \<in> set C. \<exists>to m. a = SendMessage to m \<and> honest n2 to m"
    using assms(2) by (auto simp: evolves_def)
  have "trace n ((A @ B) @ C) n2" using trace_append [OF A(1) B(1) A(3) B(3)] by simp
  then show ?thesis
    unfolding evolves_def using A B kept_trans [OF A(3) B(3)]
    by (intro conjI exI [of _ "A @ B"] exI [of _ C]) auto
qed

lemma honest_cong:
  assumes "rn_config n' = rn_config n" "rn_role n' = rn_role n" "rn_log n' = rn_log n"
    "rn_current_term n' = rn_current_term n" "rn_voted_for n' = rn_voted_for n"
    "rn_commit_index n' = rn_commit_index n" "rn_durable_snapshot n' = rn_durable_snapshot n"
  shows "honest n' to m = honest n to m"
  using leader_message_cong [OF assms(1,3,4,6,7)] assms
  by (cases "(n, to, m)" rule: honest.cases) (auto simp: node_access)

subsection \<open>Composing what a call does\<close>

lemma quietI:
  "raft_inv n \<Longrightarrow> raft_inv n' \<Longrightarrow> kept n n' \<Longrightarrow> rn_next_rpc_id n' = rn_next_rpc_id n \<Longrightarrow> effect n A n' \<Longrightarrow>
   length (filter durable A) \<le> 1 \<Longrightarrow> \<forall>to m. SendMessage to m \<notin> set A \<Longrightarrow> quiet n n'"
  unfolding quiet_def by (intro conjI exI [of _ A] traceI) simp_all

lemma kept_same_log:
  "rn_config n' = rn_config n \<Longrightarrow> rn_log n' = rn_log n \<Longrightarrow> rn_current_term n \<le> rn_current_term n' \<Longrightarrow>
   rn_current_term n' = rn_current_term n \<and> rn_voted_for n \<noteq> None \<longrightarrow> rn_voted_for n' = rn_voted_for n \<Longrightarrow>
   rn_commit_index n \<le> rn_commit_index n' \<Longrightarrow> kept n n'"
  by (simp add: kept_def log_entry_def node_access)

lemma quiet_silent:
  assumes "raft_inv n'" and "rn_config n' = rn_config n" and "rn_log n' = rn_log n"
    and "rn_current_term n' = rn_current_term n" and "rn_voted_for n' = rn_voted_for n"
    and "rn_commit_index n' = rn_commit_index n" and "rn_last_applied n' = rn_last_applied n"
    and "rn_durable_snapshot n' = rn_durable_snapshot n" and "rn_next_rpc_id n' = rn_next_rpc_id n"
    and "rn_actions n' = rn_actions n"
  shows "quiet n n'"
proof -
  have k: "kept n n'" using assms by (intro kept_same_log) simp_all
  have "effect n [] n'" using assms by (simp add: effect_def persistent_of_def)
  then have "trace n [] n'" using assms(1) k by (intro trace_silent) simp_all
  then show ?thesis unfolding quiet_def using assms(1,9) k by (auto intro!: exI [of _ "[]"])
qed

text \<open>Actions that are neither messages nor durable.\<close>

fun neutral :: "Action \<Rightarrow> bool" where
  "neutral (RoleChanged _ _ _ _) \<longleftrightarrow> True"
| "neutral (CommitAdvanced _ _) \<longleftrightarrow> True"
| "neutral (ProposalRejected _) \<longleftrightarrow> True"
| "neutral _ \<longleftrightarrow> False"

lemma neutral_simps [simp]: "neutral a \<Longrightarrow> persist a p = p" "neutral a \<Longrightarrow> apply_index a r = r"
  by (cases a; simp)+

lemma neutral_not_durable: "neutral a \<Longrightarrow> \<not> durable a"
  by (cases a) auto

lemma kept_push [simp]: "kept n (push_action a n') = kept n n'" "kept (push_action a n) n' = kept n n'"
  by (simp_all add: kept_def log_entry_def)

lemma persistent_of_push [simp]: "persistent_of (push_action a n) = persistent_of n"
  by (simp add: persistent_of_def)

lemma log_entry_push [simp]: "log_entry (push_action a n) = log_entry n"
  by (simp add: log_entry_def fun_eq_iff)

lemma trace_push:
  assumes "trace n A n'" and "neutral a \<or> (\<exists>to m. a = SendMessage to m)" and "raft_inv n'" and "kept n n'"
  shows "trace n (A @ [a]) (push_action a n')"
proof (rule trace_append [OF assms(1) _ assms(4)])
  show "trace n' [a] (push_action a n')"
    using assms(2,3) by (intro trace_silent) (auto simp: effect_def neutral_not_durable)
qed simp

lemma quiet_push:
  assumes "neutral a" and "quiet n n'"
  shows "quiet n (push_action a n')"
proof -
  obtain A where "trace n A n'" "\<forall>to m. SendMessage to m \<notin> set A" using assms(2) by (auto simp: quiet_def)
  then show ?thesis
    unfolding quiet_def using assms
    by (intro conjI exI [of _ "A @ [a]"] trace_push) (auto simp: quiet_def)
qed

lemma honest_push [simp]: "honest (push_action a n) to m = honest n to m"
  by (rule honest_cong) simp_all

lemma quiet_send:
  assumes "quiet n n'" and "honest n' to m"
  shows "evolves n (push_action (SendMessage to m) n')"
proof -
  obtain A where "trace n A n'" "\<forall>to m. SendMessage to m \<notin> set A" using assms(1) by (auto simp: quiet_def)
  then show ?thesis
    unfolding evolves_def using assms
    by (intro conjI exI [of _ A] exI [of _ "[SendMessage to m]"] trace_push) (auto simp: quiet_def)
qed

lemma sent_from_evolves:
  assumes "raft_inv n'" and "sent_from n n'" and "rn_role n = Leader"
  shows "evolves n n'"
proof -
  obtain P R A where n': "n' = n\<lparr>rn_peer_progress := P, rn_next_rpc_id := R, rn_actions := rn_actions n @ A\<rparr>"
    and A: "\<forall>a \<in> set A. \<exists>to m. a = SendMessage to m \<and> leader_message n m"
    using assms(2) by (auto simp: sent_from_def)
  have "honest n' to m" if "SendMessage to m \<in> set A" for to m
  proof -
    have "leader_message n m" using that A by blast
    moreover have "honest n' to m = honest n to m" unfolding n' by (rule honest_cong) simp_all
    ultimately show ?thesis using assms(3) by (cases m) simp_all
  qed
  moreover have "\<forall>a \<in> set A. \<exists>to m. a = SendMessage to m" using A by blast
  then have "effect n A n'" "filter durable A = []"
    using A by (auto simp: effect_def n' persistent_of_def fold_sends)
  moreover have k: "kept n n'" unfolding n' by (rule kept_same_log) simp_all
  ultimately show ?thesis
    unfolding evolves_def using A assms(1)
    by (intro conjI exI [of _ "[]"] exI [of _ A]) (auto intro: trace_silent)
qed

lemma quiet_sends: "quiet n n1 \<Longrightarrow> sends k n1 n2 \<Longrightarrow> rn_role n1 = Leader \<Longrightarrow> evolves n n2"
  by (rule quiet_then_evolves) (auto simp: sends_def intro: sent_from_evolves)

subsection \<open>Becoming a follower\<close>

lemma reset_election_deadline_simps [simp]:
  "rn_config (reset_election_deadline n) = rn_config n"
  "rn_role (reset_election_deadline n) = rn_role n"
  "rn_current_term (reset_election_deadline n) = rn_current_term n"
  "rn_voted_for (reset_election_deadline n) = rn_voted_for n"
  "rn_leader_id (reset_election_deadline n) = rn_leader_id n"
  "rn_durable_snapshot (reset_election_deadline n) = rn_durable_snapshot n"
  "rn_log (reset_election_deadline n) = rn_log n"
  "rn_commit_index (reset_election_deadline n) = rn_commit_index n"
  "rn_last_applied (reset_election_deadline n) = rn_last_applied n"
  "rn_now (reset_election_deadline n) = rn_now n"
  "rn_heartbeat_deadline (reset_election_deadline n) = rn_heartbeat_deadline n"
  "rn_votes_received (reset_election_deadline n) = rn_votes_received n"
  "rn_peer_progress (reset_election_deadline n) = rn_peer_progress n"
  "rn_incoming_snapshot (reset_election_deadline n) = rn_incoming_snapshot n"
  "rn_next_rpc_id (reset_election_deadline n) = rn_next_rpc_id n"
  "rn_actions (reset_election_deadline n) = rn_actions n"
  by (simp_all add: reset_election_deadline_def Let_def)

lemma reset_election_deadline_access [simp]:
  "last_log_index (reset_election_deadline n) = last_log_index n"
  "base_index (reset_election_deadline n) = base_index n"
  "last_log_term (reset_election_deadline n) = last_log_term n"
  "is_voter v (reset_election_deadline n) = is_voter v n"
  by (simp_all add: node_access)

lemma raft_inv_cong:
  assumes "rn_config n' = rn_config n" "rn_role n' = rn_role n" "rn_current_term n' = rn_current_term n"
    "rn_voted_for n' = rn_voted_for n" "rn_leader_id n' = rn_leader_id n"
    "rn_durable_snapshot n' = rn_durable_snapshot n" "rn_log n' = rn_log n"
    "rn_commit_index n' = rn_commit_index n" "rn_last_applied n' = rn_last_applied n"
    "rn_votes_received n' = rn_votes_received n" "rn_peer_progress n' = rn_peer_progress n"
    "rn_next_rpc_id n' = rn_next_rpc_id n"
  shows "raft_inv n' = raft_inv n"
  using assms by (simp add: raft_inv_def peers_ok_def snapshot_ok_def node_access)

lemma raft_inv_reset [simp]: "raft_inv (reset_election_deadline n) = raft_inv n"
  by (rule raft_inv_cong) simp_all

definition as_follower :: "Term \<Rightarrow> NodeId option \<Rightarrow> RaftNode \<Rightarrow> RaftNode \<Rightarrow> bool" where
  "as_follower term leader n n' \<longleftrightarrow> rn_role n' = Follower \<and> rn_current_term n' = max term (rn_current_term n) \<and>
     rn_log n' = rn_log n \<and> rn_commit_index n' = rn_commit_index n \<and> rn_last_applied n' = rn_last_applied n \<and>
     rn_durable_snapshot n' = rn_durable_snapshot n \<and> rn_leader_id n' = leader \<and> rn_votes_received n' = []"

lemma follower_inv:
  assumes "raft_inv n" and "rn_current_term n \<le> T" and "T \<le> u64_max"
    and "v = (if T = rn_current_term n then rn_voted_for n else None)"
    and "\<forall>l. leader = Some l \<longrightarrow> is_voter l n"
  shows "raft_inv (n\<lparr>rn_current_term := T, rn_voted_for := v, rn_role := Follower, rn_leader_id := leader,
    rn_votes_received := [], rn_peer_progress := []\<rparr>)"
  using assms log_ok_mono [of "rn_current_term n" "rn_log n" T]
  by (auto simp: raft_inv_def peers_ok_def snapshot_ok_def node_access)

lemma become_follower_quiet:
  assumes "raft_inv n" and "term \<le> u64_max" and "\<forall>l. leader = Some l \<longrightarrow> is_voter l n"
  shows "quiet n (become_follower term leader n)" and "as_follower term leader n (become_follower term leader n)"
proof -
  define T where "T = max term (rn_current_term n)"
  define v where "v = (if T = rn_current_term n then rn_voted_for n else None)"
  define n1 where "n1 = reset_election_deadline (n\<lparr>rn_current_term := T, rn_voted_for := v, rn_role := Follower,
    rn_leader_id := leader, rn_votes_received := [], rn_peer_progress := []\<rparr>)"
  define A where "A = (if rn_role n \<noteq> Follower then [RoleChanged (rn_role n) Follower T leader] else []) @
    (if term > rn_current_term n then [PersistHardState T v] else [])"
  have eq: "become_follower term leader n = n1\<lparr>rn_actions := rn_actions n @ A\<rparr>"
    by (auto simp: become_follower_def Let_def n1_def A_def T_def v_def push_action_def
        reset_election_deadline_def max_def)
  have "T \<le> u64_max" using assms(1,2) by (auto simp: T_def raft_inv_def)
  then have inv: "raft_inv n1"
    unfolding n1_def using assms by (simp, intro follower_inv) (auto simp: T_def v_def)
  have "kept n (n1\<lparr>rn_actions := rn_actions n @ A\<rparr>)"
    by (rule kept_same_log) (auto simp: n1_def v_def T_def)
  moreover have "effect n A (n1\<lparr>rn_actions := rn_actions n @ A\<rparr>)"
    by (auto simp: effect_def persistent_of_def A_def n1_def v_def T_def max_def)
  ultimately show "quiet n (become_follower term leader n)"
    unfolding eq using inv assms(1) by (intro quietI) (auto simp: n1_def A_def)
  show "as_follower term leader n (become_follower term leader n)"
    unfolding eq by (simp add: as_follower_def n1_def T_def)
qed

subsection \<open>Appending and committing\<close>

definition same_but_log :: "RaftNode \<Rightarrow> RaftNode \<Rightarrow> bool" where
  "same_but_log n n' \<longleftrightarrow> rn_role n' = rn_role n \<and> rn_config n' = rn_config n \<and>
     rn_current_term n' = rn_current_term n \<and> rn_voted_for n' = rn_voted_for n \<and>
     rn_leader_id n' = rn_leader_id n \<and> rn_next_rpc_id n' = rn_next_rpc_id n \<and>
     rn_peer_progress n' = rn_peer_progress n \<and> rn_durable_snapshot n' = rn_durable_snapshot n"

lemma peers_ok_longer:
  assumes "peers_ok n" and "rn_role n' = rn_role n" and "rn_leader_id n' = rn_leader_id n"
    and "rn_config n' = rn_config n" and "rn_peer_progress n' = rn_peer_progress n"
    and "rn_durable_snapshot n' = rn_durable_snapshot n" and "rn_next_rpc_id n' = rn_next_rpc_id n"
    and "last_log_index n \<le> last_log_index n'"
  shows "peers_ok n'"
  using assms progress_ok_mono [OF _ assms(8) order_refl] by (fastforce simp: peers_ok_def)

lemma raft_inv_longer:
  assumes "raft_inv n" and "log_ok (rn_current_term n) (rn_log n @ es)"
  shows "raft_inv (n\<lparr>rn_log := rn_log n @ es\<rparr>)"
proof -
  have ne: "rn_log n \<noteq> []" using assms(1) by (simp add: raft_inv_def log_ok_def)
  have "last_log_index n \<le> last_log_index (n\<lparr>rn_log := rn_log n @ es\<rparr>)"
    using last_log_index_eq [OF raft_invD(1) [OF assms(1)]] assms(2) ne
      last_log_index_eq [of "rn_current_term n" "n\<lparr>rn_log := rn_log n @ es\<rparr>"]
    by (simp add: base_index_def)
  moreover have "peers_ok n" using assms(1) by (simp add: raft_inv_def)
  ultimately have "peers_ok (n\<lparr>rn_log := rn_log n @ es\<rparr>)"
    using peers_ok_longer [of n "n\<lparr>rn_log := rn_log n @ es\<rparr>"] by simp
  then show ?thesis
    using assms ne \<open>last_log_index n \<le> _\<close>
    by (auto simp: raft_inv_def snapshot_ok_def base_index_def is_voter_def)
qed

lemma append_local_entry_quiet:
  assumes "raft_inv n" and "rn_role n = Leader" and "last_log_index n + 1 < u64_max"
  shows "quiet n (append_local_entry kind command n)"
    and "same_but_log n (append_local_entry kind command n)"
    and "last_log_index (append_local_entry kind command n) = Suc (last_log_index n)"
    and "rn_commit_index (append_local_entry kind command n) = rn_commit_index n"
proof -
  define e where "e = \<lparr>e_index = Suc (last_log_index n), e_term = rn_current_term n, e_kind = kind,
    e_command = command\<rparr>"
  note inv = raft_invD [OF assms(1)]
  have eq: "append_local_entry kind command n =
      push_action (PersistLog (Suc (last_log_index n)) [e]) (n\<lparr>rn_log := rn_log n @ [e]\<rparr>)"
    using add64_one [OF inv(3)] by (simp add: append_local_entry_def Let_def e_def)
  have ne: "rn_log n \<noteq> []" and t: "0 < rn_current_term n"
    using assms(1,2) by (auto simp: raft_inv_def log_ok_def)
  have "log_ok (rn_current_term n) (rn_log n @ [e])"
    using inv(1) assms(3) t ne by (intro log_ok_append) (auto simp: e_def last_log_index_def log_ok_def)
  then have ri: "raft_inv (n\<lparr>rn_log := rn_log n @ [e]\<rparr>)" by (rule raft_inv_longer [OF assms(1)])
  have len: "length (tl (rn_log n)) = last_log_index n - base_index n"
    using last_log_index_eq [OF inv(1)] by simp
  have "snapshot_index (rn_durable_snapshot n) = base_index n" using inv(5) by (simp add: snapshot_ok_def)
  then have "persist (PersistLog (Suc (last_log_index n)) [e]) (persistent_of n) =
      persistent_of (n\<lparr>rn_log := rn_log n @ [e]\<rparr>)"
    using len ne by (simp add: persistent_of_def)
  then have "effect n [PersistLog (Suc (last_log_index n)) [e]] (append_local_entry kind command n)"
    unfolding eq effect_def by simp
  moreover have "log_entry (n\<lparr>rn_log := rn_log n @ [e]\<rparr>) i = log_entry n i" if "i \<le> rn_commit_index n" for i
    using that inv(4,8) ne last_log_index_eq [OF inv(1)]
    by (auto simp: log_entry_def base_index_def nth_append last_log_index_def e_def)
  then have "kept n (append_local_entry kind command n)"
    unfolding eq using ne by (simp add: kept_def base_index_def)
  ultimately show "quiet n (append_local_entry kind command n)"
    unfolding eq using ri assms(1) by (intro quietI) auto
  show "same_but_log n (append_local_entry kind command n)"
    unfolding eq by (simp add: same_but_log_def)
  show "last_log_index (append_local_entry kind command n) = Suc (last_log_index n)"
    unfolding eq by (simp add: last_log_index_def e_def)
  show "rn_commit_index (append_local_entry kind command n) = rn_commit_index n"
    unfolding eq by simp
qed

definition entries_to :: "RaftNode \<Rightarrow> LogIndex \<Rightarrow> LogIndex \<Rightarrow> LogEntry list" where
  "entries_to n i j = map (\<lambda>k. rn_log n ! (k - base_index n)) [Suc i..<Suc j]"

lemma entries_to_Nil [simp]: "j \<le> i \<Longrightarrow> entries_to n i j = []"
  by (simp add: entries_to_def)

lemma entries_to_Cons: "i < j \<Longrightarrow> entries_to n i j = rn_log n ! (Suc i - base_index n) # entries_to n (Suc i) j"
  by (simp add: entries_to_def upt_conv_Cons del: upt_Suc)

lemma log_cong:
  assumes "rn_log n' = rn_log n"
  shows "entry_at i n' = entry_at i n" and "log_entry n' = log_entry n" and "base_index n' = base_index n"
    and "last_log_index n' = last_log_index n" and "last_log_term n' = last_log_term n"
    and "entries_to n' i j = entries_to n i j"
  using assms by (simp_all add: entry_at_def log_entry_def entries_to_def node_access fun_eq_iff)

lemma apply_committed_eq:
  assumes "log_ok T (rn_log n)" and "base_index n \<le> rn_last_applied n"
    and "rn_last_applied n \<le> rn_commit_index n" and "rn_commit_index n \<le> last_log_index n"
  shows "apply_committed n = Inr (n\<lparr>rn_last_applied := rn_commit_index n, rn_actions := rn_actions n @
    map ApplyEntry (entries_to n (rn_last_applied n) (rn_commit_index n))\<rparr>)"
  using assms
proof (induction "rn_commit_index n - rn_last_applied n" arbitrary: n)
  case 0
  then show ?case by (subst apply_committed.simps) simp
next
  case (Suc k)
  let ?m = "push_action (ApplyEntry (rn_log n ! (Suc (rn_last_applied n) - base_index n)))
    (n\<lparr>rn_last_applied := Suc (rn_last_applied n)\<rparr>)"
  have lt: "rn_last_applied n < rn_commit_index n" using Suc.hyps(2) by simp
  have "entry_at (Suc (rn_last_applied n)) (n\<lparr>rn_last_applied := Suc (rn_last_applied n)\<rparr>) =
      Inr (rn_log n ! (Suc (rn_last_applied n) - base_index n))"
    using entry_at_ok(1) [of T n "Suc (rn_last_applied n)"] lt Suc.prems
    by (simp add: log_cong(1) [of "n\<lparr>rn_last_applied := _\<rparr>" n])
  then have "apply_committed n = apply_committed ?m"
    using lt by (subst apply_committed.simps) simp
  also have "\<dots> = Inr (?m\<lparr>rn_last_applied := rn_commit_index ?m, rn_actions := rn_actions ?m @
      map ApplyEntry (entries_to ?m (rn_last_applied ?m) (rn_commit_index ?m))\<rparr>)"
    using Suc lt by (intro Suc.hyps(1)) (auto simp: node_access)
  finally show ?case
    using lt by (simp add: entries_to_Cons log_cong(6) [of ?m n])
qed

lemma fold_apply_entries:
  assumes "\<forall>k. i < k \<and> k \<le> j \<longrightarrow> e_index (rn_log n ! (k - base_index n)) = k" and "i \<le> j"
  shows "fold apply_index (map ApplyEntry (entries_to n i j)) (Some i) = Some j"
  using assms
proof (induction "j - i" arbitrary: i)
  case (Suc k)
  then show ?case by (auto simp: entries_to_Cons)
qed simp

lemma fold_persist_entries: "fold persist (map ApplyEntry es) p = p"
  by (induction es) auto

definition commits :: "LogIndex \<Rightarrow> RaftNode \<Rightarrow> RaftNode \<Rightarrow> bool" where
  "commits c n n' \<longleftrightarrow> n' = n\<lparr>rn_commit_index := c, rn_last_applied := c, rn_actions := rn_actions n @
     CommitAdvanced (rn_commit_index n) c # map ApplyEntry (entries_to n (rn_commit_index n) c)\<rparr>"

lemma raft_inv_commit:
  assumes "raft_inv n" and "base_index n \<le> c" and "c \<le> last_log_index n"
  shows "raft_inv (n\<lparr>rn_commit_index := c, rn_last_applied := c\<rparr>)"
proof -
  let ?n' = "n\<lparr>rn_commit_index := c, rn_last_applied := c\<rparr>"
  note lc = log_cong(3,4) [of ?n' n]
  have "peers_ok ?n'" using raft_invD(6) [OF assms(1)] peers_ok_longer [of n ?n'] lc by simp
  then show ?thesis using assms lc by (simp add: raft_inv_def snapshot_ok_def is_voter_def)
qed

lemma commit_to_ok:
  assumes "raft_inv n" and "rn_commit_index n < c" and "c \<le> last_log_index n"
  shows "ok_to (\<lambda>n'. commits c n n' \<and> quiet n n') (commit_to c n)"
proof -
  note inv = raft_invD [OF assms(1)]
  let ?A = "CommitAdvanced (rn_commit_index n) c # map ApplyEntry (entries_to n (rn_commit_index n) c)"
  let ?n' = "n\<lparr>rn_commit_index := c, rn_last_applied := c, rn_actions := rn_actions n @ ?A\<rparr>"
  have eq: "commit_to c n = Inr ?n'"
    unfolding commit_to_def using inv assms(2,3)
    by (subst apply_committed_eq) (auto simp: node_access entries_to_def)
  have ix: "\<forall>k. rn_commit_index n < k \<and> k \<le> c \<longrightarrow> e_index (rn_log n ! (k - base_index n)) = k"
    using entry_at_ok(3) [OF inv(1)] inv(7) assms(3) by auto
  have "fold apply_index ?A (Some (rn_last_applied n)) = Some c"
    using fold_apply_entries [OF ix] assms(2) inv(9) by simp
  moreover have "\<forall>e. ApplyEntry e \<in> set ?A \<longrightarrow> e_index e \<le> c \<and>
      (base_index n < e_index e \<longrightarrow> log_entry n (e_index e) = Some e)"
    using ix assms(3) by (auto simp: entries_to_def log_entry_def)
  ultimately have "effect n ?A ?n'"
    by (simp add: effect_def fold_persist_entries persistent_of_def log_cong(2,3) [of ?n' n])
  moreover have "raft_inv ?n'"
    using raft_inv_commit [OF assms(1) _ assms(3)] assms(2) inv(7) raft_inv_actions
      [of "rn_actions n @ ?A" "n\<lparr>rn_commit_index := c, rn_last_applied := c\<rparr>"] by simp
  moreover have "kept n ?n'" using assms(2) by (intro kept_same_log) auto
  ultimately show ?thesis
    unfolding eq by (auto simp: commits_def intro!: quietI [where A = ?A] assms(1))
qed

lemma replicated_cong: "rn_peer_progress n' = rn_peer_progress n \<Longrightarrow> replicated i n' = replicated i n"
  by (simp add: replicated_def)

text \<open>The leader advances its commit index only to an entry of its own term that a quorum stores.\<close>

definition leader_commits :: "RaftNode \<Rightarrow> bool \<times> RaftNode \<Rightarrow> bool" where
  "leader_commits n r \<longleftrightarrow>
     (case r of (advanced, n') \<Rightarrow> quiet n n' \<and>
        (if advanced then (\<exists>c. rn_commit_index n < c \<and> c \<le> last_log_index n \<and> commits c n n' \<and>
             e_term (rn_log n ! (c - base_index n)) = rn_current_term n \<and> quorum n \<le> replicated c n)
         else n' = n))"

lemma leader_commit_from_ok:
  assumes "raft_inv n" and "i \<le> last_log_index n"
  shows "ok_to (leader_commits n) (leader_commit_from i n)"
  using assms(2)
proof (induction i)
  case 0
  then show ?case using assms(1) by (simp add: leader_commits_def quiet_refl)
next
  case (Suc i)
  show ?case
  proof (cases "rn_commit_index n < Suc i")
    case True
    then have at: "entry_at (Suc i) n = Inr (rn_log n ! (Suc i - base_index n))"
      using Suc.prems raft_invD [OF assms(1)] by (intro entry_at_ok(1)) auto
    obtain n' where "commit_to (Suc i) n = Inr n'" "commits (Suc i) n n'" "quiet n n'"
      using commit_to_ok [OF assms(1) True Suc.prems] by (auto simp: ok_to_iff)
    then show ?thesis
      using True at Suc by (auto simp: leader_commits_def)
  next
    case False
    then show ?thesis using assms(1) by (simp add: leader_commits_def quiet_refl)
  qed
qed

lemma advance_leader_commit_ok: "raft_inv n \<Longrightarrow> ok_to (leader_commits n) (advance_leader_commit n)"
  unfolding advance_leader_commit_def by (rule leader_commit_from_ok) simp_all

lemma commits_same: "commits c n n' \<Longrightarrow> same_but_log n n' \<and> rn_log n' = rn_log n \<and> rn_commit_index n' = c"
  by (simp add: commits_def same_but_log_def)

lemma leader_commits_same:
  "leader_commits n (advanced, n') \<Longrightarrow> quiet n n' \<and> same_but_log n n' \<and> rn_log n' = rn_log n"
  by (auto simp: leader_commits_def same_but_log_def dest: commits_same split: if_splits)

lemma advance_follower_commit_ok:
  assumes "raft_inv n"
  shows "ok_to (\<lambda>n'. quiet n n' \<and> same_but_log n n' \<and> rn_log n' = rn_log n \<and>
    rn_commit_index n' = max (rn_commit_index n) (min c (last_log_index n))) (advance_follower_commit c n)"
proof (cases "min c (last_log_index n) \<le> rn_commit_index n")
  case True
  then show ?thesis
    using assms by (auto simp: advance_follower_commit_def quiet_refl same_but_log_def Let_def)
next
  case False
  then have "ok_to (\<lambda>n'. commits (min c (last_log_index n)) n n' \<and> quiet n n') (commit_to (min c (last_log_index n)) n)"
    by (intro commit_to_ok assms) auto
  then show ?thesis
    using False by (auto simp: advance_follower_commit_def Let_def ok_to_iff dest: commits_same)
qed

subsection \<open>Elections\<close>

definition room :: "RaftNode \<Rightarrow> bool" where
  "room n \<longleftrightarrow> last_log_index n + 1 < u64_max \<and>
     rn_next_rpc_id n + length (cfg_voters (rn_config n)) \<le> u64_max"

lemma same_but_log_trans: "same_but_log n n1 \<Longrightarrow> same_but_log n1 n2 \<Longrightarrow> same_but_log n n2"
  by (simp add: same_but_log_def)

lemma quiet_inv: "quiet n n' \<Longrightarrow> raft_inv n'"
  by (simp add: quiet_def)

lemma append_and_broadcast_ok:
  assumes "raft_inv n" and "rn_role n = Leader" and "room n"
  shows "ok_to (\<lambda>n'. evolves n n' \<and> rn_role n' = Leader \<and> rn_current_term n' = rn_current_term n)
    (bindE (advance_leader_commit (append_local_entry kind command n)) (\<lambda>(_, n). broadcast_append_entries n))"
proof -
  let ?n1 = "append_local_entry kind command n"
  have room: "last_log_index n + 1 < u64_max" "rn_next_rpc_id n + length (cfg_voters (rn_config n)) \<le> u64_max"
    using assms(3) by (simp_all add: room_def)
  note ap = append_local_entry_quiet [OF assms(1,2) room(1), of kind command]
  obtain b n2 where n2: "advance_leader_commit ?n1 = Inr (b, n2)" "quiet ?n1 n2" "same_but_log ?n1 n2"
    using advance_leader_commit_ok [OF quiet_inv [OF ap(1)]] leader_commits_same
    by (fastforce simp: ok_to_iff)
  have q: "quiet n n2" "same_but_log n n2"
    using quiet_trans [OF ap(1) n2(2)] same_but_log_trans [OF ap(2) n2(3)] by simp_all
  then have leader: "rn_role n2 = Leader" "rn_config n2 = rn_config n" "rn_next_rpc_id n2 = rn_next_rpc_id n"
    "rn_current_term n2 = rn_current_term n"
    using assms(2) by (simp_all add: same_but_log_def)
  obtain n3 where n3: "broadcast_append_entries n2 = Inr n3" "sends (length (cfg_voters (rn_config n2))) n2 n3"
    using broadcast_ok [OF quiet_inv [OF q(1)] leader(1)] room(2) leader by (auto simp: ok_to_iff)
  then show ?thesis
    using n2(1) quiet_sends [OF q(1) n3(2) leader(1)] sent_from_same [of n2 n3] leader
    by (auto simp: sends_def)
qed

lemma new_progress_ok: "0 < rpc \<Longrightarrow> progress_ok l snap rpc (new_progress (Suc l))"
  by (simp add: progress_ok_def new_progress_def)

lemma leader_inv:
  assumes "raft_inv n" and "rn_voted_for n = Some (self_id n)"
  shows "raft_inv (n\<lparr>rn_role := Leader, rn_leader_id := Some (self_id n), rn_votes_received := [],
    rn_peer_progress := map (\<lambda>voter. (voter, new_progress (Suc (last_log_index n))))
      (filter (\<lambda>voter. voter \<noteq> self_id n) (cfg_voters (rn_config n))), rn_heartbeat_deadline := h\<rparr>)"
    (is "raft_inv ?n'")
proof -
  have "0 < rn_next_rpc_id n" using assms(1) by (simp add: raft_inv_def)
  then have "peers_ok ?n'"
    using config_okD(1) [OF raft_invD(2) [OF assms(1)]] new_progress_ok [of "rn_next_rpc_id n"]
    by (auto simp: peers_ok_def log_cong(4) [of ?n' n] comp_def image_image)
  then show ?thesis
    using assms config_okD(2) [OF raft_invD(2) [OF assms(1)]] log_cong(3,4) [of ?n' n]
    by (simp add: raft_inv_def snapshot_ok_def is_voter_def)
qed

lemma become_leader_ok:
  assumes "raft_inv n" and "rn_voted_for n = Some (self_id n)" and "room n"
  shows "ok_to (\<lambda>n'. evolves n n' \<and> rn_role n' = Leader \<and> rn_current_term n' = rn_current_term n) (become_leader n)"
proof -
  define n1 where "n1 = n\<lparr>rn_role := Leader, rn_leader_id := Some (self_id n), rn_votes_received := [],
    rn_peer_progress := map (\<lambda>voter. (voter, new_progress (Suc (last_log_index n))))
      (filter (\<lambda>voter. voter \<noteq> self_id n) (cfg_voters (rn_config n))),
    rn_heartbeat_deadline := saturating_add (rn_now n) (cfg_heartbeat_interval (rn_config n))\<rparr>"
  define n2 where "n2 = push_action (RoleChanged (rn_role n) Leader (rn_current_term n) (Some (self_id n))) n1"
  have "raft_inv n1" unfolding n1_def by (rule leader_inv [OF assms(1,2)])
  then have "quiet n n1" by (rule quiet_silent) (simp_all add: n1_def)
  then have q: "quiet n n2" unfolding n2_def by (rule quiet_push [rotated]) simp
  have f: "rn_role n2 = Leader" "rn_current_term n2 = rn_current_term n" "rn_config n2 = rn_config n"
    "rn_next_rpc_id n2 = rn_next_rpc_id n" "last_log_index n2 = last_log_index n"
    using log_cong(4) [of n1 n] by (simp_all add: n2_def n1_def)
  then have "room n2" using assms(3) by (simp add: room_def)
  then have "ok_to (\<lambda>n'. evolves n2 n' \<and> rn_role n' = Leader \<and> rn_current_term n' = rn_current_term n)
      (bindE (advance_leader_commit (append_local_entry No_op [] n2)) (\<lambda>(_, n). broadcast_append_entries n))"
    using append_and_broadcast_ok [OF quiet_inv [OF q] f(1), of No_op "[]"] f(2) by simp
  moreover have "become_leader n =
      bindE (advance_leader_commit (append_local_entry No_op [] n2)) (\<lambda>(_, n). broadcast_append_entries n)"
    using add64_one [OF raft_invD(3) [OF assms(1)]] by (simp add: become_leader_def Let_def n2_def n1_def)
  ultimately show ?thesis
    using quiet_then_evolves [OF q] by (auto intro: ok_to_mono)
qed

lemma quiet_send_all:
  assumes "quiet n n'" and "\<forall>v \<in> set vs. honest n' v m"
  shows "evolves n (n'\<lparr>rn_actions := rn_actions n' @ map (\<lambda>v. SendMessage v m) vs\<rparr>)" (is "evolves n ?n2")
proof -
  obtain A where A: "trace n A n'" "\<forall>to m. SendMessage to m \<notin> set A" using assms(1) by (auto simp: quiet_def)
  have "effect n' (map (\<lambda>v. SendMessage v m) vs) ?n2"
    by (auto simp: effect_def persistent_of_def fold_sends)
  moreover have k: "kept n' ?n2" by (rule kept_same_log) simp_all
  ultimately have "trace n' (map (\<lambda>v. SendMessage v m) vs) ?n2"
    using quiet_inv [OF assms(1)] by (intro trace_silent) (auto simp: filter_empty_conv)
  then have "trace n (A @ map (\<lambda>v. SendMessage v m) vs) ?n2"
    using trace_append [OF A(1) _ _ k] assms(1) by (simp add: quiet_def)
  moreover have "honest ?n2 v m = honest n' v m" for v by (rule honest_cong) simp_all
  ultimately show ?thesis
    unfolding evolves_def using assms A(2) kept_trans [OF _ k]
    by (intro conjI exI [of _ A] exI [of _ "map (\<lambda>v. SendMessage v m) vs"]) (auto simp: quiet_def)
qed

definition candidate :: "RaftNode \<Rightarrow> RaftNode" where
  "candidate n = reset_election_deadline (n\<lparr>rn_current_term := Suc (rn_current_term n), rn_role := Candidate,
     rn_leader_id := None, rn_voted_for := Some (self_id n), rn_votes_received := [self_id n]\<rparr>)"

lemma candidate_inv:
  assumes "raft_inv n" and "rn_role n \<noteq> Leader" and "rn_current_term n < u64_max"
  shows "raft_inv (candidate n)"
proof -
  have "rn_peer_progress n = []" using raft_invD(6) [OF assms(1)] assms(2) by (simp add: peers_ok_def)
  then have "peers_ok (candidate n)" by (simp add: peers_ok_def candidate_def)
  then show ?thesis
    using assms config_okD(2) [OF raft_invD(2) [OF assms(1)]] log_cong(3,4) [of "candidate n" n]
      log_ok_mono [of "rn_current_term n" "rn_log n" "Suc (rn_current_term n)"]
    by (simp add: raft_inv_def snapshot_ok_def is_voter_def candidate_def)
qed

text \<open>A new candidate before it asks for votes, with its term and vote made durable.\<close>

definition announced :: "RaftNode \<Rightarrow> RaftNode" where
  "announced n = (candidate n)\<lparr>rn_actions := rn_actions n @
     (if rn_role n \<noteq> Candidate then [RoleChanged (rn_role n) Candidate (Suc (rn_current_term n)) None] else []) @
     [PersistHardState (Suc (rn_current_term n)) (Some (self_id n))]\<rparr>"

lemma announced_quiet:
  assumes "raft_inv n" and "rn_role n \<noteq> Leader" and "rn_current_term n < u64_max"
  shows "quiet n (announced n)"
proof -
  let ?A = "(if rn_role n \<noteq> Candidate then [RoleChanged (rn_role n) Candidate (Suc (rn_current_term n)) None] else []) @
     [PersistHardState (Suc (rn_current_term n)) (Some (self_id n))]"
  have "effect n ?A (announced n)"
    by (auto simp: effect_def announced_def candidate_def persistent_of_def)
  moreover have "kept n (announced n)" by (rule kept_same_log) (simp_all add: announced_def candidate_def)
  ultimately show ?thesis
    using candidate_inv [OF assms] assms(1)
    by (intro quietI) (auto simp: announced_def candidate_def)
qed

lemma only_voter:
  assumes "config_ok cfg" and "length (cfg_voters cfg) div 2 = 0"
  shows "cfg_voters cfg = [cfg_self_id cfg]"
  using assms config_okD(2,5) [OF assms(1)]
  by (cases "cfg_voters cfg" rule: remdups_adj.cases) auto

definition elected_or_candidate :: "RaftNode \<Rightarrow> RaftNode \<Rightarrow> bool" where
  "elected_or_candidate n n' \<longleftrightarrow> evolves n n' \<and> rn_current_term n' = Suc (rn_current_term n) \<and>
     (if length (cfg_voters (rn_config n)) = 1 then rn_role n' = Leader
      else rn_role n' = Candidate \<and> rn_votes_received n' = [self_id n])"

lemma start_election_eq:
  assumes "rn_current_term n < u64_max"
  shows "start_election n =
    (let m = (announced n)\<lparr>rn_actions := rn_actions (announced n) @ map (\<lambda>voter. SendMessage voter (Msg_RequestVote
        \<lparr>rv_term = Suc (rn_current_term n), rv_candidate_id = self_id n, rv_last_log_index = last_log_index n,
         rv_last_log_term = last_log_term n\<rparr>)) (filter (\<lambda>voter. voter \<noteq> self_id n) (cfg_voters (rn_config n)))\<rparr>
     in if 1 \<ge> quorum n then become_leader m else Inr m)"
  using assms unfolding start_election_def announced_def candidate_def reset_election_deadline_def Let_def
  by (cases "rn_role n = Candidate") (simp_all add: node_access)

lemma start_election_ok:
  assumes "raft_inv n" and "rn_role n \<noteq> Leader" and "rn_current_term n < u64_max" and "room n"
  shows "ok_to (elected_or_candidate n) (start_election n)"
proof -
  let ?rv = "Msg_RequestVote \<lparr>rv_term = Suc (rn_current_term n), rv_candidate_id = self_id n,
     rv_last_log_index = last_log_index n, rv_last_log_term = last_log_term n\<rparr>"
  let ?m = "(announced n)\<lparr>rn_actions := rn_actions (announced n) @ map (\<lambda>voter. SendMessage voter ?rv)
     (filter (\<lambda>voter. voter \<noteq> self_id n) (cfg_voters (rn_config n)))\<rparr>"
  note q = announced_quiet [OF assms(1-3)]
  have f: "rn_role (announced n) = Candidate" "rn_current_term (announced n) = Suc (rn_current_term n)"
    "rn_voted_for (announced n) = Some (self_id n)" "rn_config (announced n) = rn_config n"
    "rn_votes_received (announced n) = [self_id n]" "rn_log (announced n) = rn_log n"
    "rn_next_rpc_id (announced n) = rn_next_rpc_id n"
    by (simp_all add: announced_def candidate_def)
  note lc = log_cong(4,5) [of "announced n" n, OF f(6)]
  show ?thesis
  proof (cases "length (cfg_voters (rn_config n)) div 2 = 0")
    case True
    then have v: "cfg_voters (rn_config n) = [self_id n]"
      using only_voter [OF raft_invD(2) [OF assms(1)]] by simp
    have "ok_to (\<lambda>n'. evolves (announced n) n' \<and> rn_role n' = Leader \<and>
        rn_current_term n' = Suc (rn_current_term n)) (become_leader (announced n))"
      using become_leader_ok [OF quiet_inv [OF q]] f lc assms(4) by (simp add: room_def)
    then show ?thesis
      using v quiet_then_evolves [OF q] by (auto simp: start_election_eq [OF assms(3)] quorum_def
          elected_or_candidate_def elim!: ok_to_mono)
  next
    case False
    then have "\<not> 1 \<ge> quorum n" "length (cfg_voters (rn_config n)) \<noteq> 1" by (auto simp: quorum_def)
    moreover have "evolves n ?m" using f lc by (intro quiet_send_all q) simp
    ultimately show ?thesis
      using f by (simp add: start_election_eq [OF assms(3)] elected_or_candidate_def)
  qed
qed

lemma start_election_exhausted:
  "rn_current_term n = u64_max \<Longrightarrow> start_election n = Inl (overflow_error ''Raft term space exhausted'')"
  by (simp add: start_election_def)

subsection \<open>Votes\<close>

lemma grant_quiet:
  assumes "raft_inv n" and "rn_role n = Follower" and "rn_voted_for n = None" and "is_voter from n"
    and "0 < rn_current_term n"
  shows "quiet n (push_action (PersistHardState (rn_current_term n) (Some from)) (n\<lparr>rn_voted_for := Some from\<rparr>))"
    (is "quiet n ?n'")
proof (rule quietI [where A = "[PersistHardState (rn_current_term n) (Some from)]"])
  have "peers_ok (n\<lparr>rn_voted_for := Some from\<rparr>)"
    using raft_invD(6) [OF assms(1)] by (simp add: peers_ok_def assms(2))
  then have "raft_inv (n\<lparr>rn_voted_for := Some from\<rparr>)"
    using assms log_cong(3,4) [of "n\<lparr>rn_voted_for := Some from\<rparr>" n]
    by (simp add: raft_inv_def snapshot_ok_def is_voter_def)
  then show "raft_inv ?n'" by simp
  show "kept n ?n'" using assms(3) by (simp add: kept_same_log)
  show "effect n [PersistHardState (rn_current_term n) (Some from)] ?n'"
    by (simp add: effect_def persistent_of_def)
qed (simp_all add: assms(1))

lemma quiet_reset:
  assumes "quiet n n'"
  shows "quiet n (reset_election_deadline n')"
  using assms quiet_inv [OF assms]
  by (intro quiet_trans [OF assms quiet_silent]) simp_all

lemma handle_request_vote_ok:
  assumes "raft_inv n" and "is_voter from n" and "from \<noteq> self_id n"
  shows "evolves n (handle_request_vote from m n)"
    and "rn_role (handle_request_vote from m n) = rn_role n"
    and "rn_votes_received (handle_request_vote from m n) = rn_votes_received n"
    and "rn_current_term (handle_request_vote from m n) = rn_current_term n"
proof -
  define grant where "grant \<longleftrightarrow> rv_term m \<noteq> 0 \<and> rv_term m = rn_current_term n \<and> rv_candidate_id m = from \<and>
    (rn_voted_for n = None \<or> rn_voted_for n = Some from) \<and>
    (rv_last_log_term m > last_log_term n \<or>
     rv_last_log_term m = last_log_term n \<and> rv_last_log_index m \<ge> last_log_index n)"
  define n1 where "n1 = (if grant \<and> rn_voted_for n \<noteq> Some from
    then push_action (PersistHardState (rn_current_term n) (Some from)) (n\<lparr>rn_voted_for := Some from\<rparr>) else n)"
  define n2 where "n2 = (if grant then reset_election_deadline n1 else n1)"
  have "rn_role n = Follower" if "grant"
    using that assms(1,3) by (cases "rn_role n = Follower") (auto simp: grant_def raft_inv_def)
  then have "quiet n n1"
    using grant_quiet [OF assms(1) _ _ assms(2)] quiet_refl [OF assms(1)]
    by (auto simp: n1_def grant_def)
  then have q: "quiet n n2" by (simp add: n2_def quiet_reset)
  have f: "rn_current_term n2 = rn_current_term n" "grant \<Longrightarrow> rn_voted_for n2 = Some from"
    "rn_role n2 = rn_role n" "rn_votes_received n2 = rn_votes_received n"
    by (auto simp: n2_def n1_def grant_def)
  have eq: "handle_request_vote from m n = push_action (SendMessage from (Msg_RequestVoteResponse
      \<lparr>rvr_term = rn_current_term n, rvr_vote_granted = grant\<rparr>)) n2"
    unfolding handle_request_vote_def Let_def grant_def [symmetric] n1_def [symmetric] n2_def [symmetric] f(1) ..
  show "evolves n (handle_request_vote from m n)"
    unfolding eq using f by (intro quiet_send q) simp
  show "rn_role (handle_request_vote from m n) = rn_role n"
    "rn_votes_received (handle_request_vote from m n) = rn_votes_received n"
    "rn_current_term (handle_request_vote from m n) = rn_current_term n"
    unfolding eq using f by simp_all
qed

definition counts_vote :: "NodeId \<Rightarrow> RequestVoteResponse \<Rightarrow> RaftNode \<Rightarrow> RaftNode \<Rightarrow> bool" where
  "counts_vote from m n n' \<longleftrightarrow> evolves n n' \<and> rn_current_term n' = rn_current_term n \<and>
     (if rn_role n = Candidate \<and> rvr_term m = rn_current_term n \<and> rvr_vote_granted m
      then (if quorum n \<le> length (List.insert from (rn_votes_received n)) then rn_role n' = Leader
            else rn_role n' = Candidate \<and> rn_votes_received n' = List.insert from (rn_votes_received n))
      else n' = n)"

lemma handle_request_vote_response_ok:
  assumes "raft_inv n" and "is_voter from n" and "room n"
  shows "ok_to (counts_vote from m n) (handle_request_vote_response from m n)"
proof (cases "rn_role n = Candidate \<and> rvr_term m = rn_current_term n \<and> rvr_vote_granted m")
  case True
  let ?n1 = "n\<lparr>rn_votes_received := List.insert from (rn_votes_received n)\<rparr>"
  note lc = log_cong(3,4) [of ?n1 n]
  have "peers_ok ?n1" using raft_invD(6) [OF assms(1)] True by (simp add: peers_ok_def)
  then have inv: "raft_inv ?n1"
    using assms(1,2) lc by (auto simp: raft_inv_def snapshot_ok_def is_voter_def)
  then have q: "quiet n ?n1" by (rule quiet_silent) simp_all
  have "rn_voted_for ?n1 = Some (self_id ?n1)" "room ?n1"
    using True assms(1,3) lc by (simp_all add: raft_inv_def room_def)
  then have "ok_to (\<lambda>n'. evolves ?n1 n' \<and> rn_role n' = Leader \<and> rn_current_term n' = rn_current_term n)
      (become_leader ?n1)"
    using become_leader_ok [OF inv] by simp
  then obtain n' where "become_leader ?n1 = Inr n'" "evolves n n'" "rn_role n' = Leader"
      "rn_current_term n' = rn_current_term n"
    using quiet_then_evolves [OF q] by (auto simp: ok_to_iff)
  then show ?thesis
    using True quiet_evolves [OF q]
    by (simp add: handle_request_vote_response_def counts_vote_def quorum_def Let_def)
next
  case False
  then show ?thesis
    using quiet_evolves [OF quiet_refl [OF assms(1)]]
    by (auto simp: handle_request_vote_response_def counts_vote_def)
qed

end
