(* ===== verification/Raft_Handlers.thy ===== *)
theory Raft_Handlers
  imports Raft_Calls
begin

text \<open>
  The message handlers of a Raft node, each shown to return and to have the effect described in
  \<^verbatim>\<open>Raft_Calls\<close>: AppendEntries and its answers, InstallSnapshot and its answers, and the dispatch
  over all messages.
\<close>

subsection \<open>Following a leader\<close>

lemma accept_leader_quiet:
  assumes "raft_inv n" and "is_voter from n"
  shows "quiet n (accept_leader from n)" and "rn_role (accept_leader from n) = Follower"
    and "rn_current_term (accept_leader from n) = rn_current_term n" and "rn_log (accept_leader from n) = rn_log n"
    and "rn_last_applied (accept_leader from n) = rn_last_applied n"
    and "rn_leader_id (accept_leader from n) = Some from"
proof -
  have t: "rn_current_term n \<le> u64_max" using assms(1) by (simp add: raft_inv_def)
  note bf = become_follower_quiet [OF assms(1) t, of "Some from"]
  have "quiet n (n\<lparr>rn_leader_id := Some from\<rparr>)" if "rn_role n = Follower"
  proof (rule quiet_silent)
    have "peers_ok (n\<lparr>rn_leader_id := Some from\<rparr>)"
      using raft_invD(6) [OF assms(1)] that by (simp add: peers_ok_def)
    then show "raft_inv (n\<lparr>rn_leader_id := Some from\<rparr>)"
      using assms log_cong(3,4) [of "n\<lparr>rn_leader_id := Some from\<rparr>" n]
      by (simp add: raft_inv_def snapshot_ok_def is_voter_def)
  qed simp_all
  then show "quiet n (accept_leader from n)"
    using bf(1) assms(2) by (auto simp: accept_leader_def intro: quiet_reset)
  show "rn_role (accept_leader from n) = Follower" "rn_current_term (accept_leader from n) = rn_current_term n"
    "rn_log (accept_leader from n) = rn_log n" "rn_last_applied (accept_leader from n) = rn_last_applied n"
    "rn_leader_id (accept_leader from n) = Some from"
    using bf(2) assms(2) by (auto simp: accept_leader_def as_follower_def)
qed

lemma first_conflict_ok:
  assumes "raft_inv n" and "i \<le> last_log_index n"
  shows "\<exists>h. first_conflict t i n = Inr h"
  using assms(2)
proof (induction i)
  case (Suc i)
  note inv = raft_invD [OF assms(1)]
  have b: "add64 (base_index n) 1 = Suc (base_index n)" using inv(3,4) by (intro add64_one) simp
  show ?case
  proof (cases "base_index n < i")
    case True
    then have "entry_at i n = Inr (rn_log n ! (i - base_index n))"
      using Suc.prems inv(1) by (intro entry_at_ok(1)) auto
    then show ?thesis using Suc b by simp
  qed (use b in simp)
qed simp

lemma reject_entries_None:
  assumes "reject_entries T (add64 i 1) t es = None" and "i < u64_max"
    and "\<forall>e \<in> set es. 0 < e_term e \<and> e_index e < u64_max"
  shows "entries_follow T i t es"
  using assms
proof (induction es arbitrary: i t)
  case (Cons e es)
  have i: "add64 i 1 = Suc i" by (rule add64_one [OF Cons.prems(2)])
  then have "e_index e = Suc i" using Cons.prems(1) by (auto split: if_splits)
  then show ?case
    using Cons.IH [of "Suc i" "e_term e"] Cons.prems i by (auto split: if_splits)
qed simp

lemma entries_follow_mono: "entries_follow T i t es \<Longrightarrow> T \<le> T' \<Longrightarrow> entries_follow T' i t es"
  by (induction es arbitrary: i t) auto

lemma entries_follow_drop:
  assumes "entries_follow T i t es" and "k < length es"
  shows "entries_follow T (i + k) (if k = 0 then t else e_term (es ! (k - 1))) (drop k es)"
    and "e_index (es ! k) = Suc (i + k)"
  using assms
proof (induction es arbitrary: i t k)
  case (Cons e es)
  {
    case 1
    then show ?case
      using Cons.IH(1) [of "Suc i" "e_term e" "k - 1"]
      by (cases k) (auto simp: nth_Cons split: nat.splits)
  next
    case 2
    then show ?case using Cons.IH(2) [of "Suc i" "e_term e" "k - 1"] by (cases k) auto
  }
qed simp_all

text \<open>The log holds the entries \<open>es\<close> right after index \<open>i\<close>.\<close>

definition matches :: "RaftNode \<Rightarrow> LogIndex \<Rightarrow> LogEntry list \<Rightarrow> bool" where
  "matches n i es \<longleftrightarrow> (\<forall>j < length es. log_entry n (Suc i + j) = Some (es ! j))"

lemma matches_Cons: "matches n i (e # es) \<longleftrightarrow> log_entry n (Suc i) = Some e \<and> matches n (Suc i) es"
  by (auto simp: matches_def All_less_Suc2)

lemma matches_Nil [simp]: "matches n i []"
  by (simp add: matches_def)

lemma matches_append: "matches n i (xs @ ys) \<longleftrightarrow> matches n i xs \<and> matches n (i + length xs) ys"
  by (induction xs arbitrary: i) (auto simp: matches_Cons)

lemma matches_cong: "rn_log n' = rn_log n \<Longrightarrow> matches n' i es = matches n i es"
  by (simp add: matches_def log_cong(2) [of n' n])

definition comparison_ok :: "RaftNode \<Rightarrow> LogIndex \<Rightarrow> nat \<Rightarrow> LogEntry list \<Rightarrow> comparison \<Rightarrow> bool" where
  "comparison_ok n i off es c \<longleftrightarrow>
     (case c of
        Present \<Rightarrow> i + length es \<le> last_log_index n \<and> matches n i es
      | Replace_from o' \<Rightarrow> \<exists>k < length es. o' = off + k \<and> i + k \<le> last_log_index n \<and>
          rn_commit_index n \<le> i + k \<and> matches n i (take k es)
      | Reject_with _ \<Rightarrow> True)"

lemma comparison_ok_Cons:
  assumes "comparison_ok n (Suc i) (Suc off) es c" and "log_entry n (Suc i) = Some e"
  shows "comparison_ok n i off (e # es) c"
proof (cases c)
  case (Replace_from o')
  then obtain k where "k < length es" "o' = Suc off + k" "Suc i + k \<le> last_log_index n"
      "rn_commit_index n \<le> Suc i + k" "matches n (Suc i) (take k es)"
    using assms(1) by (auto simp: comparison_ok_def)
  then show ?thesis
    using Replace_from assms(2) by (auto simp: comparison_ok_def matches_Cons intro!: exI [of _ "Suc k"])
qed (use assms in \<open>auto simp: comparison_ok_def matches_Cons\<close>)

lemma compare_entries_ok:
  assumes "raft_inv n" and "entries_follow T i t es" and "base_index n \<le> i" and "i \<le> last_log_index n"
  shows "ok_to (comparison_ok n i off es) (compare_entries off es n)"
  using assms(2-4)
proof (induction es arbitrary: i t off)
  case Nil
  then show ?case by (simp add: comparison_ok_def)
next
  case (Cons e es)
  have e: "e_index e = Suc i" using Cons.prems(1) by simp
  note inv = raft_invD [OF assms(1)]
  show ?case
  proof (cases "Suc i \<le> last_log_index n")
    case False
    then have "rn_commit_index n \<le> i" using inv(8) Cons.prems(3) by simp
    then show ?thesis
      using e False Cons.prems(3) by (auto simp: comparison_ok_def intro!: exI [of _ 0])
  next
    case True
    then have at: "entry_at (Suc i) n = Inr (rn_log n ! (Suc i - base_index n))"
        "log_entry n (Suc i) = Some (rn_log n ! (Suc i - base_index n))"
      using entry_at_ok(1) [OF inv(1), of "Suc i"] Cons.prems(2) by (auto simp: log_entry_def)
    have IH: "ok_to (comparison_ok n (Suc i) (Suc off) es) (compare_entries (Suc off) es n)"
      using Cons.prems True by (intro Cons.IH) auto
    show ?thesis
      using at e True Cons.prems(3) ok_to_mono [OF IH comparison_ok_Cons]
      by (auto simp: comparison_ok_def [of n i off "e # es" "Reject_with _"]
          comparison_ok_def [of n i off "e # es" "Replace_from _"] intro!: exI [of _ 0])
  qed
qed

lemma persistent_snapshot_index: "raft_inv n \<Longrightarrow> snapshot_index (rn_durable_snapshot n) = base_index n"
  using raft_invD(5) by (simp add: snapshot_ok_def)

lemma follower_log_inv:
  assumes "raft_inv n" and "rn_role n = Follower" and "log_ok (rn_current_term n) es"
    and "hd es = hd (rn_log n)" and "rn_commit_index n \<le> e_index (last es)"
  shows "raft_inv (n\<lparr>rn_log := es\<rparr>)"
proof -
  have "peers_ok (n\<lparr>rn_log := es\<rparr>)" using raft_invD(6) [OF assms(1)] assms(2) by (simp add: peers_ok_def)
  then show ?thesis
    using assms by (simp add: raft_inv_def snapshot_ok_def node_access)
qed

lemma replace_log_quiet:
  assumes "raft_inv n" and "rn_role n = Follower" and "ae_term m \<le> rn_current_term n"
    and "entries_follow (ae_term m) i t (ae_entries m)" and "base_index n \<le> i"
    and "e_term (rn_log n ! (i - base_index n)) = t"
    and "k < length (ae_entries m)" and "i + k \<le> last_log_index n" and "rn_commit_index n \<le> i + k"
    and "matches n i (take k (ae_entries m))"
  shows "quiet n (replace_log k m n)" and "rn_role (replace_log k m n) = Follower"
    and "rn_current_term (replace_log k m n) = rn_current_term n"
    and "matches (replace_log k m n) i (ae_entries m)"
    and "last_log_index (replace_log k m n) = i + length (ae_entries m)"
    and "base_index (replace_log k m n) = base_index n"
proof -
  note inv = raft_invD [OF assms(1)]
  let ?es = "ae_entries m" and ?b = "base_index n"
  have ne: "rn_log n \<noteq> []" using inv(1) by (simp add: log_ok_def)
  have len: "i + k - ?b < length (rn_log n)"
    using entry_at_ok(2) [OF inv(1), of "i + k"] assms(5,8) by simp
  define kp where "kp = take (Suc (i + k) - ?b) (rn_log n)"
  have kp: "kp \<noteq> []" "length kp = Suc (i + k) - ?b" "last kp = rn_log n ! (i + k - ?b)" "hd kp = hd (rn_log n)"
    using len ne assms(5) by (auto simp: kp_def last_conv_nth hd_take)
  have fi: "e_index (?es ! k) = Suc (i + k)"
    "entries_follow (ae_term m) (i + k) (if k = 0 then t else e_term (?es ! (k - 1))) (drop k ?es)"
    using entries_follow_drop [OF assms(4,7)] by simp_all
  have eq: "replace_log k m n = push_action (PersistLog (Suc (i + k)) (drop k ?es)) (n\<lparr>rn_log := kp @ drop k ?es\<rparr>)"
    by (simp add: replace_log_def Let_def fi(1) kp_def)
  have "e_term (last kp) = (if k = 0 then t else e_term (?es ! (k - 1)))"
  proof (cases k)
    case (Suc j)
    then have "log_entry n (Suc i + j) = Some (?es ! j)" using assms(7,10) by (simp add: matches_def)
    then show ?thesis using Suc kp(3) by (auto simp: log_entry_def split: if_splits)
  qed (use kp(3) assms(6) in simp)
  moreover have "e_index (last kp) = i + k"
    using entry_at_ok(3) [OF inv(1), of "i + k"] assms(5,8) kp(3) by simp
  ultimately have "entries_follow (rn_current_term n) (e_index (last kp)) (e_term (last kp)) (drop k ?es)"
    using entries_follow_mono [OF fi(2) assms(3)] by simp
  moreover have "log_ok (rn_current_term n) kp"
    unfolding kp_def using assms(5) by (intro log_ok_take inv) simp
  ultimately have lok: "log_ok (rn_current_term n) (kp @ drop k ?es)" by (intro log_ok_extend)
  have last: "e_index (last (kp @ drop k ?es)) = i + length ?es"
    using log_ok_last [OF lok] kp assms(5,7) by (simp add: base_index_def)
  have base: "base_index (n\<lparr>rn_log := kp @ drop k ?es\<rparr>) = ?b"
    using kp(1,4) by (simp add: base_index_def)
  have inv': "raft_inv (n\<lparr>rn_log := kp @ drop k ?es\<rparr>)"
    using lok last kp(1,4) assms(7,9) by (intro follower_log_inv assms(1,2)) auto
  show l': "last_log_index (replace_log k m n) = i + length ?es" and b': "base_index (replace_log k m n) = ?b"
    unfolding eq using last base by (simp_all add: last_log_index_def)
  have old: "log_entry (replace_log k m n) j = log_entry n j" if "j \<le> i + k" for j
    using that l' b' assms(5,7,8) kp(2) by (auto simp: log_entry_def eq nth_append kp_def)
  have new: "log_entry (replace_log k m n) (Suc i + j) = Some (?es ! j)" if "k \<le> j" "j < length ?es" for j
    using that l' b' assms(5) kp(2) by (auto simp: log_entry_def eq nth_append Suc_diff_le)
  show "matches (replace_log k m n) i ?es"
    unfolding matches_def
  proof (intro allI impI)
    fix j assume j: "j < length ?es"
    show "log_entry (replace_log k m n) (Suc i + j) = Some (?es ! j)"
      using new [of j] old [of "Suc i + j"] assms(10) j by (cases "k \<le> j") (auto simp: matches_def)
  qed
  have "kept n (replace_log k m n)"
    using old b' assms(9) by (auto simp: kept_def) (simp_all add: eq)
  moreover have "effect n [PersistLog (Suc (i + k)) (drop k ?es)] (replace_log k m n)"
    using persistent_snapshot_index [OF assms(1)] ne assms(5,7)
    by (simp add: effect_def eq persistent_of_def kp_def tl_take Suc_diff_le)
  ultimately show "quiet n (replace_log k m n)"
    using inv' assms(1) by (intro quietI) (auto simp: eq)
  show "rn_role (replace_log k m n) = Follower" "rn_current_term (replace_log k m n) = rn_current_term n"
    by (simp_all add: eq assms(2))
qed

subsection \<open>AppendEntries\<close>

text \<open>No node becomes candidate or leader, and no candidate gains a vote.\<close>

definition no_gain :: "RaftNode \<Rightarrow> RaftNode \<Rightarrow> bool" where
  "no_gain n n' \<longleftrightarrow>
     (rn_role n' = Leader \<longrightarrow> rn_role n = Leader \<and> rn_current_term n' = rn_current_term n) \<and>
     (rn_role n' = Candidate \<longrightarrow> rn_role n = Candidate \<and> rn_current_term n' = rn_current_term n \<and>
        rn_votes_received n' = rn_votes_received n)"

lemma no_gain_follower: "rn_role n' = Follower \<Longrightarrow> no_gain n n'"
  by (simp add: no_gain_def)

lemma no_gain_refl: "no_gain n n"
  by (simp add: no_gain_def)

text \<open>
  The answer to an AppendEntries: success only when the log then holds the entry before the new ones,
  with the term the leader gave, and all the new ones.
\<close>

definition answers_append :: "NodeId \<Rightarrow> AppendEntries \<Rightarrow> RaftNode \<Rightarrow> RaftNode \<Rightarrow> bool" where
  "answers_append from m n n' \<longleftrightarrow> evolves n n' \<and> no_gain n n' \<and>
     (\<exists>before r. rn_actions n' = before @ [SendMessage from (Msg_AppendEntriesResponse r)] \<and>
        aer_rpc_id r = ae_rpc_id m \<and>
        (aer_success r \<longrightarrow> rn_role n' = Follower \<and> rn_leader_id n' = Some from \<and>
           aer_match_index r = ae_previous_log_index m + length (ae_entries m) \<and>
           base_index n' \<le> ae_previous_log_index m \<and>
           e_term (rn_log n' ! (ae_previous_log_index m - base_index n')) = ae_previous_log_term m \<and>
           matches n' (ae_previous_log_index m) (ae_entries m)))"

lemma append_rejected:
  assumes "quiet n n1" and "no_gain n n1"
  shows "answers_append from m n (send_append_response from m False 0 hint n1)"
proof -
  have "evolves n (send_append_response from m False 0 hint n1)"
    unfolding send_append_response_def by (rule quiet_send [OF assms(1)]) simp
  then show ?thesis
    using assms(2) by (auto simp: answers_append_def send_append_response_def no_gain_def)
qed

lemma append_accepted_ok:
  assumes "quiet n n1" and "rn_role n1 = Follower" and "rn_leader_id n1 = Some from"
    and "matches n1 (ae_previous_log_index m) (ae_entries m)"
    and "base_index n1 \<le> ae_previous_log_index m"
    and "ae_previous_log_index m + length (ae_entries m) \<le> last_log_index n1"
    and "e_term (rn_log n1 ! (ae_previous_log_index m - base_index n1)) = ae_previous_log_term m"
  shows "ok_to (answers_append from m n) (append_accepted from m n1)"
proof -
  let ?mi = "ae_previous_log_index m + length (ae_entries m)"
  note inv = quiet_inv [OF assms(1)]
  have mi: "add64 (ae_previous_log_index m) (length (ae_entries m)) = ?mi"
    using raft_invD(3) [OF inv] assms(6) by (simp add: u64_max_def)
  obtain n2 where n2: "advance_follower_commit (min (ae_leader_commit m) ?mi) n1 = Inr n2" "quiet n1 n2"
      "same_but_log n1 n2" "rn_log n2 = rn_log n1"
    using advance_follower_commit_ok [OF inv, of "min (ae_leader_commit m) ?mi"] by (auto simp: ok_to_iff)
  note lc = log_cong(3,4) [OF n2(4)]
  let ?r = "\<lparr>aer_term = rn_current_term n2, aer_success = True, aer_match_index = ?mi, aer_reject_hint = 0,
    aer_rpc_id = ae_rpc_id m\<rparr>"
  have f: "rn_role n2 = Follower" "rn_leader_id n2 = Some from" using n2(3) assms(2,3) by (simp_all add: same_but_log_def)
  have "evolves n (send_append_response from m True ?mi 0 n2)"
    unfolding send_append_response_def using assms(6) lc
    by (intro quiet_send [OF quiet_trans [OF assms(1) n2(2)]]) simp
  moreover have "matches (send_append_response from m True ?mi 0 n2) (ae_previous_log_index m) (ae_entries m)"
    using assms(4) matches_cong [of "send_append_response from m True ?mi 0 n2" n1] n2(4)
    by (simp add: send_append_response_def)
  ultimately show ?thesis
    using n2 mi f lc assms(5,7) by (auto simp: append_accepted_def answers_append_def
        send_append_response_def no_gain_def)
qed

lemma append_replaced_ok:
  assumes "quiet n n1" and "rn_role n1 = Follower" and "rn_leader_id n1 = Some from"
    and "ae_term m \<le> rn_current_term n1"
    and "entries_follow (ae_term m) (ae_previous_log_index m) (ae_previous_log_term m) (ae_entries m)"
    and "base_index n1 \<le> ae_previous_log_index m"
    and "e_term (rn_log n1 ! (ae_previous_log_index m - base_index n1)) = ae_previous_log_term m"
    and "k < length (ae_entries m)" and "ae_previous_log_index m + k \<le> last_log_index n1"
    and "rn_commit_index n1 \<le> ae_previous_log_index m + k"
    and "matches n1 (ae_previous_log_index m) (take k (ae_entries m))"
  shows "ok_to (answers_append from m n) (append_accepted from m (replace_log k m n1))"
proof -
  note rl = replace_log_quiet [OF quiet_inv [OF assms(1)] assms(2,4,5,6,7,8,9,10,11)]
  have "e_index (ae_entries m ! k) = Suc (ae_previous_log_index m + k)"
    by (rule entries_follow_drop(2) [OF assms(5,8)])
  then have "rn_log (replace_log k m n1) ! (ae_previous_log_index m - base_index n1) =
      rn_log n1 ! (ae_previous_log_index m - base_index n1)"
    using assms(6,9) entry_at_ok(2) [OF raft_invD(1) [OF quiet_inv [OF assms(1)]], of "ae_previous_log_index m"]
    by (simp add: replace_log_def Let_def nth_append)
  moreover have "rn_leader_id (replace_log k m n1) = Some from"
    using assms(3) by (simp add: replace_log_def Let_def)
  ultimately show ?thesis
    using rl assms(6,7) by (intro append_accepted_ok [OF quiet_trans [OF assms(1) rl(1)]]) auto
qed

lemma compared_ok:
  assumes "quiet n n1" and "rn_role n1 = Follower" and "rn_leader_id n1 = Some from"
    and "ae_term m \<le> rn_current_term n1"
    and "entries_follow (ae_term m) (ae_previous_log_index m) (ae_previous_log_term m) (ae_entries m)"
    and "base_index n1 \<le> ae_previous_log_index m" and "ae_previous_log_index m \<le> last_log_index n1"
    and "e_term (rn_log n1 ! (ae_previous_log_index m - base_index n1)) = ae_previous_log_term m"
  shows "ok_to (answers_append from m n) (bindE (compare_entries 0 (ae_entries m) n1) (\<lambda>c. case c of
      Reject_with hint \<Rightarrow> Inr (send_append_response from m False 0 hint n1)
    | Replace_from offset \<Rightarrow> append_accepted from m (replace_log offset m n1)
    | Present \<Rightarrow> append_accepted from m n1))"
proof -
  let ?p = "ae_previous_log_index m"
  obtain c where c: "compare_entries 0 (ae_entries m) n1 = Inr c" "comparison_ok n1 ?p 0 (ae_entries m) c"
    using compare_entries_ok [OF quiet_inv [OF assms(1)] assms(5), of 0] assms(6,7) by (auto simp: ok_to_iff)
  show ?thesis
  proof (cases c)
    case Present
    then have "ok_to (answers_append from m n) (append_accepted from m n1)"
      using c(2) assms by (intro append_accepted_ok) (auto simp: comparison_ok_def)
    then show ?thesis using c(1) Present by simp
  next
    case (Reject_with hint)
    then show ?thesis using c(1) append_rejected [OF assms(1) no_gain_follower [OF assms(2)]] by simp
  next
    case (Replace_from k)
    then have k: "k < length (ae_entries m)" "?p + k \<le> last_log_index n1" "rn_commit_index n1 \<le> ?p + k"
        "matches n1 ?p (take k (ae_entries m))"
      using c(2) by (auto simp: comparison_ok_def)
    then show ?thesis
      using append_replaced_ok [OF assms(1-6,8) k] c(1) Replace_from by simp
  qed
qed

lemma handle_append_entries_ok:
  assumes "raft_inv n" and "is_voter from n" and "ae_term m \<le> rn_current_term n"
    and "\<forall>e \<in> set (ae_entries m). 0 < e_term e \<and> e_index e < u64_max"
  shows "ok_to (answers_append from m n) (handle_append_entries from m n)"
proof (cases "ae_term m = 0 \<or> ae_term m < rn_current_term n \<or> ae_leader_id m \<noteq> from")
  case True
  then show ?thesis
    using append_rejected [OF quiet_refl [OF assms(1)] no_gain_refl]
    by (simp add: handle_append_entries_def)
next
  case False
  define n1 where "n1 = accept_leader from n"
  let ?p = "ae_previous_log_index m"
  note al = accept_leader_quiet [OF assms(1,2), folded n1_def]
  note inv = quiet_inv [OF al(1)] and rej = append_rejected [OF al(1) no_gain_follower [OF al(2)]]
  note invD = raft_invD [OF inv]
  have start: "handle_append_entries from m n =
    (if ?p < base_index n1 then Inr (send_append_response from m False 0 (add64 (base_index n1) 1) n1)
     else if ?p > last_log_index n1 then Inr (send_append_response from m False 0 (add64 (last_log_index n1) 1) n1)
     else bindE (entry_at ?p n1) (\<lambda>local_previous.
       if e_term local_previous \<noteq> ae_previous_log_term m
       then bindE (first_conflict (e_term local_previous) ?p n1) (\<lambda>hint. Inr (send_append_response from m False 0 hint n1))
       else case reject_entries (ae_term m) (add64 ?p 1) (ae_previous_log_term m) (ae_entries m) of
         Some expected_index \<Rightarrow> Inr (send_append_response from m False 0 expected_index n1)
       | None \<Rightarrow> bindE (compare_entries 0 (ae_entries m) n1) (\<lambda>c. case c of
             Reject_with hint \<Rightarrow> Inr (send_append_response from m False 0 hint n1)
           | Replace_from offset \<Rightarrow> append_accepted from m (replace_log offset m n1)
           | Present \<Rightarrow> append_accepted from m n1)))"
    using False unfolding handle_append_entries_def Let_def n1_def by (simp only: if_False)
  show ?thesis
  proof (cases "base_index n1 \<le> ?p \<and> ?p \<le> last_log_index n1")
    case False
    then show ?thesis unfolding start using rej by (auto simp: not_le)
  next
    case p: True
    then have at: "entry_at ?p n1 = Inr (rn_log n1 ! (?p - base_index n1))"
      using invD(1) by (intro entry_at_ok(1)) auto
    obtain h where h: "first_conflict (e_term (rn_log n1 ! (?p - base_index n1))) ?p n1 = Inr h"
      using first_conflict_ok [OF inv] p by blast
    show ?thesis
    proof (cases "e_term (rn_log n1 ! (?p - base_index n1)) = ae_previous_log_term m \<and>
        reject_entries (ae_term m) (add64 ?p 1) (ae_previous_log_term m) (ae_entries m) = None")
      case False
      then show ?thesis unfolding start using p at h rej by (auto split: option.split)
    next
      case ok: True
      then have ef: "entries_follow (ae_term m) ?p (ae_previous_log_term m) (ae_entries m)"
        using assms(4) p invD(3) by (intro reject_entries_None) auto
      show ?thesis
        unfolding start using p at ok compared_ok [OF al(1,2,6) _ ef] assms(3) al(3) by simp
    qed
  qed
qed

subsection \<open>Answers to a leader\<close>

definition steady :: "RaftNode \<Rightarrow> RaftNode \<Rightarrow> bool" where
  "steady n n' \<longleftrightarrow> evolves n n' \<and> no_gain n n'"

lemma steady_refl: "raft_inv n \<Longrightarrow> steady n n"
  by (simp add: steady_def quiet_evolves quiet_refl no_gain_refl)

lemma update_progress_quiet:
  assumes "raft_inv n" and "rn_role n = Leader" and "(peer, old) \<in> set (rn_peer_progress n)"
    and "progress_ok (last_log_index n) (rn_durable_snapshot n) (rn_next_rpc_id n) p"
  shows "quiet n (set_progress peer p n)"
proof (rule quiet_silent)
  show "raft_inv (set_progress peer p n)"
    using peers_okD(2,3) [OF raft_invD(6) [OF assms(1)] assms(2,3)]
    by (intro set_progress_inv' assms(1,2,4))
qed simp_all

lemma send_steady:
  assumes "quiet n n1" and "rn_role n1 = Leader" and "rn_current_term n1 = rn_current_term n"
    and "rn_role n = Leader" and "(peer, p) \<in> set (rn_peer_progress n)" and "raft_inv n"
    and "rn_next_rpc_id n < u64_max"
  shows "ok_to (steady n) (send_append_entries peer n1)"
proof -
  have "rn_config n1 = rn_config n" "rn_next_rpc_id n1 = rn_next_rpc_id n"
    using assms(1) by (simp_all add: quiet_def kept_def)
  moreover note peers_okD(2,3) [OF raft_invD(6) [OF assms(6)] assms(4,5)]
  ultimately obtain n2 where n2: "send_append_entries peer n1 = Inr n2" "sends_one n1 n2"
    using send_append_entries_ok [OF quiet_inv [OF assms(1)] assms(2), of peer] assms(7)
    by (auto simp: ok_to_iff)
  then have "sends 1 n1 n2" by (simp add: sends_def sends_one_def)
  then show ?thesis
    using n2 quiet_sends [OF assms(1) _ assms(2)] sent_from_same [of n1 n2] assms(2-4)
    by (auto simp: steady_def no_gain_def sends_one_def)
qed

lemma broadcast_steady:
  assumes "quiet n n1" and "rn_role n1 = Leader" and "rn_current_term n1 = rn_current_term n"
    and "rn_role n = Leader" and "room n"
  shows "ok_to (steady n) (broadcast_append_entries n1)"
proof -
  have "rn_config n1 = rn_config n" "rn_next_rpc_id n1 = rn_next_rpc_id n"
    using assms(1) by (simp_all add: quiet_def kept_def)
  then obtain n2 where n2: "broadcast_append_entries n1 = Inr n2" "sends (length (cfg_voters (rn_config n1))) n1 n2"
    using broadcast_ok [OF quiet_inv [OF assms(1)] assms(2)] assms(5) by (auto simp: ok_to_iff room_def)
  then show ?thesis
    using quiet_sends [OF assms(1) n2(2) assms(2)] sent_from_same [of n1 n2] assms(2-4)
    by (auto simp: steady_def no_gain_def sends_def)
qed

lemma erase_first_subset: "set (erase_first P xs) \<subseteq> set xs"
  by (induction xs) auto

lemma length_erase_first: "length (erase_first P xs) \<le> length xs"
  by (induction xs) auto

lemma room_rpc: "raft_inv n \<Longrightarrow> room n \<Longrightarrow> rn_next_rpc_id n < u64_max"
  using config_okD(2) [OF raft_invD(2), of n] by (cases "cfg_voters (rn_config n)") (auto simp: room_def)

text \<open>Changing the append bookkeeping of a peer.\<close>

lemma progress_ok_append:
  assumes "progress_ok l snap rpc p" and "set rs \<subseteq> set (pp_recent_rpcs p)" and "length rs \<le> length (pp_recent_rpcs p)"
    and "mi < ni" and "ni \<le> Suc l"
  shows "progress_ok l snap rpc (p\<lparr>pp_recent_rpcs := rs, pp_match_index := mi, pp_next_index := ni\<rparr>)"
proof -
  have "\<forall>r \<in> set rs. rr_rpc_id r \<noteq> 0 \<and> rr_rpc_id r \<le> pp_newest_rpc_id p \<and> rr_last_index r \<le> l"
    using assms(1,2) by (auto simp: progress_ok_def)
  then show ?thesis using assms by (simp add: progress_ok_def)
qed

lemma append_success_ok:
  assumes "raft_inv n" and "rn_role n = Leader" and "map_of (rn_peer_progress n) from = Some p"
    and "rpc \<in> set (pp_recent_rpcs p)" and "room n"
  shows "ok_to (steady n) (append_success from m rpc p n)"
proof -
  note inv = raft_invD [OF assms(1)]
  have mem: "(from, p) \<in> set (rn_peer_progress n)" by (rule map_of_SomeD [OF assms(3)])
  have ok: "progress_ok (last_log_index n) (rn_durable_snapshot n) (rn_next_rpc_id n) p"
    by (rule peers_okD(1) [OF inv(6) assms(2) mem])
  define mi where "mi = max (pp_match_index p) (min (aer_match_index m) (rr_last_index rpc))"
  have mi: "mi \<le> last_log_index n"
    using ok assms(4) by (auto simp: mi_def progress_ok_def min.coboundedI2)
  then have a: "add64 mi 1 = Suc mi" using inv(3) by (intro add64_one) simp
  define q where "q = p\<lparr>pp_recent_rpcs := erase_first (\<lambda>sent. rr_rpc_id sent = aer_rpc_id m) (pp_recent_rpcs p),
    pp_match_index := mi, pp_next_index := Suc mi\<rparr>"
  have "progress_ok (last_log_index n) (rn_durable_snapshot n) (rn_next_rpc_id n) q"
    unfolding q_def using mi by (intro progress_ok_append ok erase_first_subset length_erase_first) auto
  then have q1: "quiet n (set_progress from q n)" by (rule update_progress_quiet [OF assms(1,2) mem])
  obtain b n2 where n2: "advance_leader_commit (set_progress from q n) = Inr (b, n2)"
      "quiet (set_progress from q n) n2" "same_but_log (set_progress from q n) n2"
    using advance_leader_commit_ok [OF quiet_inv [OF q1]] leader_commits_same by (fastforce simp: ok_to_iff)
  have f: "rn_role n2 = Leader" "rn_current_term n2 = rn_current_term n"
    using n2(3) assms(2) by (simp_all add: same_but_log_def)
  note q2 = quiet_trans [OF q1 n2(2)]
  have "append_success from m rpc p n = (if b then broadcast_append_entries n2
      else if Suc mi \<le> last_log_index n2 then send_append_entries from n2 else Inr n2)"
    using n2(1) a by (simp add: append_success_def Let_def mi_def [symmetric] q_def)
  moreover have "steady n n2"
    using quiet_evolves [OF q2] f assms(2) by (simp add: steady_def no_gain_def)
  ultimately show ?thesis
    using broadcast_steady [OF q2 f assms(2,5)]
      send_steady [OF q2 f assms(2) mem assms(1) room_rpc [OF assms(1,5)]] by simp
qed

lemma append_failure_ok:
  assumes "raft_inv n" and "rn_role n = Leader" and "map_of (rn_peer_progress n) from = Some p" and "room n"
  shows "ok_to (steady n) (append_failure from m p n)"
proof (cases "aer_rpc_id m = pp_newest_rpc_id p")
  case True
  note inv = raft_invD [OF assms(1)]
  have mem: "(from, p) \<in> set (rn_peer_progress n)" by (rule map_of_SomeD [OF assms(3)])
  have ok: "progress_ok (last_log_index n) (rn_durable_snapshot n) (rn_next_rpc_id n) p"
    by (rule peers_okD(1) [OF inv(6) assms(2) mem])
  then have a: "add64 (pp_match_index p) 1 = Suc (pp_match_index p)"
    using inv(3) by (intro add64_one) (simp add: progress_ok_def)
  define ni where "ni = max (Suc (pp_match_index p))
    (if aer_reject_hint m = 0 \<or> aer_reject_hint m \<ge> pp_next_index p
     then (if pp_next_index p > 1 then pp_next_index p - 1 else 1) else aer_reject_hint m)"
  define q where "q = p\<lparr>pp_recent_rpcs := erase_first (\<lambda>sent. rr_rpc_id sent = aer_rpc_id m) (pp_recent_rpcs p),
    pp_match_index := pp_match_index p, pp_next_index := ni\<rparr>"
  have "pp_match_index p < ni" "ni \<le> Suc (last_log_index n)"
    using ok by (auto simp: ni_def progress_ok_def)
  then have "progress_ok (last_log_index n) (rn_durable_snapshot n) (rn_next_rpc_id n) q"
    unfolding q_def by (intro progress_ok_append ok erase_first_subset length_erase_first)
  then have q1: "quiet n (set_progress from q n)" by (rule update_progress_quiet [OF assms(1,2) mem])
  have "append_failure from m p n = send_append_entries from (set_progress from q n)"
    using True a unfolding append_failure_def Let_def q_def ni_def by simp
  then show ?thesis
    using send_steady [OF q1 _ _ assms(2) mem assms(1) room_rpc [OF assms(1,4)]] assms(2) by simp
qed (use steady_refl [OF assms(1)] in \<open>simp add: append_failure_def\<close>)

lemma find_in_set: "find P xs = Some x \<Longrightarrow> x \<in> set xs \<and> P x"
  by (auto simp: find_Some_iff)

lemma handle_append_entries_response_ok:
  assumes "raft_inv n" and "room n"
  shows "ok_to (steady n) (handle_append_entries_response from m n)"
  using steady_refl [OF assms(1)] append_success_ok [OF assms(1) _ _ _ assms(2)]
    append_failure_ok [OF assms(1) _ _ assms(2)]
  by (auto simp: handle_append_entries_response_def dest: find_in_set split: option.split)

subsection \<open>Snapshots\<close>

lemma snapshot_response_steady:
  assumes "quiet n n1" and "no_gain n n1"
  shows "steady n (send_snapshot_response from m ok off n1)"
proof -
  have "evolves n (send_snapshot_response from m ok off n1)"
    unfolding send_snapshot_response_def by (rule quiet_send [OF assms(1)]) simp
  then show ?thesis using assms(2) by (simp add: steady_def send_snapshot_response_def no_gain_def)
qed

lemma raft_inv_incoming [simp]: "raft_inv (n\<lparr>rn_incoming_snapshot := i\<rparr>) = raft_inv n"
  by (rule raft_inv_cong) simp_all

lemma quiet_incoming:
  assumes "quiet n n1"
  shows "quiet n (n1\<lparr>rn_incoming_snapshot := i\<rparr>)"
  by (rule quiet_trans [OF assms quiet_silent]) (use quiet_inv [OF assms] in simp_all)

lemma retained_suffix_eq:
  assumes "raft_inv n" and "base_index n < s_index snap"
  shows "retained_suffix snap n = Inr (retained_log snap (persistent_of n))"
proof (cases "s_index snap \<le> last_log_index n")
  case True
  note inv = raft_invD [OF assms(1)]
  have "rn_log n ! (s_index snap - base_index n) = tl (rn_log n) ! (s_index snap - base_index n - 1)"
    using assms(2) entry_at_ok(2) [OF inv(1) _ True] by (simp add: nth_tl Suc_diff_Suc)
  moreover have "drop (Suc (s_index snap - base_index n)) (rn_log n) = drop (s_index snap - base_index n) (tl (rn_log n))"
    by (simp add: drop_Suc)
  ultimately show ?thesis
    using True assms(2) entry_at_ok(1) [OF inv(1) _ True] last_log_index_eq [OF inv(1)]
    by (simp add: retained_suffix_def retained_log_def persistent_of_def persistent_snapshot_index [OF assms(1)])
next
  case False
  then have "\<not> s_index snap \<le> base_index n + length (tl (rn_log n))"
    using last_log_index_eq [OF raft_invD(1) [OF assms(1)]] raft_invD(4) [OF assms(1)] by simp
  then show ?thesis
    using False by (simp add: retained_suffix_def retained_log_def persistent_of_def persistent_snapshot_index [OF assms(1)])
qed

lemma retained_log_ok:
  assumes "raft_inv n" and "base_index n < s_index snap" and "s_index snap < u64_max" and "0 < s_term snap"
    and "s_term snap \<le> rn_current_term n"
  shows "log_ok (rn_current_term n) (sentinel snap # retained_log snap (persistent_of n))"
proof (cases "s_index snap \<le> last_log_index n \<and> e_term (rn_log n ! (s_index snap - base_index n)) = s_term snap")
  case True
  note inv = raft_invD [OF assms(1)]
  note at = entry_at_ok [OF inv(1) _ conjunct1 [OF True]]
  have "log_ok (rn_current_term n) (sentinel snap # drop (Suc (s_index snap - base_index n)) (rn_log n))"
    using at(2,3) assms(2) True by (intro log_ok_sentinel inv(1)) auto
  moreover have "retained_suffix snap n = Inr (drop (Suc (s_index snap - base_index n)) (rn_log n))"
    using True at(1) assms(2) by (simp add: retained_suffix_def)
  ultimately show ?thesis using retained_suffix_eq [OF assms(1,2)] by simp
next
  case False
  then have "retained_suffix snap n = Inr []"
    using entry_at_ok(1) [OF raft_invD(1) [OF assms(1)], of "s_index snap"] assms(2)
    by (auto simp: retained_suffix_def)
  then show ?thesis
    using retained_suffix_eq [OF assms(1,2)] log_ok_only_sentinel [of snap] assms by simp
qed

lemma install_snapshot_quiet:
  assumes "raft_inv n" and "rn_role n = Follower" and "rn_last_applied n < s_index snap"
    and "s_index snap < u64_max" and "0 < s_term snap" and "s_term snap \<le> rn_current_term n"
  shows "ok_to (\<lambda>n'. quiet n n' \<and> rn_role n' = Follower) (install_snapshot snap n)"
proof -
  note inv = raft_invD [OF assms(1)]
  have b: "base_index n < s_index snap" using inv(7,9) assms(3) by simp
  define es where "es = sentinel snap # retained_log snap (persistent_of n)"
  define n1 where "n1 = n\<lparr>rn_log := es, rn_durable_snapshot := Some snap, rn_commit_index := s_index snap,
    rn_last_applied := s_index snap\<rparr>"
  let ?A = "[PersistSnapshot snap, ApplySnapshot snap]"
  have lok: "log_ok (rn_current_term n) es" unfolding es_def by (rule retained_log_ok [OF assms(1) b assms(4-6)])
  have base: "base_index n1 = s_index snap" by (simp add: base_index_def n1_def es_def sentinel_def)
  have last: "s_index snap \<le> last_log_index n1"
    using last_log_index_eq [of "rn_current_term n" n1] lok base by (simp add: n1_def)
  have last': "s_index snap \<le> last_log_index (n\<lparr>rn_log := es, rn_durable_snapshot := Some snap,
      rn_commit_index := s_index snap\<rparr>)"
    using last by (simp add: last_log_index_def n1_def)
  have eq: "install_snapshot snap n = Inr (n1\<lparr>rn_actions := rn_actions n @ ?A\<rparr>)"
    unfolding install_snapshot_def using retained_suffix_eq [OF assms(1) b] inv(9) assms(3) last'
    by (simp add: Let_def es_def [symmetric] n1_def push_action_def max_absorb2 min_absorb1)
  have "peers_ok n1" using inv(6) assms(2) by (simp add: peers_ok_def n1_def)
  then have i1: "raft_inv n1"
    using assms(1) lok base last b gr0I [of "s_index snap"] unfolding raft_inv_def
    by (simp add: snapshot_ok_def is_voter_def) 
       (simp add: n1_def es_def sentinel_def snapshot_index_def snapshot_term_def snapshot_positive_def)
  have "kept n (n1\<lparr>rn_actions := rn_actions n @ ?A\<rparr>)"
    using base b inv(9) assms(3) by (auto simp: kept_def base_index_def n1_def)
  moreover have "effect n ?A (n1\<lparr>rn_actions := rn_actions n @ ?A\<rparr>)"
    using assms(3) by (simp add: effect_def n1_def persistent_of_def es_def)
  ultimately have "quiet n (n1\<lparr>rn_actions := rn_actions n @ ?A\<rparr>)"
    using i1 assms(1) by (intro quietI) (auto simp: n1_def)
  then show ?thesis unfolding eq using assms(2) by (simp add: n1_def)
qed

lemma handle_install_snapshot_ok:
  assumes "raft_inv n" and "is_voter from n" and "is_term m \<le> rn_current_term n"
    and "is_last_included_index m \<le> u64_max"
  shows "ok_to (steady n) (handle_install_snapshot from m n)"
proof (cases "bad_install from m n")
  case True
  then show ?thesis
    using snapshot_response_steady [OF quiet_refl [OF assms(1)] no_gain_refl]
    by (simp add: handle_install_snapshot_def)
next
  case good: False
  define n1 where "n1 = accept_leader from n"
  note al = accept_leader_quiet [OF assms(1,2), folded n1_def]
  define n2 where "n2 = begin_incoming from m n1"
  have q2: "quiet n n2" and r2: "rn_role n2 = Follower" "rn_last_applied n2 = rn_last_applied n1"
      "rn_current_term n2 = rn_current_term n"
    using al quiet_incoming [OF al(1)] by (simp_all add: n2_def begin_incoming_def)
  note resp1 = snapshot_response_steady [OF al(1) no_gain_follower [OF al(2)]]
  have resp: "steady n (send_snapshot_response from m ok off n')" if "quiet n n'" "rn_role n' = Follower" for n' ok off
    using snapshot_response_steady [OF that(1) no_gain_follower [OF that(2)]] .
  show ?thesis
  proof (cases "is_last_included_index m \<le> rn_last_applied n1")
    case True
    then show ?thesis
      using good resp [OF al(1,2)] by (simp add: handle_install_snapshot_def Let_def n1_def [symmetric])
  next
    case new: False
    let ?snap = "\<lambda>bs. \<lparr>s_index = is_last_included_index m, s_term = is_last_included_term m, s_state = bs\<rparr>"
    have inst: "ok_to (\<lambda>n'. steady n (send_snapshot_response from m ok off n'))
        (install_snapshot (?snap bs) (n2\<lparr>rn_incoming_snapshot := None\<rparr>))" for bs ok off
    proof -
      have "ok_to (\<lambda>n'. quiet (n2\<lparr>rn_incoming_snapshot := None\<rparr>) n' \<and> rn_role n' = Follower)
          (install_snapshot (?snap bs) (n2\<lparr>rn_incoming_snapshot := None\<rparr>))"
        using good new r2 quiet_inv [OF q2] assms(3,4)
        by (intro install_snapshot_quiet) (auto simp: bad_install_def)
      then show ?thesis using quiet_trans [OF quiet_incoming [OF q2]] resp by (auto simp: ok_to_iff)
    qed
    show ?thesis
      using good new r2 resp [OF q2] resp [OF quiet_incoming [OF q2]] inst
      unfolding handle_install_snapshot_def Let_def n1_def [symmetric] n2_def [symmetric]
      by (auto split: option.split simp: ok_to_bindE)
  qed
qed

lemma progress_ok_transfer:
  assumes "progress_ok l (Some snap) rpc p" and "set rs \<subseteq> set (pp_recent_snapshot_rpcs p)"
    and "length rs \<le> length (pp_recent_snapshot_rpcs p)" and "off \<le> length (s_state snap)"
  shows "progress_ok l (Some snap) rpc (p\<lparr>pp_recent_snapshot_rpcs := rs, pp_snapshot_offset := off\<rparr>)"
proof -
  have "\<forall>r \<in> set rs. sr_rpc_id r \<noteq> 0 \<and> sr_rpc_id r \<le> pp_newest_rpc_id p \<and>
      sr_snapshot_index r = pp_snapshot_index p \<and> sr_offset r \<le> sr_end r \<and> sr_end r \<le> length (s_state snap)"
    using assms(1,2) by (auto simp: progress_ok_def)
  then show ?thesis using assms by (simp add: progress_ok_def)
qed

lemma progress_ok_installed:
  assumes "progress_ok l snap rpc p" and "mi \<le> l"
  shows "progress_ok l snap rpc (p\<lparr>pp_recent_snapshot_rpcs := rs, pp_snapshot_offset := off, pp_match_index := mi,
    pp_next_index := Suc mi, pp_snapshot_offset := 0, pp_snapshot_index := 0, pp_recent_snapshot_rpcs := [],
    pp_recent_rpcs := []\<rparr>)"
  using assms by (simp add: progress_ok_def)

lemma snapshot_rpc_end:
  assumes "progress_ok l (Some snap) rpc p" and "sent \<in> set (pp_recent_snapshot_rpcs p)"
  shows "sr_end sent \<le> length (s_state snap)"
  using assms by (auto simp: progress_ok_def)

lemma snapshot_success_ok:
  assumes "raft_inv n" and "rn_role n = Leader" and "map_of (rn_peer_progress n) from = Some p"
    and "rn_durable_snapshot n = Some snap" and "sent \<in> set (pp_recent_snapshot_rpcs p)" and "room n"
  shows "ok_to (steady n) (snapshot_success from snap m sent p n)"
proof -
  note inv = raft_invD [OF assms(1)]
  have mem: "(from, p) \<in> set (rn_peer_progress n)" by (rule map_of_SomeD [OF assms(3)])
  have ok: "progress_ok (last_log_index n) (Some snap) (rn_next_rpc_id n) p"
    using peers_okD(1) [OF inv(6) assms(2) mem] assms(4) by simp
  let ?rs = "erase_first (\<lambda>s. sr_rpc_id s = isr_rpc_id m \<and> sr_snapshot_index s = isr_last_included_index m)
    (pp_recent_snapshot_rpcs p)"
  define mi where "mi = max (pp_match_index p) (s_index snap)"
  have "s_index snap = base_index n" using inv(5) assms(4) by (simp add: snapshot_ok_def snapshot_index_def)
  then have mi: "mi \<le> last_log_index n" using inv(4) ok by (simp add: mi_def progress_ok_def)
  then have a: "add64 mi 1 = Suc mi" using inv(3) by (intro add64_one) simp
  have send: "ok_to (steady n) (send_append_entries from (set_progress from q n))"
    if "progress_ok (last_log_index n) (Some snap) (rn_next_rpc_id n) q" for q
    using send_steady [OF update_progress_quiet [OF assms(1,2) mem], of q]
      that assms(1,2,4) mem room_rpc [OF assms(1,6)] by simp
  have "progress_ok (last_log_index n) (Some snap) (rn_next_rpc_id n)
      (p\<lparr>pp_recent_snapshot_rpcs := ?rs, pp_snapshot_offset := sr_end sent\<rparr>)"
    by (intro progress_ok_transfer ok erase_first_subset length_erase_first snapshot_rpc_end [OF ok assms(5)])
  note 1 = send [OF this]
  note 2 = send [OF progress_ok_installed [OF ok mi, where rs = ?rs and off = "sr_end sent"]]
  show ?thesis
    using 1 2 a steady_refl [OF assms(1)] by (simp add: snapshot_success_def Let_def mi_def [symmetric])
qed

lemma snapshot_failure_ok:
  assumes "raft_inv n" and "rn_role n = Leader" and "map_of (rn_peer_progress n) from = Some p"
    and "rn_durable_snapshot n = Some snap" and "sent \<in> set (pp_recent_snapshot_rpcs p)" and "room n"
  shows "ok_to (steady n) (snapshot_failure from m sent p n)"
proof (cases "isr_rpc_id m \<noteq> pp_newest_rpc_id p \<or> isr_next_offset m > sr_end sent")
  case True
  then show ?thesis using steady_refl [OF assms(1)] by (simp add: snapshot_failure_def)
next
  case False
  note inv = raft_invD [OF assms(1)]
  have mem: "(from, p) \<in> set (rn_peer_progress n)" by (rule map_of_SomeD [OF assms(3)])
  have ok: "progress_ok (last_log_index n) (Some snap) (rn_next_rpc_id n) p"
    using peers_okD(1) [OF inv(6) assms(2) mem] assms(4) by simp
  define q where "q = p\<lparr>pp_recent_snapshot_rpcs :=
      erase_first (\<lambda>s. sr_rpc_id s = isr_rpc_id m \<and> sr_snapshot_index s = isr_last_included_index m)
        (pp_recent_snapshot_rpcs p), pp_snapshot_offset := isr_next_offset m\<rparr>"
  have "isr_next_offset m \<le> length (s_state snap)" using False snapshot_rpc_end [OF ok assms(5)] by simp
  then have "progress_ok (last_log_index n) (Some snap) (rn_next_rpc_id n) q"
    unfolding q_def by (intro progress_ok_transfer ok erase_first_subset length_erase_first)
  then have "quiet n (set_progress from q n)"
    using update_progress_quiet [OF assms(1,2) mem] assms(4) by simp
  then have "ok_to (steady n) (send_append_entries from (set_progress from q n))"
    by (rule send_steady) (use assms mem room_rpc [OF assms(1,6)] in simp_all)
  then show ?thesis using False by (simp add: snapshot_failure_def q_def)
qed

lemma handle_install_snapshot_response_ok:
  assumes "raft_inv n" and "room n"
  shows "ok_to (steady n) (handle_install_snapshot_response from m n)"
  using steady_refl [OF assms(1)] snapshot_success_ok [OF assms(1) _ _ _ _ assms(2)]
    snapshot_failure_ok [OF assms(1) _ _ _ _ assms(2)]
  by (auto simp: handle_install_snapshot_response_def dest: find_in_set split: option.split)

section \<open>Every call\<close>

text \<open>
  A message whose numbers are in range: the code holds them in 64-bit words, keeps the largest log
  index free, and a leader never sends an entry of term zero.
\<close>

fun message_fits :: "Message \<Rightarrow> bool" where
  "message_fits (Msg_AppendEntries m) \<longleftrightarrow> ae_term m \<le> u64_max \<and>
     (\<forall>e \<in> set (ae_entries m). 0 < e_term e \<and> e_index e < u64_max)"
| "message_fits (Msg_InstallSnapshot m) \<longleftrightarrow> is_term m \<le> u64_max \<and> is_last_included_index m \<le> u64_max"
| "message_fits m \<longleftrightarrow> message_term m \<le> u64_max"

lemma message_fits_term: "message_fits m \<Longrightarrow> message_term m \<le> u64_max"
  by (cases m) auto

text \<open>What a message can do to the standing of a node in an election.\<close>

definition election_step :: "NodeId \<Rightarrow> Message \<Rightarrow> RaftNode \<Rightarrow> RaftNode \<Rightarrow> bool" where
  "election_step from m n n' \<longleftrightarrow> no_gain n n' \<or>
     (\<exists>r. m = Msg_RequestVoteResponse r \<and> rvr_term r = rn_current_term n \<and> rvr_vote_granted r \<and>
        rn_role n = Candidate \<and> rn_current_term n' = rn_current_term n \<and>
        (rn_role n' = Leader \<and> quorum n \<le> length (List.insert from (rn_votes_received n)) \<or>
         rn_role n' = Candidate \<and> rn_votes_received n' = List.insert from (rn_votes_received n)))"

lemma handle_message_ok:
  assumes "raft_inv n" and "room n" and "is_voter from n" and "from \<noteq> self_id n" and "message_fits m"
    and "message_term m \<le> rn_current_term n"
  shows "ok_to (\<lambda>n'. evolves n n' \<and> election_step from m n n') (handle_message from m n)"
proof (cases m)
  case (Msg_RequestVote r)
  then show ?thesis
    using handle_request_vote_ok [OF assms(1,3,4)] by (simp add: election_step_def no_gain_def)
next
  case (Msg_RequestVoteResponse r)
  then show ?thesis
    using handle_request_vote_response_ok [OF assms(1,3,2), of r]
    by (auto simp: election_step_def counts_vote_def no_gain_refl elim!: ok_to_mono split: if_splits)
next
  case (Msg_AppendEntries r)
  then show ?thesis
    using handle_append_entries_ok [of n "from" r, OF assms(1,3)] assms(5,6)
    by (auto simp: election_step_def answers_append_def elim!: ok_to_mono)
next
  case (Msg_AppendEntriesResponse r)
  then show ?thesis
    using handle_append_entries_response_ok [of n "from" r, OF assms(1,2)]
    by (auto simp: election_step_def steady_def elim!: ok_to_mono)
next
  case (Msg_InstallSnapshot r)
  then show ?thesis
    using handle_install_snapshot_ok [of n "from" r, OF assms(1,3)] assms(5,6)
    by (auto simp: election_step_def steady_def elim!: ok_to_mono)
next
  case (Msg_InstallSnapshotResponse r)
  then show ?thesis
    using handle_install_snapshot_response_ok [of n "from" r, OF assms(1,2)]
    by (auto simp: election_step_def steady_def elim!: ok_to_mono)
qed

end
