(* ===== verification/Raft_Api.thy ===== *)
theory Raft_Api
  imports Raft_Handlers
begin

text \<open>
  The calls of the interface of \<^verbatim>\<open>RaftNode\<close>: \<^verbatim>\<open>step\<close>, \<^verbatim>\<open>advance_time\<close>, \<^verbatim>\<open>propose\<close>, \<^verbatim>\<open>read_barrier\<close>
  and \<^verbatim>\<open>compact\<close>, and the constructor. Each call either is refused with a known exception or returns,
  with the effect of \<^verbatim>\<open>Raft_Calls\<close>; a persistent state that a crash can leave is accepted by the
  constructor.
\<close>

datatype Call =
    Step NodeId Message
  | Advance_time LogicalTime
  | Propose bytes
  | Read_barrier
  | Compact StateMachineSnapshot

fun call :: "Call \<Rightarrow> raft_call" where
  "call (Step from m) n = step from m n"
| "call (Advance_time now) n = advance_time now n"
| "call (Propose command) n = propose command n"
| "call Read_barrier n = read_barrier n"
| "call (Compact snap) n = compact snap n"

text \<open>The counters have room for one more call, and an incoming message has its numbers in range.\<close>

fun call_fits :: "Call \<Rightarrow> RaftNode \<Rightarrow> bool" where
  "call_fits (Step from m) n \<longleftrightarrow> room n \<and> message_fits m"
| "call_fits (Compact snap) n \<longleftrightarrow> True"
| "call_fits _ n \<longleftrightarrow> room n"

text \<open>The calls that the node refuses, with the exception.\<close>

fun refused :: "Call \<Rightarrow> RaftNode \<Rightarrow> std_exn option" where
  "refused (Advance_time now) n =
     (if now < rn_now n then Some (invalid_argument ''Raft logical time cannot move backward'')
      else if rn_role n \<noteq> Leader \<and> rn_election_deadline n \<le> now \<and> rn_current_term n = u64_max
      then Some (overflow_error ''Raft term space exhausted'')
      else None)"
| "refused (Compact snap) n =
     (if s_index snap \<le> base_index n \<or> rn_last_applied n < s_index snap \<or>
         e_term (rn_log n ! (s_index snap - base_index n)) \<noteq> s_term snap
      then Some (invalid_argument ''snapshot does not match an applied log prefix'')
      else None)"
| "refused _ n = None"

definition call_effect :: "RaftNode \<Rightarrow> Actions \<Rightarrow> RaftNode \<Rightarrow> bool" where
  "call_effect n acts n' \<longleftrightarrow> raft_inv n' \<and> kept n n' \<and>
     fold persist acts (persistent_of n) = persistent_of n' \<and>
     (\<forall>k. safe_point n (fold persist (take k acts) (persistent_of n))) \<and>
     fold apply_index acts (Some (rn_last_applied n)) = Some (rn_last_applied n') \<and>
     (\<forall>e. ApplyEntry e \<in> set acts \<longrightarrow> e_index e \<le> rn_commit_index n' \<and>
        (base_index n' < e_index e \<longrightarrow> log_entry n' (e_index e) = Some e)) \<and>
     (\<exists>A B. acts = A @ B \<and> (\<forall>to m. SendMessage to m \<notin> set A) \<and>
        (\<forall>a \<in> set B. \<exists>to m. a = SendMessage to m \<and> honest n' to m))"

text \<open>How a call can change the standing of a node in an election.\<close>

definition standing :: "Call \<Rightarrow> RaftNode \<Rightarrow> RaftNode \<Rightarrow> bool" where
  "standing c n n' \<longleftrightarrow> no_gain n n' \<or>
     (\<exists>from r. c = Step from (Msg_RequestVoteResponse r) \<and> is_voter from n \<and> rvr_term r = rn_current_term n \<and>
        rvr_vote_granted r \<and> rn_role n = Candidate \<and> rn_current_term n' = rn_current_term n \<and>
        (rn_role n' = Leader \<and> quorum n \<le> length (List.insert from (rn_votes_received n)) \<or>
         rn_role n' = Candidate \<and> rn_votes_received n' = List.insert from (rn_votes_received n))) \<or>
     rn_current_term n' = Suc (rn_current_term n) \<and>
       (if length (cfg_voters (rn_config n)) = 1 then rn_role n' = Leader
        else rn_role n' = Candidate \<and> rn_votes_received n' = [self_id n])"

definition call_ok :: "Call \<Rightarrow> RaftNode \<Rightarrow> Actions \<times> RaftNode \<Rightarrow> bool" where
  "call_ok c n r \<longleftrightarrow> call_effect n (fst r) (snd r) \<and> standing c n (snd r)"

lemma clear_simps [simp]:
  "kept (n\<lparr>rn_actions := A\<rparr>) n' = kept n n'" "kept n (n'\<lparr>rn_actions := A\<rparr>) = kept n n'"
  "persistent_of (n\<lparr>rn_actions := A\<rparr>) = persistent_of n" "log_entry (n\<lparr>rn_actions := A\<rparr>) = log_entry n"
  "base_index (n\<lparr>rn_actions := A\<rparr>) = base_index n" "last_log_index (n\<lparr>rn_actions := A\<rparr>) = last_log_index n"
  "is_voter v (n\<lparr>rn_actions := A\<rparr>) = is_voter v n" "quorum (n\<lparr>rn_actions := A\<rparr>) = quorum n"
  "room (n\<lparr>rn_actions := A\<rparr>) = room n" "honest (n\<lparr>rn_actions := A\<rparr>) to m = honest n to m"
  "no_gain (n\<lparr>rn_actions := A\<rparr>) n' = no_gain n n'" "no_gain n (n'\<lparr>rn_actions := A\<rparr>) = no_gain n n'"
  by (simp_all add: kept_def persistent_of_def log_entry_def node_access room_def no_gain_def fun_eq_iff
      honest_cong [of "n\<lparr>rn_actions := A\<rparr>" n])

lemma standing_clear [simp]:
  "standing c (n\<lparr>rn_actions := A\<rparr>) n' = standing c n n'" "standing c n (n'\<lparr>rn_actions := A\<rparr>) = standing c n n'"
  by (simp_all add: standing_def)

lemma call_effectI:
  assumes "evolves (n\<lparr>rn_actions := []\<rparr>) n'"
  shows "call_effect n (rn_actions n') (n'\<lparr>rn_actions := []\<rparr>)"
proof -
  obtain A B where t: "trace (n\<lparr>rn_actions := []\<rparr>) (A @ B) n'" and s: "\<forall>to m. SendMessage to m \<notin> set A"
      "\<forall>a \<in> set B. \<exists>to m. a = SendMessage to m \<and> honest n' to m"
    using assms by (auto simp: evolves_def)
  then have acts: "rn_actions n' = A @ B" by (simp add: trace_def effect_def)
  have "\<forall>k. safe_point n (fold persist (take k (A @ B)) (persistent_of n))"
    using t by (simp add: trace_def safe_point_def)
  then show ?thesis
    using assms t s by (auto simp: call_effect_def acts evolves_def trace_def effect_def)
qed

lemma finish_call_ok:
  assumes "ok_to (\<lambda>n1. evolves (n\<lparr>rn_actions := []\<rparr>) n1 \<and> standing c (n\<lparr>rn_actions := []\<rparr>) n1) r"
  shows "ok_to (call_ok c n) (finish_call r)"
proof -
  obtain n1 where n1: "r = Inr n1" "evolves (n\<lparr>rn_actions := []\<rparr>) n1" "standing c n n1"
    using assms by (auto simp: ok_to_iff)
  then have "verify_invariants n1 = Inr n1" by (intro raft_inv_verify) (simp add: evolves_def)
  then show ?thesis
    using n1 call_effectI [OF n1(2)] by (simp add: finish_call_def call_ok_def)
qed

lemma no_gain_trans: "no_gain n n1 \<Longrightarrow> no_gain n1 n2 \<Longrightarrow> no_gain n n2"
  by (auto simp: no_gain_def)

lemma step_impl_ok:
  assumes "raft_inv n" and "room n" and "message_fits m"
  shows "ok_to (\<lambda>n1. evolves n n1 \<and> standing (Step from m) n n1) (step_impl from m n)"
proof (cases "from = self_id n \<or> \<not> is_voter from n")
  case True
  then show ?thesis
    using quiet_evolves [OF quiet_refl [OF assms(1)]] by (auto simp: step_impl_def standing_def no_gain_refl)
next
  case False
  then have v: "is_voter from n" "from \<noteq> self_id n" by auto
  show ?thesis
  proof (cases "message_term m > rn_current_term n")
    case True
    define n1 where "n1 = become_follower (message_term m) (incoming_leader from m) n"
    have "\<forall>l. incoming_leader from m = Some l \<longrightarrow> is_voter l n"
      using v by (auto simp: incoming_leader_def split: Message.splits if_splits)
    note bf = become_follower_quiet [OF assms(1) message_fits_term [OF assms(3)] this, folded n1_def]
    have f: "rn_config n1 = rn_config n" "rn_next_rpc_id n1 = rn_next_rpc_id n" "last_log_index n1 = last_log_index n"
        "message_term m \<le> rn_current_term n1" "rn_role n1 = Follower"
      using bf log_cong(4) [of n1 n] by (simp_all add: quiet_def kept_def as_follower_def)
    have "ok_to (\<lambda>n'. evolves n1 n' \<and> election_step from m n1 n') (handle_message from m n1)"
      using v f assms(2,3) quiet_inv [OF bf(1)]
      by (intro handle_message_ok) (auto simp: room_def is_voter_def)
    then show ?thesis
      using v True f(5) quiet_then_evolves [OF bf(1)] no_gain_trans [OF no_gain_follower [OF f(5)]]
      by (auto simp: step_impl_def Let_def n1_def [symmetric] election_step_def standing_def ok_to_iff)
  next
    case False
    then show ?thesis
      using handle_message_ok [OF assms(1,2) v assms(3)] v
      by (auto simp: step_impl_def Let_def election_step_def standing_def ok_to_iff)
  qed
qed

lemma propose_entry_ok:
  assumes "raft_inv n" and "room n"
  shows "ok_to (call_ok c n) (propose_entry kind command n)"
proof -
  let ?n = "n\<lparr>rn_actions := []\<rparr>"
  have "ok_to (\<lambda>n1. evolves ?n n1 \<and> standing c ?n n1)
    (if rn_role ?n \<noteq> Leader then Inr (push_action (ProposalRejected (rn_leader_id ?n)) ?n)
     else bindE (advance_leader_commit (append_local_entry kind command ?n)) (\<lambda>(_, n). broadcast_append_entries n))"
  proof (cases "rn_role n = Leader")
    case True
    then show ?thesis
      using append_and_broadcast_ok [of ?n kind command] assms
      by (auto simp: ok_to_iff standing_def no_gain_def)
  next
    case False
    have "quiet ?n (push_action (ProposalRejected (rn_leader_id ?n)) ?n)"
      using assms(1) by (intro quiet_push quiet_refl) simp_all
    then show ?thesis
      using False quiet_evolves by (auto simp: standing_def no_gain_def)
  qed
  then show ?thesis unfolding propose_entry_def Let_def by (rule finish_call_ok)
qed

lemma raft_inv_timers [simp]:
  "raft_inv (n\<lparr>rn_now := t\<rparr>) = raft_inv n" "raft_inv (n\<lparr>rn_heartbeat_deadline := d\<rparr>) = raft_inv n"
  by (rule raft_inv_cong; simp)+

lemma evolves_heartbeat:
  assumes "evolves n n'"
  shows "evolves n (n'\<lparr>rn_heartbeat_deadline := d\<rparr>)"
proof -
  have "honest (n'\<lparr>rn_heartbeat_deadline := d\<rparr>) to m = honest n' to m" for to m by (rule honest_cong) simp_all
  moreover have "kept n (n'\<lparr>rn_heartbeat_deadline := d\<rparr>) = kept n n'"
    by (simp add: kept_def log_entry_def node_access)
  moreover have "trace n A (n'\<lparr>rn_heartbeat_deadline := d\<rparr>) = trace n A n'" for A
    by (simp add: trace_def effect_def safe_point_def persistent_of_def log_entry_def node_access)
  ultimately show ?thesis using assms by (simp add: evolves_def)
qed

lemma standing_heartbeat: "standing c n (n'\<lparr>rn_heartbeat_deadline := d\<rparr>) = standing c n n'"
  by (simp add: standing_def no_gain_def)

lemma evolves_now:
  assumes "evolves (n\<lparr>rn_now := t\<rparr>) n'"
  shows "evolves n n'"
proof -
  have "kept (n\<lparr>rn_now := t\<rparr>) n' = kept n n'" by (simp add: kept_def log_entry_def node_access)
  moreover have "trace (n\<lparr>rn_now := t\<rparr>) A n' = trace n A n'" for A by (simp add: trace_def effect_def safe_point_def persistent_of_def)
  ultimately show ?thesis using assms by (simp add: evolves_def)
qed

lemma elected_standing: "elected_or_candidate n n' \<Longrightarrow> evolves n n' \<and> standing c n n'"
  by (simp add: elected_or_candidate_def standing_def)

lemma steady_standing: "steady n n' \<Longrightarrow> evolves n n' \<and> standing c n n'"
  by (simp add: steady_def standing_def)

lemma advance_time_ok:
  assumes "raft_inv n" and "room n" and "refused (Advance_time now) n = None"
  shows "ok_to (call_ok (Advance_time now) n) (advance_time now n)"
proof -
  define n1 where "n1 = n\<lparr>rn_now := now, rn_actions := []\<rparr>"
  have n1: "raft_inv n1" "room n1" "rn_role n1 = rn_role n" "rn_current_term n1 = rn_current_term n"
    using assms(1,2) by (simp_all add: n1_def room_def node_access)
  have swap: "n1 = n\<lparr>rn_actions := [], rn_now := now\<rparr>" by (simp add: n1_def)
  have ev: "evolves (n\<lparr>rn_actions := []\<rparr>) n'" if "evolves n1 n'" for n'
    using that evolves_now [where n = "n\<lparr>rn_actions := []\<rparr>" and t = now] swap by simp
  have "standing c n1 n' = standing c n n'" for c n'
    by (simp add: standing_def no_gain_def n1_def node_access)
  note st = iffD1 [OF this]
  have "ok_to (\<lambda>n'. evolves (n\<lparr>rn_actions := []\<rparr>) n' \<and> standing (Advance_time now) (n\<lparr>rn_actions := []\<rparr>) n')
    (if rn_role n1 \<noteq> Leader \<and> now \<ge> rn_election_deadline n1 then start_election n1
     else if rn_role n1 = Leader \<and> now \<ge> rn_heartbeat_deadline n1
     then bindE (broadcast_append_entries n1) (\<lambda>n. Inr (n\<lparr>rn_heartbeat_deadline :=
            saturating_add now (cfg_heartbeat_interval (rn_config n))\<rparr>))
     else Inr n1)" (is "ok_to ?P (if ?elect then _ else if ?beat then _ else _)")
  proof (cases ?elect)
    case True
    then have "rn_current_term n1 < u64_max"
      using assms(1,3) n1(1) by (auto simp: n1_def raft_inv_def split: if_splits)
    then obtain n2 where "start_election n1 = Inr n2" "elected_or_candidate n1 n2"
      using start_election_ok [OF n1(1) _ _ n1(2)] True by (auto simp: ok_to_iff)
    then show ?thesis
      using True ev [of n2] st [of _ n2] elected_standing [of n1 n2] by simp
  next
    case False
    show ?thesis
    proof (cases ?beat)
      case True
      then obtain n2 where "broadcast_append_entries n1 = Inr n2" "steady n1 n2"
        using broadcast_steady [OF quiet_refl [OF n1(1)]] n1(2) by (auto simp: ok_to_iff)
      then show ?thesis
        using True evolves_heartbeat [OF ev, of n2] st [of _ n2] steady_standing [of n1 n2]
        by (simp add: standing_heartbeat)
    next
      case no_beat: False
      have "evolves n1 n1" "standing (Advance_time now) n1 n1"
        using steady_standing [OF steady_refl [OF n1(1)]] by simp_all
      then show ?thesis using False no_beat ev [of n1] st [of _ n1] by auto
    qed
  qed
  note finish = finish_call_ok [OF this]
  have "\<not> now < rn_now n" using assms(3) by auto
  then show ?thesis using finish unfolding advance_time_def Let_def n1_def [symmetric] by simp
qed

lemma progress_ok_recompact:
  assumes "progress_ok l old rpc p"
  shows "progress_ok l (Some snap) rpc
    (p\<lparr>pp_snapshot_index := s_index snap, pp_snapshot_offset := 0, pp_recent_snapshot_rpcs := []\<rparr>)"
  using assms by (simp add: progress_ok_def)

definition compacted :: "StateMachineSnapshot \<Rightarrow> RaftNode \<Rightarrow> RaftNode" where
  "compacted snap n = n\<lparr>rn_log := sentinel snap # drop (Suc (s_index snap - base_index n)) (rn_log n),
     rn_durable_snapshot := Some snap,
     rn_peer_progress := map (\<lambda>(peer, p). (peer, p\<lparr>pp_snapshot_index := s_index snap,
       pp_snapshot_offset := 0, pp_recent_snapshot_rpcs := []\<rparr>)) (rn_peer_progress n)\<rparr>"

lemma compacted_quiet:
  assumes "raft_inv n" and "base_index n < s_index snap" and "s_index snap \<le> rn_last_applied n"
    and "e_term (rn_log n ! (s_index snap - base_index n)) = s_term snap"
  shows "quiet n (push_action (PersistSnapshot snap) (compacted snap n))"
proof -
  note inv = raft_invD [OF assms(1)]
  let ?n = "compacted snap n" and ?k = "s_index snap - base_index n"
  have le: "s_index snap \<le> last_log_index n" using inv(8,9) assms(3) by simp
  note at = entry_at_ok [OF inv(1) _ le]
  have lok: "log_ok (rn_current_term n) (rn_log ?n)"
    unfolding compacted_def using at(2,3) assms(2,4) log_ok_sentinel [OF inv(1), of ?k snap] by simp
  have base: "base_index ?n = s_index snap" by (simp add: compacted_def base_index_def sentinel_def)
  have last: "last_log_index ?n = last_log_index n"
    using last_log_index_eq [OF lok] last_log_index_eq [OF inv(1)] base at(2) assms(2)
    by (simp add: compacted_def)
  have "peers_ok ?n"
    using inv(6) last progress_ok_recompact
    by (fastforce simp: peers_ok_def compacted_def comp_def case_prod_beta image_image split: if_splits)
  then have i: "raft_inv ?n"
    using assms(1-3) lok last base inv(8,9) gr0I [of "s_index snap"] unfolding raft_inv_def
    by (simp add: snapshot_ok_def is_voter_def)
       (simp add: compacted_def sentinel_def snapshot_index_def snapshot_term_def snapshot_positive_def)
  have "log_entry ?n i = log_entry n i" if "s_index snap < i" for i
  proof -
    have "rn_log ?n ! (i - s_index snap) = rn_log n ! (Suc ?k + (i - s_index snap - 1))"
      using that at(2) assms(2) by (simp add: compacted_def nth_Cons')
    also have "Suc ?k + (i - s_index snap - 1) = i - base_index n" using that assms(2) by simp
    finally show ?thesis using that assms(2) base last by (simp add: log_entry_def)
  qed
  then have "kept n ?n" using base assms(2) by (simp add: kept_def) (simp add: compacted_def)
  moreover have "retained_log snap (persistent_of n) = drop (Suc ?k) (rn_log n)"
    using retained_suffix_eq [OF assms(1,2)] at(1) le assms(2,4) by (simp add: retained_suffix_def)
  then have "effect n [PersistSnapshot snap] (push_action (PersistSnapshot snap) ?n)"
    by (simp add: effect_def persistent_of_def) (simp add: compacted_def)
  ultimately show ?thesis using i assms(1) by (intro quietI) (auto simp: compacted_def)
qed

lemma compact_ok:
  assumes "raft_inv n" and "refused (Compact snap) n = None"
  shows "ok_to (call_ok (Compact snap) n) (compact snap n)"
proof -
  note inv = raft_invD [OF assms(1)]
  let ?n = "n\<lparr>rn_actions := []\<rparr>"
  have ok: "base_index n < s_index snap" "s_index snap \<le> rn_last_applied n"
      "e_term (rn_log n ! (s_index snap - base_index n)) = s_term snap"
    using assms(2) by (auto split: if_splits)
  have "entry_at (s_index snap) n = Inr (rn_log n ! (s_index snap - base_index n))"
    using ok inv(8,9) by (intro entry_at_ok(1) [OF inv(1)]) auto
  then have at: "entry_at (s_index snap) ?n = Inr (rn_log n ! (s_index snap - base_index n))"
    using log_cong(1) [of ?n n] by simp
  have "s_index snap \<noteq> u64_max" using ok(2) inv(3,8,9) by simp
  then have eq: "compact snap n = finish_call (Inr (push_action (PersistSnapshot snap) (compacted snap ?n)))"
    using ok at by (simp add: compact_def Let_def compacted_def)
  have "quiet ?n (push_action (PersistSnapshot snap) (compacted snap ?n))"
    using ok assms(1) by (intro compacted_quiet) simp_all
  moreover have "standing (Compact snap) ?n (push_action (PersistSnapshot snap) (compacted snap ?n))"
    by (simp add: standing_def no_gain_def compacted_def)
  ultimately show ?thesis unfolding eq by (intro finish_call_ok) (simp add: quiet_evolves)
qed

lemma compact_refused:
  assumes "raft_inv n" and "refused (Compact snap) n = Some e"
  shows "compact snap n = Inl e"
proof (cases "s_index snap \<le> base_index n \<or> rn_last_applied n < s_index snap")
  case False
  note inv = raft_invD [OF assms(1)]
  have "entry_at (s_index snap) n = Inr (rn_log n ! (s_index snap - base_index n))"
    using False inv(8,9) by (intro entry_at_ok(1) [OF inv(1)]) auto
  then show ?thesis
    using assms(2) False log_cong(1) [of "n\<lparr>rn_actions := []\<rparr>" n]
    by (auto simp: compact_def Let_def split: if_splits)
qed (use assms(2) in \<open>auto simp: compact_def Let_def\<close>)

lemma advance_time_refused:
  "refused (Advance_time now) n = Some e \<Longrightarrow> advance_time now n = Inl e"
  by (auto simp: advance_time_def Let_def start_election_def finish_call_def split: if_splits)

lemma call_accepted:
  assumes "raft_inv n" and "call_fits c n" and "refused c n = None"
  shows "ok_to (call_ok c n) (call c n)"
proof (cases c)
  case (Step peer m)
  then have "ok_to (\<lambda>n1. evolves (n\<lparr>rn_actions := []\<rparr>) n1 \<and> standing c (n\<lparr>rn_actions := []\<rparr>) n1)
      (step_impl peer m (n\<lparr>rn_actions := []\<rparr>))"
    using step_impl_ok [of "n\<lparr>rn_actions := []\<rparr>" m] assms(1,2) by simp
  then show ?thesis using finish_call_ok Step by (simp add: step_def)
qed (use assms advance_time_ok propose_entry_ok compact_ok in \<open>simp_all add: propose_def read_barrier_def\<close>)

lemma call_refused:
  assumes "raft_inv n" and "refused c n = Some e"
  shows "call c n = Inl e"
  using assms compact_refused advance_time_refused by (cases c) auto

section \<open>Starting and restarting\<close>

definition persistent_fits :: "RaftPersistentState \<Rightarrow> bool" where
  "persistent_fits p \<longleftrightarrow> ps_current_term p \<le> u64_max \<and>
     snapshot_index (ps_snapshot p) + length (ps_log p) < u64_max"

lemma valid_entries_follow:
  assumes "persistent_log_valid T (add64 i 1) t es" and "i + length es < u64_max"
  shows "entries_follow T i t es"
  using assms
proof (induction es arbitrary: i t)
  case (Cons e es)
  have "add64 i 1 = Suc i" using Cons.prems(2) by (intro add64_one) simp
  then show ?case using Cons.IH [of "Suc i" "e_term e"] Cons.prems by simp
qed simp

lemma entries_follow_valid:
  assumes "entries_follow T i t es" and "i < u64_max"
  shows "persistent_log_valid T (add64 i 1) t es"
  using assms
proof (induction es arbitrary: i t)
  case (Cons e es)
  have "add64 i 1 = Suc i" using Cons.prems(2) by (rule add64_one)
  then show ?case using Cons.IH [of "Suc i" "e_term e"] Cons.prems by auto
qed simp

lemma log_entries_follow:
  assumes "\<forall>i < Suc (length es). e_index ((s # es) ! i) = e_index s + i" and "sorted (map e_term (s # es))"
    and "\<forall>e \<in> set es. 0 < e_term e \<and> e_term e \<le> T" and "e_index s + length es < u64_max"
  shows "entries_follow T (e_index s) (e_term s) es"
  using assms
proof (induction es arbitrary: s)
  case (Cons e es)
  have "e_index e = Suc (e_index s)" using Cons.prems(1) by (auto dest: spec [of _ 1])
  moreover have "e_index ((e # es) ! i) = e_index e + i" if "i < Suc (length es)" for i
    using that Cons.prems(1) calculation by (auto dest: spec [of _ "Suc i"])
  ultimately show ?case using Cons.IH [of e] Cons.prems(2-4) by auto
qed simp

lemma new_raft_node_ok:
  assumes "config_ok cfg" and "validate_persistent_state cfg p = Inr ()" and "persistent_fits p"
  shows "ok_to (\<lambda>n. raft_inv n \<and> rn_config n = cfg \<and> persistent_of n = p \<and> rn_role n = Follower \<and>
    rn_commit_index n = snapshot_index (ps_snapshot p)) (new_raft_node cfg p t rnd)"
proof -
  define base where "base = \<lparr>e_index = snapshot_index (ps_snapshot p), e_term = snapshot_term (ps_snapshot p),
    e_kind = No_op, e_command = []\<rparr>"
  define n where "n = \<lparr>rn_config = cfg, rn_role = Follower, rn_current_term = ps_current_term p,
    rn_voted_for = ps_voted_for p, rn_leader_id = None, rn_durable_snapshot = ps_snapshot p,
    rn_log = base # ps_log p, rn_commit_index = e_index base, rn_last_applied = e_index base, rn_now = t,
    rn_election_deadline = 0, rn_heartbeat_deadline = 0, rn_random = rnd, rn_votes_received = [],
    rn_peer_progress = [], rn_incoming_snapshot = None, rn_next_rpc_id = 1, rn_actions = []\<rparr>"
  have snap: "(e_index base = 0) = (e_term base = 0)" "e_term base \<le> ps_current_term p"
    using assms(2) by (auto simp: base_def validate_persistent_state_def snapshot_index_def snapshot_term_def Let_def
        split: if_splits option.splits)
  have pos: "snapshot_positive (ps_snapshot p)"
    using assms(2) by (auto simp: validate_persistent_state_def snapshot_positive_def Let_def split: if_splits)
  have vote: "\<forall>v. ps_voted_for p = Some v \<longrightarrow> v \<in> set (cfg_voters cfg) \<and> 0 < ps_current_term p"
    using assms(2) by (auto simp: validate_persistent_state_def split: if_splits)
  have "persistent_log_valid (ps_current_term p) (add64 (e_index base) 1) (e_term base) (ps_log p)"
    using assms(2) by (auto simp: base_def validate_persistent_state_def Let_def split: if_splits)
  then have "entries_follow (ps_current_term p) (e_index base) (e_term base) (ps_log p)"
    using assms(3) by (intro valid_entries_follow) (simp_all add: persistent_fits_def base_def)
  moreover have "log_ok (ps_current_term p) [base]"
    using snap assms(3) by (auto simp: log_ok_def base_def persistent_fits_def)
  ultimately have lok: "log_ok (ps_current_term p) (base # ps_log p)"
    using log_ok_extend [of "ps_current_term p" "[base]" "ps_log p"] by simp
  have "e_index base \<le> e_index (last (base # ps_log p))" using log_ok_last [OF lok] by simp
  then have "raft_inv n"
    using assms lok vote
    by (simp add: raft_inv_def n_def snapshot_ok_def peers_ok_def node_access persistent_fits_def) (simp add: base_def pos)
  then have "verify_invariants (reset_election_deadline n) = Inr (reset_election_deadline n)"
    by (intro raft_inv_verify) simp
  then have "new_raft_node cfg p t rnd = Inr (reset_election_deadline n)"
    using assms(1,2) by (simp add: new_raft_node_def config_ok_def n_def base_def Let_def)
  moreover have "persistent_of (reset_election_deadline n) = p" by (simp add: persistent_of_def n_def)
  moreover have "rn_config n = cfg" "rn_role n = Follower" "rn_commit_index n = snapshot_index (ps_snapshot p)"
    by (simp_all add: n_def base_def)
  ultimately show ?thesis using \<open>raft_inv n\<close> by simp
qed

lemma persistent_of_valid:
  assumes "raft_inv m"
  shows "validate_persistent_state (rn_config m) (persistent_of m) = Inr ()" and "persistent_fits (persistent_of m)"
proof -
  note inv = raft_invD [OF assms]
  obtain s es where log: "rn_log m = s # es" using inv(1) by (cases "rn_log m") (auto simp: log_ok_def)
  have s: "snapshot_index (rn_durable_snapshot m) = e_index s" "snapshot_term (rn_durable_snapshot m) = e_term s"
    using inv(5) log by (simp_all add: snapshot_ok_def base_index_def)
  have last: "e_index s + length es < u64_max" using inv(3) last_log_index_eq [OF inv(1)] log by (simp add: base_index_def)
  then show "persistent_fits (persistent_of m)"
    using assms log s by (simp add: persistent_fits_def persistent_of_def raft_inv_def)
  have "entries_follow (rn_current_term m) (e_index s) (e_term s) es"
    using inv(1) log last by (intro log_entries_follow) (auto simp: log_ok_def)
  then have v: "persistent_log_valid (rn_current_term m) (add64 (e_index s) 1) (e_term s) es"
    using last by (intro entries_follow_valid) simp_all
  have sn: "e_index s \<noteq> u64_max" "e_term s \<le> rn_current_term m" "(e_index s = 0) = (e_term s = 0)"
      "rn_durable_snapshot m \<noteq> None \<longrightarrow> 0 < e_index s"
    using last inv(1,5) log s(1) by (auto simp: log_ok_def snapshot_ok_def snapshot_positive_def)
  show "validate_persistent_state (rn_config m) (persistent_of m) = Inr ()"
    using assms log s v sn
    by (auto simp: validate_persistent_state_def persistent_of_def Let_def raft_inv_def is_voter_def)
qed

end
