(* ===== verification/Raft_Safety.thy ===== *)
theory Raft_Safety
  imports Raft_Api
begin

text \<open>
  The safety properties of a Raft node over all its calls and over whole runs, and election safety of a
  cluster of nodes with crashes and an unreliable network.
\<close>

lemma call_returns:
  assumes "raft_inv n" and "call_fits c n" and "refused c n = None"
  obtains acts n' where "call c n = Inr (acts, n')" "call_effect n acts n'" "standing c n n'"
  using call_accepted [OF assms] by (auto simp: ok_to_iff call_ok_def)

lemma call_returned:
  assumes "raft_inv n" and "call_fits c n" and "call c n = Inr (acts, n')"
  shows "call_effect n acts n'" and "standing c n n'"
proof -
  have "refused c n = None" using call_refused [OF assms(1), of c] assms(3) by (cases "refused c n") auto
  then show "call_effect n acts n'" "standing c n n'"
    using call_accepted [OF assms(1,2)] assms(3) by (auto simp: ok_to_iff call_ok_def)
qed

lemma call_effect_sends:
  "call_effect n acts n' \<Longrightarrow> \<exists>A B. acts = A @ B \<and> (\<forall>to m. SendMessage to m \<notin> set A) \<and>
     (\<forall>a \<in> set B. \<exists>to m. a = SendMessage to m \<and> honest n' to m)"
  by (simp add: call_effect_def)

lemma call_effect_honest: "call_effect n acts n' \<Longrightarrow> SendMessage to m \<in> set acts \<Longrightarrow> honest n' to m"
  using call_effect_sends [of n acts n'] by auto

lemma safe_point_restarts:
  assumes "safe_point n p"
  shows "\<exists>m. new_raft_node (rn_config n) p t rnd = Inr m \<and> raft_inv m \<and> rn_config m = rn_config n \<and>
    persistent_of m = p \<and> rn_role m = Follower"
proof -
  obtain m where m: "raft_inv m" "rn_config m = rn_config n" "persistent_of m = p"
    using assms by (auto simp: safe_point_def)
  note v = persistent_of_valid [OF m(1)]
  have "config_ok (rn_config n)" using m(1,2) by (simp add: raft_inv_def)
  then show ?thesis
    using new_raft_node_ok [of "rn_config n" p t rnd] v m(2,3) by (auto simp: ok_to_iff)
qed

section \<open>A node for the witnesses\<close>

definition sample_config :: RaftConfig where
  "sample_config = \<lparr>cfg_self_id = 1, cfg_cluster_id = 7, cfg_voters = [1, 2, 3], cfg_election_timeout_min = 150,
     cfg_election_timeout_max = 300, cfg_heartbeat_interval = 50, cfg_max_append_entries = 64,
     cfg_max_append_bytes = 1024\<rparr>"

definition sample_persistent :: RaftPersistentState where
  "sample_persistent = \<lparr>ps_current_term = 1, ps_voted_for = None, ps_snapshot = None,
     ps_log = [\<lparr>e_index = 1, e_term = 1, e_kind = No_op, e_command = []\<rparr>]\<rparr>"

definition sample_node :: RaftNode where
  "sample_node = \<lparr>rn_config = sample_config, rn_role = Candidate, rn_current_term = 2, rn_voted_for = Some 1,
     rn_leader_id = None, rn_durable_snapshot = None,
     rn_log = [\<lparr>e_index = 0, e_term = 0, e_kind = No_op, e_command = []\<rparr>,
       \<lparr>e_index = 1, e_term = 1, e_kind = No_op, e_command = []\<rparr>],
     rn_commit_index = 0, rn_last_applied = 0, rn_now = 10, rn_election_deadline = 200, rn_heartbeat_deadline = 0,
     rn_random = sconst 0, rn_votes_received = [1], rn_peer_progress = [], rn_incoming_snapshot = None,
     rn_next_rpc_id = 1, rn_actions = []\<rparr>"

lemma sample_config_ok: "config_ok sample_config"
  by (simp add: config_ok_def validate_raft_config_def sample_config_def)

lemma sample_inv: "raft_inv sample_node"
proof -
  have "log_ok 2 (rn_log sample_node)"
    by (auto simp: log_ok_def sample_node_def u64_max_def less_Suc_eq)
  then show ?thesis
    using sample_config_ok
    by (simp add: raft_inv_def sample_node_def snapshot_ok_def snapshot_positive_def snapshot_index_def
        snapshot_term_def peers_ok_def node_access u64_max_def) (simp add: sample_config_def)
qed

lemma sample_room: "room sample_node"
  by (simp add: room_def sample_node_def sample_config_def node_access u64_max_def)

section \<open>Properties of a node\<close>

text \<open>Starting a node from a valid persistent state succeeds. The new node is a follower that
  satisfies the invariant, its durable part is the state it was given, and it takes nothing beyond the
  snapshot as committed.\<close>

theorem raft_restart_recovers:
  assumes "validate_raft_config cfg = Inr ()" and "validate_persistent_state cfg p = Inr ()" and "persistent_fits p"
  shows "\<exists>n. new_raft_node cfg p t rnd = Inr n \<and> raft_inv n \<and> persistent_of n = p \<and> rn_role n = Follower \<and>
    rn_commit_index n = snapshot_index (ps_snapshot p)"
  using new_raft_node_ok [of cfg p t rnd] assms by (auto simp: ok_to_iff config_ok_def)

theorem raft_restart_recovers_witness:
  "\<exists>n. new_raft_node sample_config sample_persistent 5 (sconst 0) = Inr n \<and> raft_inv n \<and>
     persistent_of n = sample_persistent \<and> rn_role n = Follower \<and>
     rn_commit_index n = snapshot_index (ps_snapshot sample_persistent)"
  by (rule raft_restart_recovers)
     (simp_all add: validate_raft_config_def validate_persistent_state_def sample_config_def
       sample_persistent_def persistent_fits_def snapshot_index_def snapshot_term_def u64_max_def add64_def)

text \<open>C11. Every call on a well-formed node either is refused with one of the documented exceptions or
  returns a well-formed node on which the run-time check \<^verbatim>\<open>verify_invariants\<close> passes: no call ends in
  a logic error or reads the log out of range.\<close>

theorem raft_call_total:
  assumes "raft_inv n" and "call_fits c n"
  shows "(\<exists>e. refused c n = Some e \<and> call c n = Inl e) \<or>
    (\<exists>acts n'. refused c n = None \<and> call c n = Inr (acts, n') \<and> raft_inv n' \<and> verify_invariants n' = Inr n')"
proof (cases "refused c n")
  case None
  obtain acts n' where "call c n = Inr (acts, n')" "call_effect n acts n'"
    by (rule call_returns [OF assms None])
  then show ?thesis using None raft_inv_verify by (auto simp: call_effect_def)
next
  case (Some e)
  then show ?thesis using call_refused [OF assms(1)] by simp
qed

theorem raft_call_total_witness:
  "raft_inv sample_node \<and> refused (Advance_time 500) sample_node = None \<and>
   (\<exists>acts n'. call (Advance_time 500) sample_node = Inr (acts, n') \<and> raft_inv n')"
proof -
  have "refused (Advance_time 500) sample_node = None" by (simp add: sample_node_def u64_max_def)
  then show ?thesis
    using raft_call_total [of sample_node "Advance_time 500"] sample_inv sample_room by auto
qed

text \<open>C18. Terms never go back, a vote cast in a term is never changed within the term, the commit
  index never goes back, and a committed entry that the log still holds is never changed.\<close>

theorem raft_call_monotone:
  assumes "raft_inv n" and "call_fits c n" and "refused c n = None"
  shows "\<exists>acts n'. call c n = Inr (acts, n') \<and> rn_current_term n \<le> rn_current_term n' \<and>
    (rn_current_term n' = rn_current_term n \<and> rn_voted_for n \<noteq> None \<longrightarrow> rn_voted_for n' = rn_voted_for n) \<and>
    rn_commit_index n \<le> rn_commit_index n' \<and>
    (\<forall>i. base_index n' < i \<and> i \<le> rn_commit_index n \<longrightarrow> log_entry n' i = log_entry n i)"
proof -
  obtain acts n' where "call c n = Inr (acts, n')" "call_effect n acts n'" by (rule call_returns [OF assms])
  then show ?thesis by (auto simp: call_effect_def kept_def)
qed


definition sample_vote :: Message where
  "sample_vote = Msg_RequestVoteResponse \<lparr>rvr_term = 2, rvr_vote_granted = True\<rparr>"

lemma sample_vote_fits: "call_fits (Step 3 sample_vote) sample_node"
  using sample_room by (simp add: sample_vote_def u64_max_def)

theorem raft_call_monotone_witness:
  "\<exists>acts n'. call (Step 3 sample_vote) sample_node = Inr (acts, n') \<and>
     rn_current_term sample_node \<le> rn_current_term n' \<and> rn_commit_index sample_node \<le> rn_commit_index n'"
  using raft_call_monotone [OF sample_inv sample_vote_fits] by auto

text \<open>C9. Persist before send: the actions of a call are first those that make the node's term, vote,
  log and snapshot durable, then the messages. Before the first message goes out, replaying the persist
  actions on the old durable state gives the durable part of the new node.\<close>

theorem raft_persists_before_sending:
  assumes "raft_inv n" and "call_fits c n" and "refused c n = None"
  shows "\<exists>A B n'. call c n = Inr (A @ B, n') \<and> fold persist A (persistent_of n) = persistent_of n' \<and>
    (\<forall>to m. SendMessage to m \<notin> set A) \<and> (\<forall>a \<in> set B. \<exists>to m. a = SendMessage to m)"
proof -
  obtain acts n' where c: "call c n = Inr (acts, n')" "call_effect n acts n'" by (rule call_returns [OF assms])
  obtain A B where AB: "acts = A @ B" "\<forall>to m. SendMessage to m \<notin> set A"
      "\<forall>a \<in> set B. \<exists>to m. a = SendMessage to m \<and> honest n' to m"
    using call_effect_sends [OF c(2)] by (elim exE conjE)
  have s: "\<forall>a \<in> set B. \<exists>to m. a = SendMessage to m" using AB(3) by blast
  have "fold persist A (persistent_of n) = persistent_of n'"
    using c(2) AB(1) fold_sends(1) [OF s] by (simp add: call_effect_def)
  then show ?thesis using c(1) AB(1,2) s by (intro exI [of _ A] exI [of _ B] exI [of _ n']) simp
qed

theorem raft_persists_before_sending_witness:
  "\<exists>A B n'. call (Step 3 sample_vote) sample_node = Inr (A @ B, n') \<and>
     fold persist A (persistent_of sample_node) = persistent_of n' \<and> (\<forall>to m. SendMessage to m \<notin> set A)"
  using raft_persists_before_sending [OF sample_inv sample_vote_fits] by auto

text \<open>C10. A crash between any two actions of a call is recoverable: what is durable then is accepted by
  the constructor, and the restarted node has not gone back behind the term or the vote it had.\<close>

theorem raft_crash_recoverable:
  assumes "raft_inv n" and "call_fits c n" and "refused c n = None"
  shows "\<exists>acts n'. call c n = Inr (acts, n') \<and>
    (\<forall>k t rnd. \<exists>m. new_raft_node (rn_config n) (fold persist (take k acts) (persistent_of n)) t rnd = Inr m \<and>
       raft_inv m \<and> rn_current_term n \<le> rn_current_term m \<and>
       (rn_current_term m = rn_current_term n \<and> rn_voted_for n \<noteq> None \<longrightarrow> rn_voted_for m = rn_voted_for n))"
proof -
  obtain acts n' where c: "call c n = Inr (acts, n')" "call_effect n acts n'" by (rule call_returns [OF assms])
  have "\<exists>m. new_raft_node (rn_config n) p t rnd = Inr m \<and> raft_inv m \<and> rn_current_term n \<le> rn_current_term m \<and>
      (rn_current_term m = rn_current_term n \<and> rn_voted_for n \<noteq> None \<longrightarrow> rn_voted_for m = rn_voted_for n)"
    if "safe_point n p" for p t rnd
    using safe_point_restarts [OF that, of t rnd] that
    by (auto simp: safe_point_def hard_kept_def persistent_of_def)
  then show ?thesis using c by (auto simp: call_effect_def)
qed

theorem raft_crash_recoverable_witness:
  "\<exists>acts n'. call (Step 3 sample_vote) sample_node = Inr (acts, n') \<and>
    (\<forall>k t rnd. \<exists>m. new_raft_node (rn_config sample_node)
       (fold persist (take k acts) (persistent_of sample_node)) t rnd = Inr m \<and> raft_inv m)"
  using raft_crash_recoverable [OF sample_inv sample_vote_fits] by fastforce

text \<open>The state machine is fed in order: each call hands out the entries after the last applied one
  with consecutive indexes, each as it stands in the log, up to the commit index, or a snapshot further on.\<close>

theorem raft_applies_in_order:
  assumes "raft_inv n" and "call_fits c n" and "refused c n = None"
  shows "\<exists>acts n'. call c n = Inr (acts, n') \<and>
    fold apply_index acts (Some (rn_last_applied n)) = Some (rn_last_applied n') \<and>
    rn_last_applied n' = rn_commit_index n' \<and>
    (\<forall>e. ApplyEntry e \<in> set acts \<and> base_index n' < e_index e \<longrightarrow> log_entry n' (e_index e) = Some e)"
proof -
  obtain acts n' where "call c n = Inr (acts, n')" "call_effect n acts n'" by (rule call_returns [OF assms])
  then show ?thesis using raft_invD(9) by (auto simp: call_effect_def)
qed

theorem raft_applies_in_order_witness:
  "\<exists>acts n'. call (Step 3 sample_vote) sample_node = Inr (acts, n') \<and>
    fold apply_index acts (Some (rn_last_applied sample_node)) = Some (rn_last_applied n')"
  using raft_applies_in_order [OF sample_inv sample_vote_fits] by auto

text \<open>C19. Every message a call hands out carries the node's term and tells the truth about the node it
  leaves: a granted vote is the recorded vote, a vote request names the candidate and its last entry, an
  AppendEntries is a piece of the leader's log within the batch limits, an InstallSnapshot a piece of its
  snapshot.\<close>

theorem raft_messages_truthful:
  assumes "raft_inv n" and "call_fits c n" and "call c n = Inr (acts, n')" and "SendMessage to m \<in> set acts"
  shows "message_term m = rn_current_term n' \<and> honest n' to m"
proof -
  have "honest n' to m" using call_effect_honest [OF call_returned(1) [OF assms(1-3)] assms(4)] .
  then show ?thesis by (cases "(n', to, m)" rule: honest.cases) auto
qed

text \<open>C17. A leader advances its commit index only to an entry of its own term that a quorum of the
  voters, itself included, is known to store.\<close>

theorem raft_leader_commit_rule:
  assumes "raft_inv n" and "advance_leader_commit n = Inr (True, n')"
  shows "rn_commit_index n < rn_commit_index n' \<and> rn_commit_index n' \<le> last_log_index n \<and>
    map_option e_term (log_entry n (rn_commit_index n')) = Some (rn_current_term n) \<and>
    quorum n \<le> replicated (rn_commit_index n') n"
proof -
  obtain c where "rn_commit_index n < c" "c \<le> last_log_index n" "commits c n n'"
      "e_term (rn_log n ! (c - base_index n)) = rn_current_term n" "quorum n \<le> replicated c n"
    using advance_leader_commit_ok [OF assms(1)] assms(2) by (auto simp: leader_commits_def)
  then show ?thesis
    using commits_same [of c n n'] raft_invD(7) [OF assms(1)] by (auto simp: log_entry_def)
qed

section \<open>A cluster\<close>

text \<open>Any two majorities of a finite set have a member in common.\<close>

locale majority_system =
  fixes members :: "'a set"
  assumes finite_members: "finite members"
begin

definition majority :: "'a set \<Rightarrow> bool" where
  "majority Q \<longleftrightarrow> Q \<subseteq> members \<and> card members < 2 * card Q"

lemma majorities_meet:
  assumes "majority P" and "majority Q"
  obtains x where "x \<in> P" "x \<in> Q"
proof (cases "P \<inter> Q = {}")
  case True
  have fin: "finite P" "finite Q" using assms finite_members by (auto simp: majority_def intro: finite_subset)
  have "card P + card Q \<le> card members"
    using card_Un_disjoint [OF fin True] assms finite_members
    by (metis Un_least card_mono majority_def)
  then show ?thesis using assms by (simp add: majority_def)
qed (use that in blast)

end

interpretation voter_majority: majority_system "set voters" for voters :: "NodeId list"
  by unfold_locales simp

text \<open>
  The cluster: a node per voter, the messages sent so far (a message may be lost, delayed, repeated and
  reordered), and two histories, the votes that became durable and the leaders that were elected.
\<close>

record Network =
  net_nodes :: "NodeId \<Rightarrow> RaftNode"
  net_sent :: "(NodeId \<times> NodeId \<times> Message) set"
  net_votes :: "(NodeId \<times> Term \<times> NodeId) set"
  net_leaders :: "(Term \<times> NodeId) set"

definition sends_of :: "NodeId \<Rightarrow> Actions \<Rightarrow> (NodeId \<times> NodeId \<times> Message) set" where
  "sends_of v acts = {(v, to, m) | to m. SendMessage to m \<in> set acts}"

definition vote_of :: "NodeId \<Rightarrow> RaftPersistentState \<Rightarrow> (NodeId \<times> Term \<times> NodeId) set" where
  "vote_of v p = {(v, ps_current_term p, c) | c. ps_voted_for p = Some c}"

definition leader_of :: "NodeId \<Rightarrow> RaftNode \<Rightarrow> (Term \<times> NodeId) set" where
  "leader_of v n = (if rn_role n = Leader then {(rn_current_term n, v)} else {})"

fun delivered :: "Call \<Rightarrow> NodeId \<Rightarrow> Network \<Rightarrow> bool" where
  "delivered (Step from m) v s \<longleftrightarrow> (from, v, m) \<in> net_sent s"
| "delivered _ v s \<longleftrightarrow> True"

definition after_call :: "NodeId \<Rightarrow> Actions \<Rightarrow> RaftNode \<Rightarrow> Network \<Rightarrow> Network" where
  "after_call v acts n' s = s\<lparr>net_nodes := (net_nodes s)(v := n'), net_sent := net_sent s \<union> sends_of v acts,
     net_votes := net_votes s \<union> vote_of v (persistent_of n'), net_leaders := net_leaders s \<union> leader_of v n'\<rparr>"

definition after_crash :: "NodeId \<Rightarrow> Actions \<Rightarrow> RaftNode \<Rightarrow> RaftPersistentState \<Rightarrow> RaftNode \<Rightarrow> Network \<Rightarrow> Network" where
  "after_crash v done n' p m s = s\<lparr>net_nodes := (net_nodes s)(v := m), net_sent := net_sent s \<union> sends_of v done,
     net_votes := net_votes s \<union> vote_of v p,
     net_leaders := net_leaders s \<union> (if p = persistent_of n' then leader_of v n' else {})\<rparr>"

text \<open>
  A node completes a call, or crashes after having carried out the first \<open>k\<close> actions of a call and
  restarts from what is durable then.
\<close>

inductive net_step :: "NodeId list \<Rightarrow> Network \<Rightarrow> Network \<Rightarrow> bool" for voters where
  complete: "v \<in> set voters \<Longrightarrow> delivered c v s \<Longrightarrow> call_fits c (net_nodes s v) \<Longrightarrow>
    call c (net_nodes s v) = Inr (acts, n') \<Longrightarrow> net_step voters s (after_call v acts n' s)"
| crash: "v \<in> set voters \<Longrightarrow> delivered c v s \<Longrightarrow> call_fits c (net_nodes s v) \<Longrightarrow>
    call c (net_nodes s v) = Inr (acts, n') \<Longrightarrow> p = fold persist (take k acts) (persistent_of (net_nodes s v)) \<Longrightarrow>
    new_raft_node (rn_config (net_nodes s v)) p t rnd = Inr m \<Longrightarrow>
    net_step voters s (after_crash v (take k acts) n' p m s)"

definition net_start :: "NodeId list \<Rightarrow> Network \<Rightarrow> bool" where
  "net_start voters s \<longleftrightarrow> net_sent s = {} \<and> net_leaders s = {} \<and>
     (\<forall>v \<in> set voters. \<exists>cfg p t rnd. cfg_self_id cfg = v \<and> cfg_voters cfg = voters \<and> persistent_fits p \<and>
        new_raft_node cfg p t rnd = Inr (net_nodes s v)) \<and>
     net_votes s = (\<Union>v \<in> set voters. vote_of v (persistent_of (net_nodes s v)))"

inductive net_reachable :: "NodeId list \<Rightarrow> Network \<Rightarrow> bool" for voters where
  start: "net_start voters s \<Longrightarrow> net_reachable voters s"
| step: "net_reachable voters s \<Longrightarrow> net_step voters s s' \<Longrightarrow> net_reachable voters s'"


subsection \<open>The invariant of the cluster\<close>

definition node_ok :: "NodeId list \<Rightarrow> NodeId \<Rightarrow> RaftNode \<Rightarrow> bool" where
  "node_ok voters v n \<longleftrightarrow> raft_inv n \<and> self_id n = v \<and> cfg_voters (rn_config n) = voters"

definition votes_ok :: "NodeId list \<Rightarrow> Network \<Rightarrow> bool" where
  "votes_ok voters s \<longleftrightarrow>
     (\<forall>(v, t, c) \<in> net_votes s. v \<in> set voters \<and> (t < rn_current_term (net_nodes s v) \<or>
        t = rn_current_term (net_nodes s v) \<and> rn_voted_for (net_nodes s v) = Some c)) \<and>
     (\<forall>v t c c'. (v, t, c) \<in> net_votes s \<and> (v, t, c') \<in> net_votes s \<longrightarrow> c = c') \<and>
     (\<forall>v \<in> set voters. vote_of v (persistent_of (net_nodes s v)) \<subseteq> net_votes s)"

definition backed :: "NodeId list \<Rightarrow> Network \<Rightarrow> Term \<Rightarrow> NodeId \<Rightarrow> bool" where
  "backed voters s t c \<longleftrightarrow> (\<exists>Q. voter_majority.majority voters Q \<and> (\<forall>w \<in> Q. (w, t, c) \<in> net_votes s))"

definition net_inv :: "NodeId list \<Rightarrow> Network \<Rightarrow> bool" where
  "net_inv voters s \<longleftrightarrow> (\<forall>v \<in> set voters. node_ok voters v (net_nodes s v)) \<and> votes_ok voters s \<and>
     (\<forall>v to r. (v, to, Msg_RequestVoteResponse r) \<in> net_sent s \<and> rvr_vote_granted r \<longrightarrow>
        (v, rvr_term r, to) \<in> net_votes s) \<and>
     (\<forall>v \<in> set voters. rn_role (net_nodes s v) = Candidate \<longrightarrow>
        (\<forall>w \<in> set (rn_votes_received (net_nodes s v)). (w, rn_current_term (net_nodes s v), v) \<in> net_votes s)) \<and>
     (\<forall>(t, c) \<in> net_leaders s. backed voters s t c) \<and>
     (\<forall>v \<in> set voters. rn_role (net_nodes s v) = Leader \<longrightarrow> (rn_current_term (net_nodes s v), v) \<in> net_leaders s)"

lemma votes_advance:
  assumes "votes_ok voters s" and "v \<in> set voters"
    and "hard_kept (persistent_of (net_nodes s v)) (persistent_of m)"
    and "net_nodes s' = (net_nodes s)(v := m)" and "net_votes s' = net_votes s \<union> vote_of v (persistent_of m)"
  shows "votes_ok voters s'"
proof -
  have old: "t < rn_current_term (net_nodes s v) \<or> t = rn_current_term (net_nodes s v) \<and> rn_voted_for (net_nodes s v) = Some c"
    if "(v, t, c) \<in> net_votes s" for t c
    using that assms(1) by (fastforce simp: votes_ok_def)
  have k: "rn_current_term (net_nodes s v) \<le> rn_current_term m"
      "rn_current_term m = rn_current_term (net_nodes s v) \<and> rn_voted_for (net_nodes s v) \<noteq> None \<longrightarrow>
        rn_voted_for m = rn_voted_for (net_nodes s v)"
    using assms(3) by (simp_all add: hard_kept_def persistent_of_def)
  have cur: "t < rn_current_term m \<or> t = rn_current_term m \<and> rn_voted_for m = Some c"
    if "(v, t, c) \<in> net_votes s" for t c
    using old [OF that] k by fastforce
  have new: "(v', t, c) \<in> vote_of v (persistent_of m) \<longleftrightarrow> v' = v \<and> t = rn_current_term m \<and> rn_voted_for m = Some c"
    for v' t c by (auto simp: vote_of_def persistent_of_def)
  have "c = c'" if "(v', t, c) \<in> net_votes s'" "(v', t, c') \<in> net_votes s'" for v' t c c'
    using that assms(1) cur [of t c] cur [of t c'] unfolding assms(5) by (auto simp: new votes_ok_def)
  moreover have "v' \<in> set voters \<and> (t < rn_current_term (net_nodes s' v') \<or>
      t = rn_current_term (net_nodes s' v') \<and> rn_voted_for (net_nodes s' v') = Some c)"
    if "(v', t, c) \<in> net_votes s'" for v' t c
    using that assms(1,2) cur [of t c] unfolding assms(4,5) by (fastforce simp: new votes_ok_def)
  moreover have "vote_of w (persistent_of (net_nodes s' w)) \<subseteq> net_votes s'" if "w \<in> set voters" for w
    using that assms(1) unfolding assms(4,5) by (auto simp: votes_ok_def)
  ultimately show ?thesis unfolding votes_ok_def by fast
qed

lemma backed_mono: "backed voters s t c \<Longrightarrow> net_votes s \<subseteq> net_votes s' \<Longrightarrow> backed voters s' t c"
  by (auto simp: backed_def)

lemma backed_unique:
  assumes "votes_ok voters s" and "backed voters s t a" and "backed voters s t b"
  shows "a = b"
proof -
  obtain P Q where PQ: "voter_majority.majority voters P" "\<forall>w \<in> P. (w, t, a) \<in> net_votes s"
      "voter_majority.majority voters Q" "\<forall>w \<in> Q. (w, t, b) \<in> net_votes s"
    using assms(2,3) by (auto simp: backed_def)
  obtain w where "w \<in> P" "w \<in> Q" by (rule voter_majority.majorities_meet [OF PQ(1,3)])
  then have "(w, t, a) \<in> net_votes s" "(w, t, b) \<in> net_votes s" using PQ(2,4) by simp_all
  then show ?thesis using assms(1) unfolding votes_ok_def by blast
qed

lemma self_vote:
  assumes "node_ok voters v n" and "rn_role n \<noteq> Follower"
  shows "(v, rn_current_term n, v) \<in> vote_of v (persistent_of n)"
  using assms by (simp add: node_ok_def raft_inv_def vote_of_def persistent_of_def)

lemma counted_majority:
  assumes "node_ok voters v n" and "set ws \<subseteq> set voters" and "distinct ws" and "quorum n \<le> length ws"
  shows "voter_majority.majority voters (set ws)"
proof -
  have "distinct voters" using assms(1) config_okD(1) by (auto simp: node_ok_def raft_inv_def)
  then show ?thesis
    using assms by (auto simp: voter_majority.majority_def quorum_def node_ok_def distinct_card)
qed

text \<open>A node that is candidate or leader after a call has the votes it counted.\<close>

lemma standing_backed:
  assumes "net_inv voters s" and "v \<in> set voters" and "delivered c v s" and "standing c (net_nodes s v) n'"
    and "node_ok voters v n'" and "net_votes s \<union> vote_of v (persistent_of n') \<subseteq> net_votes s'"
  shows "rn_role n' = Candidate \<Longrightarrow> \<forall>w \<in> set (rn_votes_received n'). (w, rn_current_term n', v) \<in> net_votes s'"
    and "rn_role n' = Leader \<Longrightarrow> (rn_current_term n', v) \<in> net_leaders s \<or> backed voters s' (rn_current_term n') v"
proof -
  let ?n = "net_nodes s v"
  have ok: "node_ok voters v ?n" using assms(1,2) by (simp add: net_inv_def)
  have self: "(v, rn_current_term n', v) \<in> net_votes s'" if "rn_role n' \<noteq> Follower"
    using self_vote [OF assms(5) that] assms(6) by blast
  have counted: "(w, rn_current_term ?n, v) \<in> net_votes s'"
    if "rn_role ?n = Candidate" "w \<in> set (rn_votes_received ?n)" for w
    using that assms(1,2,6) by (auto simp: net_inv_def)
  have granted: "(w, rn_current_term ?n, v) \<in> net_votes s'"
    if "c = Step w (Msg_RequestVoteResponse r)" "rvr_term r = rn_current_term ?n" "rvr_vote_granted r" for w r
    using that assms(1,3,6) by (fastforce simp: net_inv_def)
  have lead: "(rn_current_term n', v) \<in> net_leaders s" if "rn_role ?n = Leader" "rn_current_term n' = rn_current_term ?n"
    using that assms(1,2) by (auto simp: net_inv_def)
  show "\<forall>w \<in> set (rn_votes_received n'). (w, rn_current_term n', v) \<in> net_votes s'" if "rn_role n' = Candidate"
    using assms(4) that self counted granted ok unfolding standing_def no_gain_def
    by (auto simp: node_ok_def split: if_splits)
  show "(rn_current_term n', v) \<in> net_leaders s \<or> backed voters s' (rn_current_term n') v" if leader: "rn_role n' = Leader"
  proof -
    consider "no_gain ?n n'" | w r where "c = Step w (Msg_RequestVoteResponse r)" "is_voter w ?n"
        "rvr_term r = rn_current_term ?n" "rvr_vote_granted r" "rn_role ?n = Candidate"
        "rn_current_term n' = rn_current_term ?n" "quorum ?n \<le> length (List.insert w (rn_votes_received ?n))"
      | "length voters = 1"
      using assms(4) leader ok by (auto simp: standing_def node_ok_def split: if_splits)
    then show ?thesis
    proof cases
      case 1
      then show ?thesis using that lead by (auto simp: no_gain_def)
    next
      case 2
      let ?ws = "List.insert w (rn_votes_received ?n)"
      have "voter_majority.majority voters (set ?ws)"
        using 2 ok by (intro counted_majority [OF ok]) (auto simp: node_ok_def raft_inv_def is_voter_def)
      moreover have "\<forall>x \<in> set ?ws. (x, rn_current_term n', v) \<in> net_votes s'"
        using 2 granted counted by auto
      ultimately show ?thesis unfolding backed_def by blast
    next
      case 3
      then have "voters = [v]" using assms(2) by (cases voters) auto
      then have "voter_majority.majority voters {v}" unfolding voter_majority.majority_def by simp
      then show ?thesis using self that unfolding backed_def by auto
    qed
  qed
qed


lemma net_inv_advance:
  assumes "net_inv voters s" and "v \<in> set voters" and "node_ok voters v m"
    and "hard_kept (persistent_of (net_nodes s v)) (persistent_of m)"
    and "net_nodes s' = (net_nodes s)(v := m)" and "net_votes s' = net_votes s \<union> vote_of v (persistent_of m)"
    and "net_sent s' = net_sent s \<union> S" and "net_leaders s' = net_leaders s \<union> L"
    and "\<forall>w to r. (w, to, Msg_RequestVoteResponse r) \<in> S \<and> rvr_vote_granted r \<longrightarrow> (w, rvr_term r, to) \<in> net_votes s'"
    and "rn_role m = Candidate \<longrightarrow> (\<forall>w \<in> set (rn_votes_received m). (w, rn_current_term m, v) \<in> net_votes s')"
    and "\<forall>(t, c) \<in> L. backed voters s' t c"
    and "rn_role m = Leader \<longrightarrow> (rn_current_term m, v) \<in> net_leaders s'"
  shows "net_inv voters s'"
proof -
  have mono: "net_votes s \<subseteq> net_votes s'" using assms(6) by blast
  have "votes_ok voters s'"
    using assms(1) by (intro votes_advance [OF _ assms(2,4,5,6)]) (simp add: net_inv_def)
  moreover have "\<forall>w \<in> set voters. node_ok voters w (net_nodes s' w)"
    using assms(1,3) unfolding assms(5) by (simp add: net_inv_def)
  moreover have "\<forall>w to r. (w, to, Msg_RequestVoteResponse r) \<in> net_sent s' \<and> rvr_vote_granted r \<longrightarrow>
      (w, rvr_term r, to) \<in> net_votes s'"
    using assms(1,9) mono unfolding assms(7) net_inv_def by blast
  moreover have "\<forall>w \<in> set voters. rn_role (net_nodes s' w) = Candidate \<longrightarrow>
      (\<forall>x \<in> set (rn_votes_received (net_nodes s' w)). (x, rn_current_term (net_nodes s' w), w) \<in> net_votes s')"
    using assms(1,10) mono unfolding assms(5) net_inv_def by (auto split: if_splits)
  moreover have "\<forall>(t, c) \<in> net_leaders s'. backed voters s' t c"
    using assms(1,11) backed_mono [OF _ mono] unfolding assms(8) net_inv_def by blast
  moreover have "\<forall>w \<in> set voters. rn_role (net_nodes s' w) = Leader \<longrightarrow>
      (rn_current_term (net_nodes s' w), w) \<in> net_leaders s'"
    using assms(1,12) unfolding assms(5) net_inv_def assms(8) by auto
  ultimately show ?thesis unfolding net_inv_def by blast
qed

lemma granted_votes:
  assumes "call_effect n acts n'" and "(w, to, Msg_RequestVoteResponse r) \<in> sends_of v acts" and "rvr_vote_granted r"
  shows "(w, rvr_term r, to) \<in> vote_of v (persistent_of n')"
  using assms(2,3) call_effect_honest [OF assms(1), of to "Msg_RequestVoteResponse r"]
  by (auto simp: sends_of_def vote_of_def persistent_of_def)

lemma call_node_ok:
  assumes "node_ok voters v n" and "call_effect n acts n'"
  shows "node_ok voters v n'"
  using assms by (simp add: node_ok_def call_effect_def kept_def)

lemma net_inv_complete:
  assumes "net_inv voters s" and "v \<in> set voters" and "delivered c v s" and "call_fits c (net_nodes s v)"
    and "call c (net_nodes s v) = Inr (acts, n')"
  shows "net_inv voters (after_call v acts n' s)"
proof -
  have ok: "node_ok voters v (net_nodes s v)" using assms(1,2) by (simp add: net_inv_def)
  then have inv: "raft_inv (net_nodes s v)" by (simp add: node_ok_def)
  note eff = call_returned [OF inv assms(4,5)]
  note ok' = call_node_ok [OF ok eff(1)]
  let ?s = "after_call v acts n' s"
  have votes: "net_votes ?s = net_votes s \<union> vote_of v (persistent_of n')" by (simp add: after_call_def)
  then have "net_votes s \<union> vote_of v (persistent_of n') \<subseteq> net_votes ?s" by simp
  note elected = standing_backed [OF assms(1-3) eff(2) ok' this]
  show ?thesis
  proof (rule net_inv_advance [OF assms(1,2) ok', where S = "sends_of v acts" and L = "leader_of v n' - net_leaders s"])
    show "hard_kept (persistent_of (net_nodes s v)) (persistent_of n')"
      using eff(1) by (simp add: call_effect_def kept_hard)
    show "\<forall>w to r. (w, to, Msg_RequestVoteResponse r) \<in> sends_of v acts \<and> rvr_vote_granted r \<longrightarrow>
        (w, rvr_term r, to) \<in> net_votes ?s"
      using granted_votes [OF eff(1)] unfolding votes by blast
    show "rn_role n' = Candidate \<longrightarrow> (\<forall>w \<in> set (rn_votes_received n'). (w, rn_current_term n', v) \<in> net_votes ?s)"
      using elected(1) by blast
    show "\<forall>(t, c) \<in> leader_of v n' - net_leaders s. backed voters ?s t c"
      using elected(2) by (auto simp: leader_of_def)
  qed (auto simp: after_call_def leader_of_def)
qed


lemma sends_need_persistence:
  assumes "call_effect n acts n'" and "SendMessage to m \<in> set (take k acts)"
  shows "fold persist (take k acts) (persistent_of n) = persistent_of n'"
proof -
  obtain A B where AB: "acts = A @ B" "\<forall>to m. SendMessage to m \<notin> set A"
      "\<forall>a \<in> set B. \<exists>to m. a = SendMessage to m \<and> honest n' to m"
    using call_effect_sends [OF assms(1)] by (elim exE conjE)
  have "length A < k"
    using assms(2) AB(2) by (rule_tac ccontr) (auto simp: AB(1) dest: in_set_takeD)
  then have tk: "take k acts = A @ take (k - length A) B" by (simp add: AB(1))
  have s: "\<forall>a \<in> set B. \<exists>to m. a = SendMessage to m" using AB(3) by blast
  then have s': "\<forall>a \<in> set (take (k - length A) B). \<exists>to m. a = SendMessage to m" by (meson in_set_takeD)
  have "fold persist A (persistent_of n) = persistent_of n'"
    using assms(1) fold_sends(1) [OF s] by (simp add: call_effect_def AB(1))
  then show ?thesis unfolding tk using fold_sends(1) [OF s'] by simp
qed

lemma net_inv_crash:
  assumes "net_inv voters s" and "v \<in> set voters" and "delivered c v s" and "call_fits c (net_nodes s v)"
    and "call c (net_nodes s v) = Inr (acts, n')" and "p = fold persist (take k acts) (persistent_of (net_nodes s v))"
    and "new_raft_node (rn_config (net_nodes s v)) p t rnd = Inr m"
  shows "net_inv voters (after_crash v (take k acts) n' p m s)"
proof -
  have ok: "node_ok voters v (net_nodes s v)" using assms(1,2) by (simp add: net_inv_def)
  then have inv: "raft_inv (net_nodes s v)" by (simp add: node_ok_def)
  note eff = call_returned [OF inv assms(4,5)]
  note ok' = call_node_ok [OF ok eff(1)]
  have safe: "safe_point (net_nodes s v) p" using eff(1) assms(6) by (simp add: call_effect_def)
  then have m: "raft_inv m" "rn_config m = rn_config (net_nodes s v)" "persistent_of m = p" "rn_role m = Follower"
    using safe_point_restarts [OF safe, of t rnd] assms(7) by auto
  then have okm: "node_ok voters v m" using ok by (simp add: node_ok_def)
  let ?s = "after_crash v (take k acts) n' p m s"
  have votes: "net_votes ?s = net_votes s \<union> vote_of v p" by (simp add: after_crash_def)
  show ?thesis
  proof (rule net_inv_advance [OF assms(1,2) okm, where S = "sends_of v (take k acts)"
        and L = "(if p = persistent_of n' then leader_of v n' else {}) - net_leaders s"])
    show "hard_kept (persistent_of (net_nodes s v)) (persistent_of m)"
      using safe m(3) by (simp add: safe_point_def)
    show "\<forall>w to r. (w, to, Msg_RequestVoteResponse r) \<in> sends_of v (take k acts) \<and> rvr_vote_granted r \<longrightarrow>
        (w, rvr_term r, to) \<in> net_votes ?s"
    proof (intro allI impI)
      fix w to r
      assume g: "(w, to, Msg_RequestVoteResponse r) \<in> sends_of v (take k acts) \<and> rvr_vote_granted r"
      then have "p = persistent_of n'"
        using sends_need_persistence [OF eff(1)] assms(6) by (auto simp: sends_of_def)
      moreover have "(w, to, Msg_RequestVoteResponse r) \<in> sends_of v acts"
        using g by (auto simp: sends_of_def dest: in_set_takeD)
      ultimately show "(w, rvr_term r, to) \<in> net_votes ?s"
        using granted_votes [OF eff(1)] g unfolding votes by blast
    qed
    show "\<forall>(t, c) \<in> (if p = persistent_of n' then leader_of v n' else {}) - net_leaders s. backed voters ?s t c"
    proof (cases "p = persistent_of n'")
      case True
      then have "net_votes s \<union> vote_of v (persistent_of n') \<subseteq> net_votes ?s" unfolding votes by simp
      note elected = standing_backed [OF assms(1-3) eff(2) ok' this]
      show ?thesis using elected(2) by (auto simp: leader_of_def)
    qed simp
  qed (auto simp: after_crash_def m)
qed

lemma net_inv_start:
  assumes "net_start voters s"
  shows "net_inv voters s"
proof -
  have node: "node_ok voters v (net_nodes s v)" "rn_role (net_nodes s v) = Follower" if "v \<in> set voters" for v
  proof -
    obtain cfg p t rnd where n: "cfg_self_id cfg = v" "cfg_voters cfg = voters" "persistent_fits p"
        "new_raft_node cfg p t rnd = Inr (net_nodes s v)"
      using assms \<open>v \<in> set voters\<close> by (auto simp: net_start_def)
    then have "config_ok cfg" "validate_persistent_state cfg p = Inr ()"
      by (auto simp: new_raft_node_def bindE_eq_Inr config_ok_def)
    then show "node_ok voters v (net_nodes s v)" "rn_role (net_nodes s v) = Follower"
      using new_raft_node_ok [of cfg p t rnd] n by (auto simp: node_ok_def)
  qed
  have "votes_ok voters s"
    using assms by (auto simp: votes_ok_def net_start_def vote_of_def persistent_of_def)
  then show ?thesis using node assms by (auto simp: net_inv_def net_start_def)
qed

lemma net_reachable_inv: "net_reachable voters s \<Longrightarrow> net_inv voters s"
  by (induction rule: net_reachable.induct)
     (auto intro: net_inv_start net_inv_complete net_inv_crash elim!: net_step.cases)

text \<open>C1. Election safety. In a cluster whose network may lose, delay, duplicate and reorder messages,
  and whose nodes may crash between any two actions of a call and restart from what is durable then, no
  two nodes are ever elected in the same term.\<close>

theorem raft_election_safety:
  assumes "net_reachable voters s" and "(t, a) \<in> net_leaders s" and "(t, b) \<in> net_leaders s"
  shows "a = b"
proof -
  have "votes_ok voters s" "\<forall>(t, c) \<in> net_leaders s. backed voters s t c"
    using net_reachable_inv [OF assms(1)] by (simp_all add: net_inv_def)
  then show ?thesis using backed_unique [of voters s t a b] assms(2,3) by blast
qed

definition lone_config :: RaftConfig where
  "lone_config = sample_config\<lparr>cfg_voters := [1]\<rparr>"

definition lone_persistent :: RaftPersistentState where
  "lone_persistent = \<lparr>ps_current_term = 0, ps_voted_for = None, ps_snapshot = None, ps_log = []\<rparr>"

definition lone_node :: RaftNode where
  "lone_node = \<lparr>rn_config = lone_config, rn_role = Follower, rn_current_term = 0, rn_voted_for = None,
     rn_leader_id = None, rn_durable_snapshot = None,
     rn_log = [\<lparr>e_index = 0, e_term = 0, e_kind = No_op, e_command = []\<rparr>],
     rn_commit_index = 0, rn_last_applied = 0, rn_now = 0, rn_election_deadline = 150, rn_heartbeat_deadline = 0,
     rn_random = sconst 0, rn_votes_received = [], rn_peer_progress = [], rn_incoming_snapshot = None,
     rn_next_rpc_id = 1, rn_actions = []\<rparr>"

lemma lone_started: "new_raft_node lone_config lone_persistent 0 (sconst 0) = Inr lone_node"
proof -
  have "ok_to (\<lambda>n. raft_inv n) (new_raft_node lone_config lone_persistent 0 (sconst 0))"
    by (rule ok_to_mono [OF new_raft_node_ok])
       (simp_all add: config_ok_def validate_raft_config_def validate_persistent_state_def lone_config_def
         sample_config_def lone_persistent_def persistent_fits_def snapshot_index_def snapshot_term_def u64_max_def)
  then show ?thesis
    by (simp add: new_raft_node_def validate_raft_config_def validate_persistent_state_def lone_config_def
         sample_config_def lone_persistent_def snapshot_index_def snapshot_term_def lone_node_def
         reset_election_deadline_def saturating_add_def u64_max_def verify_invariants_def base_index_def last_log_index_def)
qed

lemma lone_inv: "raft_inv lone_node" "room lone_node"
proof -
  have "persistent_fits lone_persistent" by (simp add: persistent_fits_def lone_persistent_def snapshot_index_def u64_max_def)
  moreover have "config_ok lone_config" "validate_persistent_state lone_config lone_persistent = Inr ()"
    using lone_started by (auto simp: new_raft_node_def bindE_eq_Inr config_ok_def)
  ultimately show "raft_inv lone_node"
    using new_raft_node_ok [of lone_config lone_persistent 0 "sconst 0"] lone_started by simp
  show "room lone_node" by (simp add: room_def lone_node_def node_access u64_max_def lone_config_def)
qed

lemma lone_elected:
  "\<exists>acts n'. call (Advance_time 500) lone_node = Inr (acts, n') \<and> rn_role n' = Leader \<and> rn_current_term n' = 1"
proof -
  let ?n = "lone_node\<lparr>rn_now := 500, rn_actions := []\<rparr>"
  have n: "raft_inv ?n" "room ?n" using lone_inv by (simp_all add: room_def node_access)
  obtain n1 where "start_election ?n = Inr n1" "elected_or_candidate ?n n1"
    using start_election_ok [OF n(1) _ _ n(2)] by (auto simp: ok_to_iff lone_node_def u64_max_def)
  then have n1: "start_election ?n = Inr n1" "raft_inv n1" "rn_role n1 = Leader" "rn_current_term n1 = 1"
    by (auto simp: elected_or_candidate_def evolves_def lone_node_def lone_config_def)
  have "call (Advance_time 500) lone_node = finish_call (start_election ?n)"
    by (simp add: advance_time_def) (simp add: lone_node_def)
  then show ?thesis using n1 raft_inv_verify [OF n1(2)] by (simp add: finish_call_def)
qed

theorem raft_election_safety_witness:
  "\<exists>s a b. net_reachable [1] s \<and> (1, a) \<in> net_leaders s \<and> (1, b) \<in> net_leaders s \<and> a = b"
proof -
  define s0 where "s0 = \<lparr>net_nodes = (\<lambda>v. lone_node), net_sent = {}, net_votes = {}, net_leaders = {}\<rparr>"
  have "net_start [1] s0"
    using lone_started
    by (auto simp: net_start_def s0_def vote_of_def persistent_of_def persistent_fits_def
        intro!: exI [of _ lone_config] exI [of _ lone_persistent] exI [of _ 0] exI [of _ "sconst 0"])
       (simp_all add: lone_config_def sample_config_def lone_persistent_def lone_node_def snapshot_index_def u64_max_def)
  then have r0: "net_reachable [1] s0" by (rule net_reachable.start)
  obtain acts n' where n': "call (Advance_time 500) lone_node = Inr (acts, n')" "rn_role n' = Leader" "rn_current_term n' = 1"
    using lone_elected by blast
  have "net_step [1] s0 (after_call 1 acts n' s0)"
    using n'(1) lone_inv(2) by (intro net_step.complete [of 1 _ "Advance_time 500"]) (simp_all add: s0_def)
  then have r1: "net_reachable [1] (after_call 1 acts n' s0)" by (rule net_reachable.step [OF r0])
  moreover have l: "(1, 1) \<in> net_leaders (after_call 1 acts n' s0)"
    using n'(2,3) by (simp add: after_call_def leader_of_def)
  ultimately show ?thesis using raft_election_safety [OF r1 l l] by blast
qed

section \<open>Whole runs\<close>

text \<open>A run of one node from a persistent state, with all the actions it handed out.\<close>

inductive raft_run :: "RaftConfig \<Rightarrow> RaftPersistentState \<Rightarrow> RaftNode \<Rightarrow> Actions \<Rightarrow> bool" for cfg p where
  start: "new_raft_node cfg p t rnd = Inr n \<Longrightarrow> raft_run cfg p n []"
| call: "raft_run cfg p n history \<Longrightarrow> call_fits c n \<Longrightarrow> call c n = Inr (acts, n') \<Longrightarrow>
    raft_run cfg p n' (history @ acts)"

text \<open>C12. Over a whole run, whatever the calls: the node stays well-formed, the persist actions handed
  out so far turn the initial durable state into the durable part of the node, and the apply actions move
  the state machine from the snapshot to the last applied index without a gap or a repetition.\<close>

theorem raft_run_durable_and_ordered:
  assumes "raft_run cfg p n history" and "persistent_fits p"
  shows "raft_inv n \<and> rn_config n = cfg \<and> fold persist history p = persistent_of n \<and>
    fold apply_index history (Some (snapshot_index (ps_snapshot p))) = Some (rn_last_applied n)"
  using assms(1)
proof induction
  case (start t rnd n)
  then have "config_ok cfg" "validate_persistent_state cfg p = Inr ()"
    by (auto simp: new_raft_node_def bindE_eq_Inr config_ok_def)
  then show ?case
    using new_raft_node_ok [OF _ _ assms(2), of cfg t rnd] start raft_invD(9) [of n] by auto
next
  case (call n history c acts n')
  then show ?case using call_returned(1) [of n c acts n'] by (auto simp: call_effect_def kept_def)
qed

theorem raft_run_durable_and_ordered_witness:
  "\<exists>acts n. raft_run lone_config lone_persistent n acts \<and> rn_role n = Leader \<and>
     fold persist acts lone_persistent = persistent_of n"
proof -
  obtain acts n' where n': "call (Advance_time 500) lone_node = Inr (acts, n')" "rn_role n' = Leader"
    using lone_elected by blast
  have "raft_run lone_config lone_persistent lone_node []" by (rule raft_run.start [OF lone_started])
  then have "raft_run lone_config lone_persistent n' ([] @ acts)"
    by (rule raft_run.call [of _ _ _ _ "Advance_time 500"]) (use n' lone_inv in simp_all)
  moreover have "persistent_fits lone_persistent"
    by (simp add: persistent_fits_def lone_persistent_def snapshot_index_def u64_max_def)
  ultimately show ?thesis using raft_run_durable_and_ordered [of lone_config lone_persistent n' "[] @ acts"] n'(2) by auto
qed

text \<open>C20. Every AppendEntries is answered, and answered with success only when the log then agrees with
  the message: the entry before the new ones has the term the leader gave, all the new entries are in
  place, and the reported match index is the last of them.\<close>

theorem raft_append_answer:
  assumes "raft_inv n" and "is_voter from n" and "ae_term m \<le> rn_current_term n"
    and "\<forall>e \<in> set (ae_entries m). 0 < e_term e \<and> e_index e < u64_max"
  shows "\<exists>n' before r. handle_append_entries from m n = Inr n' \<and>
    rn_actions n' = before @ [SendMessage from (Msg_AppendEntriesResponse r)] \<and> aer_rpc_id r = ae_rpc_id m \<and>
    (aer_success r \<longrightarrow> aer_match_index r = ae_previous_log_index m + length (ae_entries m) \<and>
       e_term (rn_log n' ! (ae_previous_log_index m - base_index n')) = ae_previous_log_term m \<and>
       (\<forall>j < length (ae_entries m). log_entry n' (Suc (ae_previous_log_index m) + j) = Some (ae_entries m ! j)))"
  using handle_append_entries_ok [OF assms] by (auto simp: ok_to_iff answers_append_def matches_def)

definition sample_append :: AppendEntries where
  "sample_append = \<lparr>ae_term = 2, ae_leader_id = 3, ae_previous_log_index = 1, ae_previous_log_term = 1,
     ae_entries = [\<lparr>e_index = 2, e_term = 2, e_kind = Command_entry, e_command = [5]\<rparr>], ae_leader_commit = 1,
     ae_rpc_id = 9\<rparr>"

theorem raft_append_answer_witness:
  "\<exists>n' before r. handle_append_entries 3 sample_append sample_node = Inr n' \<and>
    rn_actions n' = before @ [SendMessage 3 (Msg_AppendEntriesResponse r)] \<and> aer_rpc_id r = 9"
proof -
  have "is_voter 3 sample_node" "ae_term sample_append \<le> rn_current_term sample_node"
    "\<forall>e \<in> set (ae_entries sample_append). 0 < e_term e \<and> e_index e < u64_max" "ae_rpc_id sample_append = 9"
    by (simp_all add: is_voter_def sample_node_def sample_config_def sample_append_def u64_max_def)
  then show ?thesis using raft_append_answer [OF sample_inv, of 3 sample_append] by auto
qed

definition sample_request :: Message where
  "sample_request = Msg_RequestVote \<lparr>rv_term = 2, rv_candidate_id = 3, rv_last_log_index = 5, rv_last_log_term = 1\<rparr>"

lemma sample_refuses_vote:
  "call (Step 3 sample_request) sample_node =
     Inr ([SendMessage 3 (Msg_RequestVoteResponse \<lparr>rvr_term = 2, rvr_vote_granted = False\<rparr>)], sample_node)"
proof -
  let ?n = "push_action (SendMessage 3 (Msg_RequestVoteResponse \<lparr>rvr_term = 2, rvr_vote_granted = False\<rparr>)) sample_node"
  have f: "rn_current_term sample_node = 2" "rn_voted_for sample_node = Some 1" "self_id sample_node = 1"
      "is_voter 3 sample_node" "rn_actions sample_node = []" "sample_node\<lparr>rn_actions := []\<rparr> = sample_node"
    by (simp_all add: sample_node_def sample_config_def is_voter_def)
  have "step_impl 3 sample_request sample_node = Inr ?n"
    using f(1-4) by (simp add: step_impl_def sample_request_def handle_request_vote_def Let_def)
  moreover have "verify_invariants ?n = Inr ?n" by (rule raft_inv_verify) (simp add: sample_inv)
  ultimately show ?thesis by (simp add: step_def finish_call_def f(6)) (simp add: push_action_def f(5,6))
qed

theorem raft_messages_truthful_witness:
  "honest sample_node 3 (Msg_RequestVoteResponse \<lparr>rvr_term = 2, rvr_vote_granted = False\<rparr>)"
  using raft_messages_truthful [OF sample_inv _ sample_refuses_vote] sample_room
  by (simp add: sample_request_def u64_max_def)

definition lone_leader :: RaftNode where
  "lone_leader = lone_node\<lparr>rn_role := Leader, rn_current_term := 1, rn_voted_for := Some 1, rn_leader_id := Some 1,
     rn_log := rn_log lone_node @ [\<lparr>e_index = 1, e_term = 1, e_kind = No_op, e_command = []\<rparr>]\<rparr>"

lemma lone_leader_inv: "raft_inv lone_leader"
proof -
  have "log_ok 1 (rn_log lone_leader)"
    by (auto simp: log_ok_def lone_leader_def lone_node_def u64_max_def less_Suc_eq)
  moreover have "config_ok (rn_config lone_leader)"
    using lone_inv(1) by (simp add: raft_inv_def lone_leader_def)
  ultimately show ?thesis
    by (simp add: raft_inv_def snapshot_ok_def snapshot_positive_def snapshot_index_def snapshot_term_def
        peers_ok_def node_access u64_max_def lone_leader_def lone_node_def)
       (simp add: lone_config_def sample_config_def)
qed

theorem raft_leader_commit_rule_witness:
  "\<exists>n'. advance_leader_commit lone_leader = Inr (True, n') \<and> rn_commit_index n' = 1 \<and>
     quorum lone_leader \<le> replicated 1 lone_leader"
proof -
  have "\<exists>n'. advance_leader_commit lone_leader = Inr (True, n') \<and> rn_commit_index n' = 1"
    using commit_to_ok [OF lone_leader_inv, of 1]
    by (auto simp: advance_leader_commit_def entry_at_def quorum_def replicated_def last_log_index_def base_index_def
        lone_leader_def lone_node_def lone_config_def commits_def ok_to_iff)
  then show ?thesis using raft_leader_commit_rule [OF lone_leader_inv] by fastforce
qed

end
