(* ===== verification/Peer_Codec.thy ===== *)
theory Peer_Codec
  imports Frame Raft_Types
begin

text \<open>
  The payloads of Raft peer frames (\<^verbatim>\<open>encode_peer_frame\<close> and \<^verbatim>\<open>decode_peer_frame\<close> of
  \<^verbatim>\<open>src/cluster/codecs.cpp\<close>). The encoder fills a zeroed vector in place; the decoder checks every
  length and reserved byte before it reads. Shown here: the decoder inverts the encoder, and whatever
  it accepts is in range for the Raft core.
\<close>

section \<open>Definitions\<close>

definition kMaxRaftCommandSize :: nat where "kMaxRaftCommandSize = kMaxClientCommandSize"
definition kMaxRaftLogEntriesPerRecord :: nat where "kMaxRaftLogEntriesPerRecord = 4096"

definition kPeerCommonSize :: nat where "kPeerCommonSize = 32"
definition kPeerEntryHeaderSize :: nat where "kPeerEntryHeaderSize = 24"

lemmas peer_constants = kPeerCommonSize_def kPeerEntryHeaderSize_def

record PeerEnvelope =
  pe_cluster_id :: nat
  pe_from :: NodeId
  pe_to :: NodeId
  pe_message :: Message

text \<open>64-bit and 32-bit fields that hold a natural number.\<close>

abbreviation put64 :: "nat \<Rightarrow> bytes" where "put64 n \<equiv> write_u64 (of_nat n)"
abbreviation put32 :: "nat \<Rightarrow> bytes" where "put32 n \<equiv> write_u32 (of_nat n)"
abbreviation get64 :: "nat \<Rightarrow> bytes \<Rightarrow> nat" where "get64 off bs \<equiv> unat (read_u64 (subspan off 8 bs))"
abbreviation get32 :: "nat \<Rightarrow> bytes \<Rightarrow> nat" where "get32 off bs \<equiv> unat (read_u32 (subspan off 4 bs))"

definition bool_byte :: "bool \<Rightarrow> byte" where
  "bool_byte b = (if b then 1 else 0)"

definition all_zero :: "bytes \<Rightarrow> bool" where
  "all_zero bs = list_all (\<lambda>b. b = 0) bs"

fun peer_type :: "Message \<Rightarrow> MessageType" where
  "peer_type (Msg_RequestVote _) = mt_raft_request_vote"
| "peer_type (Msg_RequestVoteResponse _) = mt_raft_request_vote"
| "peer_type (Msg_InstallSnapshot _) = mt_raft_install_snapshot"
| "peer_type (Msg_InstallSnapshotResponse _) = mt_raft_install_snapshot"
| "peer_type _ = mt_raft_append_entries"

fun peer_kind :: "Message \<Rightarrow> byte" where
  "peer_kind (Msg_RequestVote _) = 1"
| "peer_kind (Msg_RequestVoteResponse _) = 2"
| "peer_kind (Msg_AppendEntries _) = 3"
| "peer_kind (Msg_AppendEntriesResponse _) = 4"
| "peer_kind (Msg_InstallSnapshot _) = 5"
| "peer_kind (Msg_InstallSnapshotResponse _) = 6"

text \<open>The loop over the entries of a batch, which adds up the payload size.\<close>

fun append_payload_size :: "nat \<Rightarrow> LogEntry list \<Rightarrow> (std_exn, nat) result" where
  "append_payload_size sz [] = Inr sz"
| "append_payload_size sz (e # es) =
     (if e_index e = 0 \<or> e_term e = 0 \<or> length (e_command e) > kMaxRaftCommandSize \<or>
         e_kind e = No_op \<and> e_command e \<noteq> [] \<or>
         e_kind e \<noteq> Command_entry \<and> e_kind e \<noteq> No_op \<or>
         sz > kMaxPayloadSize - kPeerEntryHeaderSize \<or>
         length (e_command e) > kMaxPayloadSize - sz - kPeerEntryHeaderSize
      then Inl (invalid_argument ''Raft AppendEntries exceeds frame limit'')
      else append_payload_size (sz + (kPeerEntryHeaderSize + length (e_command e))) es)"

fun peer_payload_size :: "Message \<Rightarrow> (std_exn, nat) result" where
  "peer_payload_size (Msg_RequestVote _) = Inr (kPeerCommonSize + 32)"
| "peer_payload_size (Msg_RequestVoteResponse _) = Inr (kPeerCommonSize + 16)"
| "peer_payload_size (Msg_AppendEntries m) =
     (if ae_rpc_id m = 0 \<or> length (ae_entries m) > kMaxRaftLogEntriesPerRecord
      then Inl (invalid_argument ''invalid Raft AppendEntries batch'')
      else append_payload_size (kPeerCommonSize + 56) (ae_entries m))"
| "peer_payload_size (Msg_AppendEntriesResponse _) = Inr (kPeerCommonSize + 40)"
| "peer_payload_size (Msg_InstallSnapshot m) =
     (if is_rpc_id m = 0 \<or> is_term m = 0 \<or> is_leader_id m = 0 \<or> is_last_included_index m = 0 \<or>
         is_last_included_term m = 0 \<or> is_offset m > is_total_size m \<or>
         length (is_data m) > is_total_size m - is_offset m \<or>
         is_done m \<noteq> (is_offset m + length (is_data m) = is_total_size m) \<or>
         length (is_data m) > kMaxPayloadSize - kPeerCommonSize - 64
      then Inl (invalid_argument ''invalid InstallSnapshot chunk'')
      else Inr (kPeerCommonSize + 64 + length (is_data m)))"
| "peer_payload_size (Msg_InstallSnapshotResponse _) = Inr (kPeerCommonSize + 40)"

text \<open>The loop that writes the entries of a batch from \<open>offset\<close> on.\<close>

fun write_entries :: "nat \<Rightarrow> LogEntry list \<Rightarrow> bytes \<Rightarrow> bytes" where
  "write_entries offset [] body = body"
| "write_entries offset (e # es) body =
     write_entries (offset + (kPeerEntryHeaderSize + length (e_command e))) es
     (write_at (offset + 24) (e_command e)
     (write_at (offset + 20) (put32 (length (e_command e)))
     (write_at (offset + 16) [kind_byte (e_kind e)]
     (write_at (offset + 8) (put64 (e_term e))
     (write_at offset (put64 (e_index e)) body)))))"

fun encode_body :: "Message \<Rightarrow> bytes \<Rightarrow> (std_exn, bytes) result" where
  "encode_body (Msg_RequestVote m) body = Inr
     (write_at 24 (put64 (rv_last_log_term m))
     (write_at 16 (put64 (rv_last_log_index m))
     (write_at 8 (put64 (rv_candidate_id m))
     (write_at 0 (put64 (rv_term m)) body))))"
| "encode_body (Msg_RequestVoteResponse m) body = Inr
     (write_at 8 [bool_byte (rvr_vote_granted m)] (write_at 0 (put64 (rvr_term m)) body))"
| "encode_body (Msg_AppendEntries m) body =
     (let body = write_at 40 (put64 (ae_rpc_id m))
            (write_at 32 (put64 (ae_leader_commit m))
            (write_at 24 (put64 (ae_previous_log_term m))
            (write_at 16 (put64 (ae_previous_log_index m))
            (write_at 8 (put64 (ae_leader_id m))
            (write_at 0 (put64 (ae_term m)) body)))))
      in throw_if (length (ae_entries m) > 2 ^ 32 - 1) (invalid_argument ''too many Raft entries'')
         (Inr (write_entries 56 (ae_entries m)
            (write_at 48 (put32 (length (ae_entries m))) body))))"
| "encode_body (Msg_AppendEntriesResponse m) body = Inr
     (write_at 32 (put64 (aer_rpc_id m))
     (write_at 24 (put64 (aer_reject_hint m))
     (write_at 16 (put64 (aer_match_index m))
     (write_at 8 [bool_byte (aer_success m)] (write_at 0 (put64 (aer_term m)) body)))))"
| "encode_body (Msg_InstallSnapshot m) body = Inr
     (write_at 64 (is_data m)
     (write_at 56 [bool_byte (is_done m)]
     (write_at 48 (put64 (is_rpc_id m))
     (write_at 40 (put64 (is_offset m))
     (write_at 32 (put64 (is_total_size m))
     (write_at 24 (put64 (is_last_included_term m))
     (write_at 16 (put64 (is_last_included_index m))
     (write_at 8 (put64 (is_leader_id m))
     (write_at 0 (put64 (is_term m)) body)))))))))"
| "encode_body (Msg_InstallSnapshotResponse m) body = Inr
     (write_at 32 (put64 (isr_rpc_id m))
     (write_at 24 (put64 (isr_next_offset m))
     (write_at 16 (put64 (isr_last_included_index m))
     (write_at 8 [bool_byte (isr_success m)] (write_at 0 (put64 (isr_term m)) body)))))"

definition encode_peer_frame :: "PeerEnvelope \<Rightarrow> 64 word \<Rightarrow> (std_exn, Frame) result" where
  "encode_peer_frame envelope rid =
     (if pe_cluster_id envelope = 0 \<or> pe_from envelope = 0 \<or> pe_to envelope = 0
      then Inl (invalid_argument ''Raft peer envelope identities must be nonzero'')
      else bindE (peer_payload_size (pe_message envelope)) (\<lambda>sz.
        if sz > kMaxPayloadSize
        then Inl (invalid_argument ''Raft peer payload exceeds frame limit'')
        else
          let buf = write_at 24 [peer_kind (pe_message envelope)]
                (write_at 16 (put64 (pe_to envelope))
                (write_at 8 (put64 (pe_from envelope))
                (write_at 0 (put64 (pe_cluster_id envelope)) (replicate sz 0))))
          in bindE (encode_body (pe_message envelope) (drop kPeerCommonSize buf)) (\<lambda>body.
               Inr \<lparr>message_namespace = ns_raft, message_type = peer_type (pe_message envelope),
                    flags = 0, request_id = rid, payload = take kPeerCommonSize buf @ body\<rparr>)))"

subsection \<open>Decoding\<close>

text \<open>The loop over the \<open>count\<close> entries of a batch: the entries, and the offset after the last one.\<close>

fun decode_entries :: "nat \<Rightarrow> nat \<Rightarrow> bytes \<Rightarrow> LogEntry list \<Rightarrow> (string, LogEntry list \<times> nat) result" where
  "decode_entries 0 offset body acc = Inr (acc, offset)"
| "decode_entries (Suc count) offset body acc =
     (if length body - offset < kPeerEntryHeaderSize then Inl ''truncated Raft entry header''
      else
        let command_size = get32 (offset + 20) body;
            entry_kind = byte_kind (body ! (offset + 16));
            entry_index = get64 offset body;
            entry_term = get64 (offset + 8) body
        in if command_size > kMaxRaftCommandSize \<or>
              command_size > length body - offset - kPeerEntryHeaderSize \<or>
              \<not> all_zero (subspan (offset + 17) 3 body)
           then Inl ''invalid Raft entry length''
           else if entry_kind \<noteq> Command_entry \<and> entry_kind \<noteq> No_op
           then Inl ''invalid Raft entry kind''
           else if entry_index = 0 \<or> entry_term = 0 \<or> entry_kind = No_op \<and> command_size \<noteq> 0
           then Inl ''invalid Raft entry semantics''
           else decode_entries count (offset + (kPeerEntryHeaderSize + command_size)) body
             (acc @ [\<lparr>e_index = entry_index, e_term = entry_term, e_kind = entry_kind,
                e_command = subspan (offset + kPeerEntryHeaderSize) command_size body\<rparr>]))"

definition decode_request_vote :: "MessageType \<Rightarrow> bytes \<Rightarrow> (string, Message) result" where
  "decode_request_vote type body =
     (if type \<noteq> mt_raft_request_vote \<or> length body \<noteq> 32
      then Inl ''invalid RequestVote payload size''
      else Inr (Msg_RequestVote \<lparr>rv_term = get64 0 body, rv_candidate_id = get64 8 body,
        rv_last_log_index = get64 16 body, rv_last_log_term = get64 24 body\<rparr>))"

definition decode_request_vote_response :: "MessageType \<Rightarrow> bytes \<Rightarrow> (string, Message) result" where
  "decode_request_vote_response type body =
     (if type \<noteq> mt_raft_request_vote \<or> length body \<noteq> 16 \<or> body ! 8 > 1 \<or>
         \<not> all_zero (subspan 9 7 body)
      then Inl ''invalid RequestVoteResponse payload''
      else Inr (Msg_RequestVoteResponse \<lparr>rvr_term = get64 0 body, rvr_vote_granted = (body ! 8 = 1)\<rparr>))"

definition decode_append_entries :: "MessageType \<Rightarrow> bytes \<Rightarrow> (string, Message) result" where
  "decode_append_entries type body =
     (if type \<noteq> mt_raft_append_entries \<or> length body < 56 \<or> \<not> all_zero (subspan 52 4 body)
      then Inl ''invalid AppendEntries header''
      else
        let count = get32 48 body;
            maximum_entries = (length body - 56) div kPeerEntryHeaderSize
        in if count > maximum_entries \<or> count > kMaxRaftLogEntriesPerRecord
           then Inl ''impossible AppendEntries count''
           else bindE (decode_entries count 56 body []) (\<lambda>(entries, offset).
             if offset \<noteq> length body then Inl ''trailing AppendEntries bytes''
             else Inr (Msg_AppendEntries \<lparr>ae_term = get64 0 body, ae_leader_id = get64 8 body,
               ae_previous_log_index = get64 16 body, ae_previous_log_term = get64 24 body,
               ae_entries = entries, ae_leader_commit = get64 32 body, ae_rpc_id = get64 40 body\<rparr>)))"

definition decode_append_entries_response :: "MessageType \<Rightarrow> bytes \<Rightarrow> (string, Message) result" where
  "decode_append_entries_response type body =
     (if type \<noteq> mt_raft_append_entries \<or> length body \<noteq> 40 \<or> body ! 8 > 1 \<or>
         \<not> all_zero (subspan 9 7 body)
      then Inl ''invalid AppendEntriesResponse payload''
      else Inr (Msg_AppendEntriesResponse \<lparr>aer_term = get64 0 body, aer_success = (body ! 8 = 1),
        aer_match_index = get64 16 body, aer_reject_hint = get64 24 body, aer_rpc_id = get64 32 body\<rparr>))"

definition decode_install_snapshot :: "MessageType \<Rightarrow> bytes \<Rightarrow> (string, Message) result" where
  "decode_install_snapshot type body =
     (if type \<noteq> mt_raft_install_snapshot \<or> length body < 64 \<or> body ! 56 > 1 \<or>
         \<not> all_zero (subspan 57 7 body)
      then Inl ''invalid InstallSnapshot header''
      else
        let total_size = get64 32 body;
            offset = get64 40 body;
            chunk_size = length body - 64;
            fin = (body ! 56 = 1)
        in if offset > total_size \<or> chunk_size > total_size - offset \<or>
              fin \<noteq> (offset + chunk_size = total_size)
           then Inl ''invalid InstallSnapshot chunk range''
           else Inr (Msg_InstallSnapshot \<lparr>is_term = get64 0 body, is_leader_id = get64 8 body,
             is_last_included_index = get64 16 body, is_last_included_term = get64 24 body,
             is_total_size = total_size, is_offset = offset, is_data = drop 64 body,
             is_done = fin, is_rpc_id = get64 48 body\<rparr>))"

definition decode_install_snapshot_response :: "MessageType \<Rightarrow> bytes \<Rightarrow> (string, Message) result" where
  "decode_install_snapshot_response type body =
     (if type \<noteq> mt_raft_install_snapshot \<or> length body \<noteq> 40 \<or> body ! 8 > 1 \<or>
         \<not> all_zero (subspan 9 7 body)
      then Inl ''invalid InstallSnapshotResponse payload''
      else Inr (Msg_InstallSnapshotResponse \<lparr>isr_term = get64 0 body, isr_success = (body ! 8 = 1),
        isr_last_included_index = get64 16 body, isr_next_offset = get64 24 body,
        isr_rpc_id = get64 32 body\<rparr>))"

definition decode_body :: "byte \<Rightarrow> MessageType \<Rightarrow> bytes \<Rightarrow> (string, Message) result" where
  "decode_body kind type body =
     (if kind = 1 then decode_request_vote type body
      else if kind = 2 then decode_request_vote_response type body
      else if kind = 3 then decode_append_entries type body
      else if kind = 4 then decode_append_entries_response type body
      else if kind = 5 then decode_install_snapshot type body
      else if kind = 6 then decode_install_snapshot_response type body
      else Inl ''unknown Raft peer message kind'')"

definition decode_peer_frame :: "Frame \<Rightarrow> (string, PeerEnvelope) result" where
  "decode_peer_frame frame =
     (if message_namespace frame \<noteq> ns_raft \<or> length (payload frame) < kPeerCommonSize \<or>
         \<not> all_zero (subspan 25 7 (payload frame))
      then Inl ''invalid Raft peer envelope''
      else if get64 0 (payload frame) = 0 \<or> get64 8 (payload frame) = 0 \<or>
        get64 16 (payload frame) = 0
      then Inl ''zero Raft peer identity''
      else
        let kind = payload frame ! 24;
            body = drop kPeerCommonSize (payload frame)
        in bindE (decode_body kind (message_type frame) body) (\<lambda>message. Inr \<lparr>pe_cluster_id = get64 0 (payload frame),
                pe_from = get64 8 (payload frame), pe_to = get64 16 (payload frame),
                pe_message = message\<rparr>))"

section \<open>Layout\<close>

lemma get64_put64: "n \<le> u64_max \<Longrightarrow> unat (of_nat n :: 64 word) = n"
  by (rule unat_of_nat64) (simp add: u64_max_def)

definition entry_bytes :: "LogEntry \<Rightarrow> bytes" where
  "entry_bytes e = put64 (e_index e) @ put64 (e_term e) @ [kind_byte (e_kind e), 0, 0, 0] @
     put32 (length (e_command e)) @ e_command e"

lemma length_entry_bytes [simp]: "length (entry_bytes e) = 24 + length (e_command e)"
  by (simp add: entry_bytes_def)

definition entries_size :: "LogEntry list \<Rightarrow> nat" where
  "entries_size es = (\<Sum>e \<leftarrow> es. 24 + length (e_command e))"

lemma entries_size_simps [simp]:
  "entries_size [] = 0" "entries_size (e # es) = 24 + length (e_command e) + entries_size es"
  by (simp_all add: entries_size_def)

lemma length_entries_bytes [simp]: "length (concat (map entry_bytes es)) = entries_size es"
  by (induction es) auto

lemma write_entry_layout:
  "length pre = offset \<Longrightarrow>
   write_at (offset + 24) (e_command e)
     (write_at (offset + 20) (put32 (length (e_command e)))
     (write_at (offset + 16) [kind_byte (e_kind e)]
     (write_at (offset + 8) (put64 (e_term e))
     (write_at offset (put64 (e_index e)) (pre @ replicate (24 + length (e_command e) + k) 0))))) =
   pre @ entry_bytes e @ replicate k 0"
  by (simp add: write_at_def entry_bytes_def numeral_eq_Suc)

lemma write_entries_layout:
  "write_entries (length pre) es (pre @ replicate (entries_size es) 0) = pre @ concat (map entry_bytes es)"
proof (induction es arbitrary: pre)
  case (Cons e es)
  have "write_entries (length pre) (e # es) (pre @ replicate (entries_size (e # es)) 0) =
      write_entries (length (pre @ entry_bytes e)) es ((pre @ entry_bytes e) @ replicate (entries_size es) 0)"
    using write_entry_layout [of pre "length pre" e "entries_size es"]
    by (simp add: kPeerEntryHeaderSize_def ac_simps)
  also have "\<dots> = pre @ concat (map entry_bytes (e # es))" using Cons [of "pre @ entry_bytes e"] by simp
  finally show ?case .
qed simp

text \<open>The payload of a message after the common header.\<close>

fun body_bytes :: "Message \<Rightarrow> bytes" where
  "body_bytes (Msg_RequestVote m) =
     put64 (rv_term m) @ put64 (rv_candidate_id m) @ put64 (rv_last_log_index m) @ put64 (rv_last_log_term m)"
| "body_bytes (Msg_RequestVoteResponse m) =
     put64 (rvr_term m) @ [bool_byte (rvr_vote_granted m)] @ replicate 7 0"
| "body_bytes (Msg_AppendEntries m) =
     put64 (ae_term m) @ put64 (ae_leader_id m) @ put64 (ae_previous_log_index m) @
     put64 (ae_previous_log_term m) @ put64 (ae_leader_commit m) @ put64 (ae_rpc_id m) @
     put32 (length (ae_entries m)) @ replicate 4 0 @ concat (map entry_bytes (ae_entries m))"
| "body_bytes (Msg_AppendEntriesResponse m) =
     put64 (aer_term m) @ [bool_byte (aer_success m)] @ replicate 7 0 @ put64 (aer_match_index m) @
     put64 (aer_reject_hint m) @ put64 (aer_rpc_id m)"
| "body_bytes (Msg_InstallSnapshot m) =
     put64 (is_term m) @ put64 (is_leader_id m) @ put64 (is_last_included_index m) @
     put64 (is_last_included_term m) @ put64 (is_total_size m) @ put64 (is_offset m) @
     put64 (is_rpc_id m) @ [bool_byte (is_done m)] @ replicate 7 0 @ is_data m"
| "body_bytes (Msg_InstallSnapshotResponse m) =
     put64 (isr_term m) @ [bool_byte (isr_success m)] @ replicate 7 0 @ put64 (isr_last_included_index m) @
     put64 (isr_next_offset m) @ put64 (isr_rpc_id m)"

lemma append_payload_size_eq:
  "append_payload_size sz es = Inr s \<Longrightarrow> s = sz + entries_size es \<and> s \<le> max sz kMaxPayloadSize \<and>
     (\<forall>e \<in> set es. e_index e \<noteq> 0 \<and> e_term e \<noteq> 0 \<and> length (e_command e) \<le> kMaxRaftCommandSize \<and>
        (e_kind e = Command_entry \<or> e_kind e = No_op \<and> e_command e = []))"
proof (induction es arbitrary: sz)
  case (Cons e es)
  let ?s = "sz + (kPeerEntryHeaderSize + length (e_command e))"
  have r: "append_payload_size ?s es = Inr s" and "e_index e \<noteq> 0" "e_term e \<noteq> 0"
      "length (e_command e) \<le> kMaxRaftCommandSize" "e_kind e = Command_entry \<or> e_kind e = No_op \<and> e_command e = []"
      "sz \<le> kMaxPayloadSize - kPeerEntryHeaderSize" "length (e_command e) \<le> kMaxPayloadSize - sz - kPeerEntryHeaderSize"
    using Cons.prems by (auto split: if_splits)
  moreover have "?s \<le> kMaxPayloadSize"
    using calculation(6,7) by (simp add: frame_constants kPeerEntryHeaderSize_def)
  ultimately show ?case using Cons.IH [OF r] by (simp add: kPeerEntryHeaderSize_def)
qed simp

lemma encode_body_layout:
  assumes "peer_payload_size m = Inr s"
  shows "encode_body m (replicate (s - kPeerCommonSize) 0) = Inr (body_bytes m)"
    and "s = kPeerCommonSize + length (body_bytes m)"
proof -
  show 1: "s = kPeerCommonSize + length (body_bytes m)"
    using assms by (cases m) (auto simp: kPeerCommonSize_def dest: append_payload_size_eq split: if_splits)
  show "encode_body m (replicate (s - kPeerCommonSize) 0) = Inr (body_bytes m)"
  proof (cases m)
    case (Msg_AppendEntries a)
    let ?pre = "put64 (ae_term a) @ put64 (ae_leader_id a) @ put64 (ae_previous_log_index a) @
     put64 (ae_previous_log_term a) @ put64 (ae_leader_commit a) @ put64 (ae_rpc_id a) @
     put32 (length (ae_entries a)) @ replicate 4 0"
    have "length (ae_entries a) \<le> 4096"
      using assms Msg_AppendEntries by (auto simp: kMaxRaftLogEntriesPerRecord_def split: if_splits)
    moreover have "write_entries 56 (ae_entries a) (?pre @ replicate (entries_size (ae_entries a)) 0) =
        ?pre @ concat (map entry_bytes (ae_entries a))"
      using write_entries_layout [of ?pre] by simp
    ultimately show ?thesis
      using 1 Msg_AppendEntries by (simp add: write_at_def replicate_add)
  qed (use 1 in \<open>simp_all add: write_at_def\<close>)
qed

section \<open>Decoding inverts encoding\<close>

text \<open>The numbers of a message are 64-bit integers.\<close>

definition entry_range :: "LogEntry \<Rightarrow> bool" where
  "entry_range e \<longleftrightarrow> e_index e \<le> u64_max \<and> e_term e \<le> u64_max"

fun message_range :: "Message \<Rightarrow> bool" where
  "message_range (Msg_RequestVote m) \<longleftrightarrow> rv_term m \<le> u64_max \<and> rv_candidate_id m \<le> u64_max \<and>
     rv_last_log_index m \<le> u64_max \<and> rv_last_log_term m \<le> u64_max"
| "message_range (Msg_RequestVoteResponse m) \<longleftrightarrow> rvr_term m \<le> u64_max"
| "message_range (Msg_AppendEntries m) \<longleftrightarrow> ae_term m \<le> u64_max \<and> ae_leader_id m \<le> u64_max \<and>
     ae_previous_log_index m \<le> u64_max \<and> ae_previous_log_term m \<le> u64_max \<and>
     ae_leader_commit m \<le> u64_max \<and> ae_rpc_id m \<le> u64_max \<and> (\<forall>e \<in> set (ae_entries m). entry_range e)"
| "message_range (Msg_AppendEntriesResponse m) \<longleftrightarrow> aer_term m \<le> u64_max \<and> aer_match_index m \<le> u64_max \<and>
     aer_reject_hint m \<le> u64_max \<and> aer_rpc_id m \<le> u64_max"
| "message_range (Msg_InstallSnapshot m) \<longleftrightarrow> is_term m \<le> u64_max \<and> is_leader_id m \<le> u64_max \<and>
     is_last_included_index m \<le> u64_max \<and> is_last_included_term m \<le> u64_max \<and>
     is_total_size m \<le> u64_max \<and> is_offset m \<le> u64_max \<and> is_rpc_id m \<le> u64_max"
| "message_range (Msg_InstallSnapshotResponse m) \<longleftrightarrow> isr_term m \<le> u64_max \<and>
     isr_last_included_index m \<le> u64_max \<and> isr_next_offset m \<le> u64_max \<and> isr_rpc_id m \<le> u64_max"

lemma all_zero_replicate [simp]: "all_zero (replicate n 0)"
  by (simp add: all_zero_def list_all_iff)

lemma all_zero_subspan: "off + n \<le> k \<Longrightarrow> all_zero (subspan off n (replicate k 0))"
  by (simp add: subspan_replicate)

lemma bool_byte_simps [simp]: "bool_byte b \<le> 1" "bool_byte b = 1 \<longleftrightarrow> b" "\<not> 1 < bool_byte b"
  by (auto simp: bool_byte_def)

lemma byte_kind_simps [simp]: "byte_kind 0 = Command_entry" "byte_kind 1 = No_op"
  by (simp_all add: byte_kind_def)

definition entry_encodable :: "LogEntry \<Rightarrow> bool" where
  "entry_encodable e \<longleftrightarrow> e_index e \<noteq> 0 \<and> e_term e \<noteq> 0 \<and> length (e_command e) \<le> kMaxRaftCommandSize \<and>
     (e_kind e = Command_entry \<or> e_kind e = No_op \<and> e_command e = [])"

lemma unat_small32: "n \<le> kMaxRaftCommandSize \<Longrightarrow> unat (of_nat n :: 32 word) = n"
  by (rule unat_of_nat32) (simp add: kMaxRaftCommandSize_def frame_constants)

lemma entry_fields:
  assumes "length pre = off"
  shows "subspan off 8 (pre @ entry_bytes e @ rest) = put64 (e_index e)"
    and "subspan (off + 8) 8 (pre @ entry_bytes e @ rest) = put64 (e_term e)"
    and "(pre @ entry_bytes e @ rest) ! (off + 16) = kind_byte (e_kind e)"
    and "subspan (off + 17) 3 (pre @ entry_bytes e @ rest) = [0, 0, 0]"
    and "subspan (off + 20) 4 (pre @ entry_bytes e @ rest) = put32 (length (e_command e))"
    and "subspan (off + 24) (length (e_command e)) (pre @ entry_bytes e @ rest) = e_command e"
  using assms by (simp_all add: subspan_def entry_bytes_def nth_append numeral_eq_Suc)

lemma decode_entries_bytes:
  assumes "\<forall>e \<in> set es. entry_range e \<and> entry_encodable e"
  shows "decode_entries (length es) (length pre) (pre @ concat (map entry_bytes es)) acc =
    Inr (acc @ es, length pre + entries_size es)"
  using assms
proof (induction es arbitrary: pre acc)
  case (Cons e es)
  let ?rest = "concat (map entry_bytes es)"
  define B where "B = pre @ entry_bytes e @ ?rest"
  note f = entry_fields [OF refl, of pre e ?rest, folded B_def]
  have ok: "e_index e \<noteq> 0" "e_term e \<noteq> 0" "length (e_command e) \<le> kMaxRaftCommandSize"
      "\<not> (e_kind e \<noteq> Command_entry \<and> e_kind e \<noteq> No_op)" "\<not> (e_kind e = No_op \<and> e_command e \<noteq> [])"
      "byte_kind (kind_byte (e_kind e)) = e_kind e"
    using Cons.prems by (auto simp: entry_encodable_def)
  have r: "unat (of_nat (e_index e) :: 64 word) = e_index e" "unat (of_nat (e_term e) :: 64 word) = e_term e"
      "unat (of_nat (length (e_command e)) :: 32 word) = length (e_command e)"
    using Cons.prems by (auto simp: entry_range_def entry_encodable_def get64_put64 unat_small32)
  have len: "length B = length pre + (24 + length (e_command e)) + entries_size es" by (simp add: B_def)
  have "decode_entries (Suc (length es)) (length pre) B acc =
      decode_entries (length es) (length pre + (24 + length (e_command e))) B (acc @ [e])"
    using r f len ok
    by (cases e) (auto simp: Let_def kPeerEntryHeaderSize_def all_zero_def)
  then have "decode_entries (length (e # es)) (length pre) (pre @ entry_bytes e @ ?rest) acc =
      decode_entries (length es) (length (pre @ entry_bytes e)) ((pre @ entry_bytes e) @ ?rest) (acc @ [e])"
    by (simp add: B_def)
  also have "\<dots> = Inr ((acc @ [e]) @ es, length (pre @ entry_bytes e) + entries_size es)"
    using Cons.prems by (intro Cons.IH) simp
  finally show ?case by simp
qed simp


lemma decode_body_bytes:
  assumes "peer_payload_size m = Inr s" and "message_range m"
  shows "decode_body (peer_kind m) (peer_type m) (body_bytes m) = Inr m"
proof (cases m)
  case (Msg_AppendEntries a)
  have c: "length (ae_entries a) \<le> 4096" and es: "\<forall>e \<in> set (ae_entries a). entry_range e \<and> entry_encodable e"
    using assms Msg_AppendEntries
    by (auto simp: kMaxRaftLogEntriesPerRecord_def entry_encodable_def dest!: append_payload_size_eq split: if_splits)
  have "entries_size es \<ge> length es * 24" for es by (induction es) auto
  then have max: "length (ae_entries a) \<le> entries_size (ae_entries a) div 24"
    by (simp add: div_nat_eqI less_eq_div_iff_mult_less_eq)
  have n: "unat (of_nat (length (ae_entries a)) :: 32 word) = length (ae_entries a)"
    using c by (intro unat_of_nat32) simp
  let ?pre = "put64 (ae_term a) @ put64 (ae_leader_id a) @ put64 (ae_previous_log_index a) @
     put64 (ae_previous_log_term a) @ put64 (ae_leader_commit a) @ put64 (ae_rpc_id a) @
     put32 (length (ae_entries a)) @ replicate 4 0"
  have "decode_entries (length (ae_entries a)) 56 (?pre @ concat (map entry_bytes (ae_entries a))) [] =
      Inr (ae_entries a, 56 + entries_size (ae_entries a))"
    using decode_entries_bytes [OF es, of ?pre "[]"] by simp
  then show ?thesis
    using Msg_AppendEntries assms(2) c n max
    by (simp add: decode_body_def decode_append_entries_def subspan_def get64_put64 Let_def kPeerEntryHeaderSize_def
        kMaxRaftLogEntriesPerRecord_def)
next
  case (Msg_InstallSnapshot i)
  then have "length (is_data i) \<le> is_total_size i - is_offset i" "is_offset i \<le> is_total_size i"
      "is_done i = (is_offset i + length (is_data i) = is_total_size i)"
    using assms(1) by (auto split: if_splits)
  then show ?thesis
    using Msg_InstallSnapshot assms(2)
    by (simp add: decode_body_def decode_install_snapshot_def subspan_def get64_put64 Let_def nth_append)
qed (use assms(2) in \<open>simp_all add: decode_body_def decode_request_vote_def decode_request_vote_response_def
  decode_append_entries_response_def decode_install_snapshot_response_def subspan_def get64_put64 nth_append\<close>)

lemma peer_type_valid: "message_type_matches_namespace ns_raft (peer_type m)" "is_valid_message_type (peer_type m)"
  by (cases m; simp add: message_type_matches_namespace_def is_valid_message_type_def is_raft_message_type_def)+

definition envelope_ok :: "PeerEnvelope \<Rightarrow> bool" where
  "envelope_ok env \<longleftrightarrow> 0 < pe_cluster_id env \<and> pe_cluster_id env \<le> u64_max \<and> 0 < pe_from env \<and>
     pe_from env \<le> u64_max \<and> 0 < pe_to env \<and> pe_to env \<le> u64_max \<and> message_range (pe_message env) \<and>
     (\<exists>s \<le> kMaxPayloadSize. peer_payload_size (pe_message env) = Inr s)"

definition peer_payload :: "PeerEnvelope \<Rightarrow> bytes" where
  "peer_payload env = put64 (pe_cluster_id env) @ put64 (pe_from env) @ put64 (pe_to env) @
     [peer_kind (pe_message env)] @ replicate 7 0 @ body_bytes (pe_message env)"

definition peer_frame :: "PeerEnvelope \<Rightarrow> 64 word \<Rightarrow> Frame" where
  "peer_frame env rid = \<lparr>message_namespace = ns_raft, message_type = peer_type (pe_message env), flags = 0,
     request_id = rid, payload = peer_payload env\<rparr>"

lemma encode_peer_frame_eq:
  assumes "envelope_ok env"
  shows "encode_peer_frame env rid = Inr (peer_frame env rid)" and "validate (peer_frame env rid) = no_error"
proof -
  obtain s where s: "s \<le> kMaxPayloadSize" "peer_payload_size (pe_message env) = Inr s"
    using assms by (auto simp: envelope_ok_def)
  note lay = encode_body_layout [OF s(2)]
  let ?b = "length (body_bytes (pe_message env))"
  have z: "replicate s (0 :: byte) = replicate 25 0 @ replicate 7 0 @ replicate ?b 0"
    by (simp add: lay(2) kPeerCommonSize_def replicate_add [symmetric])
  define buf where "buf = write_at 24 [peer_kind (pe_message env)] (write_at 16 (put64 (pe_to env))
    (write_at 8 (put64 (pe_from env)) (write_at 0 (put64 (pe_cluster_id env)) (replicate s 0))))"
  have buf: "buf = put64 (pe_cluster_id env) @ put64 (pe_from env) @ put64 (pe_to env) @
      [peer_kind (pe_message env)] @ replicate 7 0 @ replicate ?b 0"
    unfolding buf_def z by (simp add: write_at_def)
  have "drop kPeerCommonSize buf = replicate (s - kPeerCommonSize) 0"
    by (simp add: buf kPeerCommonSize_def lay(2))
  moreover have "take kPeerCommonSize buf = put64 (pe_cluster_id env) @ put64 (pe_from env) @ put64 (pe_to env) @
      [peer_kind (pe_message env)] @ replicate 7 0"
    by (simp add: buf kPeerCommonSize_def)
  ultimately show "encode_peer_frame env rid = Inr (peer_frame env rid)"
    using assms s lay(1)
    by (simp add: encode_peer_frame_def envelope_ok_def peer_frame_def peer_payload_def buf_def [symmetric])
  show "validate (peer_frame env rid) = no_error"
    using s(1) peer_type_valid
    by (simp add: validate_def peer_frame_def is_valid_namespace_def peer_payload_def lay(2) kPeerCommonSize_def)
qed

lemma decode_peer_frame_eq:
  assumes "envelope_ok env"
  shows "decode_peer_frame (peer_frame env rid) = Inr env"
proof -
  obtain s where s: "peer_payload_size (pe_message env) = Inr s" "message_range (pe_message env)"
    using assms by (auto simp: envelope_ok_def)
  have "get64 0 (peer_payload env) = pe_cluster_id env" "get64 8 (peer_payload env) = pe_from env"
      "get64 16 (peer_payload env) = pe_to env" "peer_payload env ! 24 = peer_kind (pe_message env)"
      "drop 32 (peer_payload env) = body_bytes (pe_message env)" "subspan 25 7 (peer_payload env) = replicate 7 0"
      "32 \<le> length (peer_payload env)"
    using assms by (simp_all add: peer_payload_def subspan_def envelope_ok_def get64_put64 nth_append)
  then show ?thesis
    using assms decode_body_bytes [OF s]
    by (simp add: decode_peer_frame_def peer_frame_def envelope_ok_def kPeerCommonSize_def Let_def)
qed

section \<open>Whatever decodes is canonical and in range\<close>

lemma put_get64: "off + 8 \<le> length bs \<Longrightarrow> put64 (get64 off bs) = subspan off 8 bs"
  by (simp add: write_read_u64)

lemma put_get32: "off + 4 \<le> length bs \<Longrightarrow> put32 (get32 off bs) = subspan off 4 bs"
  by (simp add: write_read_u32)

lemma get64_range [simp]: "unat (w :: 64 word) \<le> u64_max"
proof -
  have "unat w < 2 ^ LENGTH(64)" by (rule unsigned_less)
  then show ?thesis by (simp add: u64_max_def)
qed

lemma all_zero_eq: "all_zero bs \<longleftrightarrow> bs = replicate (length bs) 0"
proof
  show "bs = replicate (length bs) 0" if "all_zero bs"
    using that by (intro replicate_eqI) (auto simp: all_zero_def list_all_iff)
  show "all_zero bs" if "bs = replicate (length bs) 0"
    by (subst that) simp
qed

lemma subspan_single: "i < length bs \<Longrightarrow> subspan i 1 bs = [bs ! i]"
  by (rule nth_equalityI) (auto simp: nth_subspan)

lemma bool_byte_of: "\<not> (1 :: byte) < b \<Longrightarrow> bool_byte (b = 1) = b"
proof -
  assume "\<not> 1 < b"
  then have "unat b \<le> 1" by (simp add: not_less word_le_nat_alt)
  then have "unat b = 0 \<or> unat b = 1" by linarith
  then have "b = of_nat 0 \<or> b = of_nat 1" using unat_eq_imp_of_nat [of b] by blast
  then have "b = 0 \<or> b = 1" by simp
  then show ?thesis by (auto simp: bool_byte_def)
qed

lemma kind_byte_of: "kind_byte (byte_kind b) = b"
  by (simp add: byte_kind_def)

text \<open>A vector is the concatenation of its pieces.\<close>

lemma split_at: "n \<le> length bs \<Longrightarrow> drop off bs = subspan off n bs @ drop (off + n) bs"
  by (rule drop_subspan)

lemma decode_entries_canonical:
  assumes "decode_entries count off body acc = Inr (res, off')" and "off \<le> length body"
  shows "\<exists>es. res = acc @ es \<and> length es = count \<and> off' = off + entries_size es \<and> off' \<le> length body \<and>
    drop off body = concat (map entry_bytes es) @ drop off' body \<and>
    (\<forall>e \<in> set es. entry_range e \<and> entry_encodable e)"
  using assms
proof (induction count arbitrary: off acc)
  case 0
  then show ?case by simp
next
  case (Suc count)
  define sz where "sz = get32 (off + 20) body"
  define e where "e = \<lparr>e_index = get64 off body, e_term = get64 (off + 8) body,
    e_kind = byte_kind (body ! (off + 16)), e_command = subspan (off + 24) sz body\<rparr>"
  have c: "24 \<le> length body - off" "sz \<le> kMaxRaftCommandSize" "sz \<le> length body - off - 24"
      "all_zero (subspan (off + 17) 3 body)" "e_kind e = Command_entry \<or> e_kind e = No_op" "e_index e \<noteq> 0" "e_term e \<noteq> 0"
      "e_kind e = No_op \<longrightarrow> sz = 0"
      "decode_entries count (off + (24 + sz)) body (acc @ [e]) = Inr (res, off')"
    using Suc.prems(1)
    by (auto simp: Let_def sz_def [symmetric] kPeerEntryHeaderSize_def e_def split: if_splits)
  have len: "length (e_command e) = sz" using c(1,3) by (simp add: e_def)
  have "off + (24 + sz) \<le> length body" using c(1,3) by simp
  then obtain es where es: "res = (acc @ [e]) @ es" "length es = count" "off' = off + (24 + sz) + entries_size es"
      "off' \<le> length body" "drop (off + (24 + sz)) body = concat (map entry_bytes es) @ drop off' body"
      "\<forall>e \<in> set es. entry_range e \<and> entry_encodable e"
    using Suc.IH [OF c(9)] by blast
  have z: "subspan (off + 17) 3 body = [0, 0, 0]"
    using c(1,4) by (simp add: all_zero_eq numeral_eq_Suc)
  have "entry_bytes e = subspan off 8 body @ subspan (off + 8) 8 body @ subspan (off + 16) 1 body @
      subspan (off + 17) 3 body @ subspan (off + 20) 4 body @ subspan (off + 24) sz body"
    using c(1) len put_get64 [of off body] put_get64 [of "off + 8" body] put_get32 [of "off + 20" body]
      subspan_single [of "off + 16" body] z
    by (simp add: entry_bytes_def) (simp add: e_def kind_byte_of sz_def)
  also have "\<dots> = subspan off (24 + sz) body" by (simp add: subspan_join)
  finally have "drop off body = entry_bytes e @ drop (off + (24 + sz)) body"
    using drop_subspan [of off body "24 + sz"] by simp
  moreover have "e_kind e = No_op \<longrightarrow> e_command e = []" using c(8) len by (metis length_0_conv)
  then have "entry_encodable e" unfolding entry_encodable_def using c(2,5-7) len by blast
  moreover have "entry_range e" by (simp add: entry_range_def e_def)
  ultimately show ?case using es len by (intro exI [of _ "e # es"]) auto
qed


definition canonical :: "byte \<Rightarrow> MessageType \<Rightarrow> bytes \<Rightarrow> Message \<Rightarrow> bool" where
  "canonical kind type body m \<longleftrightarrow> kind = peer_kind m \<and> type = peer_type m \<and> body = body_bytes m \<and> message_range m"

text \<open>The byte of a flag with the seven reserved bytes after it.\<close>

lemma flag_bytes:
  assumes "\<not> 1 < body ! off" and "all_zero (subspan (off + 1) 7 body)" and "off + 8 \<le> length body"
  shows "bool_byte (body ! off = 1) # replicate 7 0 = subspan off 8 body"
    and "[bool_byte (body ! off = 1)] @ replicate 7 0 @ rest = subspan off 8 body @ rest"
proof -
  have "subspan off 8 body = subspan off 1 body @ subspan (off + 1) 7 body" by (simp add: subspan_join)
  moreover have "subspan (off + 1) 7 body = replicate 7 0" using assms(2,3) by (simp add: all_zero_eq)
  ultimately show 1: "bool_byte (body ! off = 1) # replicate 7 0 = subspan off 8 body"
    using assms(1,3) subspan_single [of off body] bool_byte_of [of "body ! off"] by simp
  show "[bool_byte (body ! off = 1)] @ replicate 7 0 @ rest = subspan off 8 body @ rest"
    using arg_cong [OF 1, of "\<lambda>x. x @ rest"] by simp
qed

lemma subspan_whole: "length bs = n \<Longrightarrow> subspan 0 n bs = bs"
  by (simp add: subspan_def)

lemmas canonical_simps = canonical_def subspan_join subspan_whole Let_def

lemma request_vote_canonical:
  assumes "decode_request_vote type body = Inr m"
  shows "canonical 1 type body m"
  using assms put_get64 [of 0 body] put_get64 [of 8 body] put_get64 [of 16 body] put_get64 [of 24 body]
  by (auto simp: decode_request_vote_def canonical_simps simp del: of_nat_unat split: if_splits)

lemma request_vote_response_canonical:
  assumes "decode_request_vote_response type body = Inr m"
  shows "canonical 2 type body m"
  using assms put_get64 [of 0 body] flag_bytes [of body 8]
  by (auto simp: decode_request_vote_response_def canonical_simps simp del: of_nat_unat split: if_splits)

lemma append_entries_response_canonical:
  assumes "decode_append_entries_response type body = Inr m"
  shows "canonical 4 type body m"
proof -
  have b: "length body = 40" "\<not> 1 < body ! 8" "all_zero (subspan (8 + 1) 7 body)" "type = mt_raft_append_entries"
      and m: "m = Msg_AppendEntriesResponse \<lparr>aer_term = get64 0 body, aer_success = (body ! 8 = 1),
       aer_match_index = get64 16 body, aer_reject_hint = get64 24 body, aer_rpc_id = get64 32 body\<rparr>"
    using assms by (auto simp: decode_append_entries_response_def split: if_splits)
  have l: "0 + 8 \<le> length body" "8 + 8 \<le> length body" "16 + 8 \<le> length body" "24 + 8 \<le> length body"
      "32 + 8 \<le> length body" using b(1) by simp_all
  have "body_bytes m = subspan 0 8 body @ subspan 8 8 body @ subspan 16 8 body @ subspan 24 8 body @ subspan 32 8 body"
    unfolding m body_bytes.simps AppendEntriesResponse.simps put_get64 [OF l(1)] put_get64 [OF l(3)] put_get64 [OF l(4)]
      put_get64 [OF l(5)] by (simp only: flag_bytes(2) [OF b(2,3) l(2)])
  also have "\<dots> = body" using b(1) by (simp add: subspan_join subspan_whole)
  finally show ?thesis using b(4) by (simp add: canonical_def m)
qed

lemma install_snapshot_response_canonical:
  assumes "decode_install_snapshot_response type body = Inr m"
  shows "canonical 6 type body m"
proof -
  have b: "length body = 40" "\<not> 1 < body ! 8" "all_zero (subspan (8 + 1) 7 body)" "type = mt_raft_install_snapshot"
      and m: "m = Msg_InstallSnapshotResponse \<lparr>isr_term = get64 0 body, isr_success = (body ! 8 = 1),
       isr_last_included_index = get64 16 body, isr_next_offset = get64 24 body, isr_rpc_id = get64 32 body\<rparr>"
    using assms by (auto simp: decode_install_snapshot_response_def split: if_splits)
  have l: "0 + 8 \<le> length body" "8 + 8 \<le> length body" "16 + 8 \<le> length body" "24 + 8 \<le> length body"
      "32 + 8 \<le> length body" using b(1) by simp_all
  have "body_bytes m = subspan 0 8 body @ subspan 8 8 body @ subspan 16 8 body @ subspan 24 8 body @ subspan 32 8 body"
    unfolding m body_bytes.simps InstallSnapshotResponse.simps put_get64 [OF l(1)] put_get64 [OF l(3)] put_get64 [OF l(4)]
      put_get64 [OF l(5)] by (simp only: flag_bytes(2) [OF b(2,3) l(2)])
  also have "\<dots> = body" using b(1) by (simp add: subspan_join subspan_whole)
  finally show ?thesis using b(4) by (simp add: canonical_def m)
qed

lemma subspan_join_drop: "b = a + n \<Longrightarrow> subspan a n xs @ drop b xs = drop a xs"
  by (metis drop_subspan)

lemma install_snapshot_canonical:
  assumes "decode_install_snapshot type body = Inr m"
  shows "canonical 5 type body m"
proof -
  have b: "64 \<le> length body" "\<not> 1 < body ! 56" "all_zero (subspan (56 + 1) 7 body)" "type = mt_raft_install_snapshot"
      and m: "m = Msg_InstallSnapshot \<lparr>is_term = get64 0 body, is_leader_id = get64 8 body,
       is_last_included_index = get64 16 body, is_last_included_term = get64 24 body, is_total_size = get64 32 body,
       is_offset = get64 40 body, is_data = drop 64 body, is_done = (body ! 56 = 1), is_rpc_id = get64 48 body\<rparr>"
    using assms by (auto simp: decode_install_snapshot_def Let_def split: if_splits)
  have l: "0 + 8 \<le> length body" "8 + 8 \<le> length body" "16 + 8 \<le> length body" "24 + 8 \<le> length body"
      "32 + 8 \<le> length body" "40 + 8 \<le> length body" "48 + 8 \<le> length body" "56 + 8 \<le> length body"
    using b(1) by simp_all
  have "body_bytes m = subspan 0 8 body @ subspan 8 8 body @ subspan 16 8 body @ subspan 24 8 body @
      subspan 32 8 body @ subspan 40 8 body @ subspan 48 8 body @ subspan 56 8 body @ drop 64 body"
    unfolding m body_bytes.simps InstallSnapshot.simps put_get64 [OF l(1)] put_get64 [OF l(2)] put_get64 [OF l(3)]
      put_get64 [OF l(4)] put_get64 [OF l(5)] put_get64 [OF l(6)] put_get64 [OF l(7)]
    by (simp only: flag_bytes(2) [OF b(2,3) l(8)])
  also have "\<dots> = body" by (simp add: subspan_join_drop)
  finally show ?thesis using b(4) by (simp add: canonical_def m)
qed

lemma append_entries_canonical:
  assumes "decode_append_entries type body = Inr m"
  shows "canonical 3 type body m" and "\<exists>a. m = Msg_AppendEntries a \<and> (\<forall>e \<in> set (ae_entries a). entry_encodable e)"
proof -
  have b: "type = mt_raft_append_entries" "56 \<le> length body" "all_zero (subspan 52 4 body)"
    using assms by (auto simp: decode_append_entries_def split: if_splits)
  obtain es off where d: "decode_entries (get32 48 body) 56 body [] = Inr (es, off)" "off = length body"
      and m: "m = Msg_AppendEntries \<lparr>ae_term = get64 0 body, ae_leader_id = get64 8 body,
       ae_previous_log_index = get64 16 body, ae_previous_log_term = get64 24 body,
       ae_entries = es, ae_leader_commit = get64 32 body, ae_rpc_id = get64 40 body\<rparr>"
    using assms by (auto simp: decode_append_entries_def Let_def bindE_eq_Inr split: if_splits)
  have es: "length es = get32 48 body" "drop 56 body = concat (map entry_bytes es)"
      "\<forall>e \<in> set es. entry_range e \<and> entry_encodable e"
    using decode_entries_canonical [OF d(1) b(2)] d(2) by auto
  have z: "replicate 4 0 = subspan 52 4 body" using b(2,3) by (simp add: all_zero_eq)
  have "body_bytes m = subspan 0 8 body @ subspan 8 8 body @ subspan 16 8 body @ subspan 24 8 body @
      subspan 32 8 body @ subspan 40 8 body @ subspan 48 4 body @ subspan 52 4 body @ drop 56 body"
    unfolding m body_bytes.simps AppendEntries.simps es(1,2) z using b(2)
    by (simp only: put_get64 put_get32)
  also have "\<dots> = body" by (simp add: subspan_join_drop)
  finally show "canonical 3 type body m" using b(1) es(3) by (auto simp: canonical_def m)
  show "\<exists>a. m = Msg_AppendEntries a \<and> (\<forall>e \<in> set (ae_entries a). entry_encodable e)" using m es(3) by simp
qed

lemma decode_body_canonical:
  assumes "decode_body kind type body = Inr m"
  shows "canonical kind type body m"
    and "\<forall>a. m = Msg_AppendEntries a \<longrightarrow> (\<forall>e \<in> set (ae_entries a). entry_encodable e)"
proof -
  show 1: "canonical kind type body m"
    using assms unfolding decode_body_def
    by (auto split: if_splits intro: request_vote_canonical request_vote_response_canonical append_entries_canonical(1)
        append_entries_response_canonical install_snapshot_canonical install_snapshot_response_canonical)
  show "\<forall>a. m = Msg_AppendEntries a \<longrightarrow> (\<forall>e \<in> set (ae_entries a). entry_encodable e)"
  proof (intro allI impI)
    fix a assume m: "m = Msg_AppendEntries a"
    then have "decode_append_entries type body = Inr m"
      using 1 assms by (simp add: canonical_def decode_body_def)
    then show "\<forall>e \<in> set (ae_entries a). entry_encodable e" using append_entries_canonical(2) m by blast
  qed
qed

lemma decode_peer_frame_sound:
  assumes "decode_peer_frame f = Inr env"
  shows "payload f = peer_payload env" and "message_type f = peer_type (pe_message env)"
    and "message_namespace f = ns_raft" and "message_range (pe_message env)"
    and "pe_cluster_id env \<in> {1..u64_max}" "pe_from env \<in> {1..u64_max}" "pe_to env \<in> {1..u64_max}"
    and "\<forall>a. pe_message env = Msg_AppendEntries a \<longrightarrow> (\<forall>e \<in> set (ae_entries a). entry_encodable e)"
proof -
  let ?p = "payload f"
  have b: "message_namespace f = ns_raft" "32 \<le> length ?p" "all_zero (subspan 25 7 ?p)" "get64 0 ?p \<noteq> 0"
      "get64 8 ?p \<noteq> 0" "get64 16 ?p \<noteq> 0"
    using assms by (auto simp: decode_peer_frame_def kPeerCommonSize_def split: if_splits)
  obtain m where m: "decode_body (?p ! 24) (message_type f) (drop 32 ?p) = Inr m"
      "env = \<lparr>pe_cluster_id = get64 0 ?p, pe_from = get64 8 ?p, pe_to = get64 16 ?p, pe_message = m\<rparr>"
    using assms b by (auto simp: decode_peer_frame_def kPeerCommonSize_def Let_def bindE_eq_Inr)
  note can = decode_body_canonical(1) [OF m(1), unfolded canonical_def]
  have l: "0 + 8 \<le> length ?p" "8 + 8 \<le> length ?p" "16 + 8 \<le> length ?p" using b(2) by simp_all
  have k: "[peer_kind m] = subspan 24 1 ?p" using subspan_single [of 24 ?p] can b(2) by simp
  have z: "replicate 7 0 = subspan 25 7 ?p" using b(2,3) by (simp add: all_zero_eq)
  have d: "body_bytes m = drop 32 ?p" using can by simp
  have "peer_payload env = subspan 0 8 ?p @ subspan 8 8 ?p @ subspan 16 8 ?p @ subspan 24 1 ?p @ subspan 25 7 ?p @ drop 32 ?p"
    unfolding m(2) peer_payload_def PeerEnvelope.simps put_get64 [OF l(1)] put_get64 [OF l(2)] put_get64 [OF l(3)] k z d ..
  also have "\<dots> = ?p" by (simp add: subspan_join_drop)
  finally show "payload f = peer_payload env" by simp
  show "message_type f = peer_type (pe_message env)" "message_namespace f = ns_raft" "message_range (pe_message env)"
    using can b(1) by (simp_all add: m(2))
  show "pe_cluster_id env \<in> {1..u64_max}" "pe_from env \<in> {1..u64_max}" "pe_to env \<in> {1..u64_max}"
    using b(4-6) by (auto simp: m(2) Suc_le_eq)
  show "\<forall>a. pe_message env = Msg_AppendEntries a \<longrightarrow> (\<forall>e \<in> set (ae_entries a). entry_encodable e)"
    using decode_body_canonical(2) [OF m(1)] by (simp add: m(2))
qed

section \<open>Properties\<close>

text \<open>C27. A peer message crosses the wire unchanged: an envelope with nonzero identities and a message
  within the size limits encodes to a valid frame, which decodes to the same envelope.\<close>

theorem peer_frame_roundtrip:
  assumes "envelope_ok env"
  shows "\<exists>frame. encode_peer_frame env rid = Inr frame \<and> validate frame = no_error \<and>
    decode_peer_frame frame = Inr env"
  using encode_peer_frame_eq [OF assms, of rid] decode_peer_frame_eq [OF assms, of rid] by blast

definition sample_envelope :: PeerEnvelope where
  "sample_envelope = \<lparr>pe_cluster_id = 7, pe_from = 1, pe_to = 2, pe_message = Msg_AppendEntries
     \<lparr>ae_term = 3, ae_leader_id = 1, ae_previous_log_index = 4, ae_previous_log_term = 2,
      ae_entries = [\<lparr>e_index = 5, e_term = 3, e_kind = Command_entry, e_command = [1, 2, 3]\<rparr>,
        \<lparr>e_index = 6, e_term = 3, e_kind = No_op, e_command = []\<rparr>],
      ae_leader_commit = 4, ae_rpc_id = 9\<rparr>\<rparr>"

lemma sample_envelope_ok: "envelope_ok sample_envelope"
  by (simp add: envelope_ok_def sample_envelope_def entry_range_def u64_max_def kMaxRaftLogEntriesPerRecord_def
      kMaxRaftCommandSize_def frame_constants peer_constants)

theorem peer_frame_roundtrip_witness:
  "\<exists>frame. encode_peer_frame sample_envelope 17 = Inr frame \<and> decode_peer_frame frame = Inr sample_envelope"
  using peer_frame_roundtrip [OF sample_envelope_ok, of 17] by blast



text \<open>What arrives is well-typed: a decoded envelope has nonzero 64-bit identities, its message has
  64-bit fields, and every log entry in it has a nonzero index and term, a known kind, a command within
  the limit, and no command if it is a no-op.\<close>

theorem peer_decode_in_range:
  assumes "decode_peer_frame f = Inr env"
  shows "pe_cluster_id env \<in> {1..u64_max} \<and> pe_from env \<in> {1..u64_max} \<and> pe_to env \<in> {1..u64_max} \<and>
    message_range (pe_message env) \<and>
    (\<forall>a. pe_message env = Msg_AppendEntries a \<longrightarrow> (\<forall>e \<in> set (ae_entries a). entry_encodable e))"
  using decode_peer_frame_sound [OF assms] by blast

theorem peer_decode_in_range_witness:
  "message_range (pe_message sample_envelope) \<and> pe_from sample_envelope \<in> {1..u64_max}"
  using peer_decode_in_range [OF decode_peer_frame_eq [OF sample_envelope_ok, of 1]] by blast

end
