(* ===== verification/Sequence_Codec.thy ===== *)
theory Sequence_Codec
  imports Wire
begin

text \<open>
  The loops that every record format of the code repeats: writing a vector of variable-size records into
  a buffer with a running offset, and reading a given number of them back with the checks of each
  iteration. \<open>write_seq\<close> and \<open>read_seq\<close> are these loops over one iteration; the locale \<open>sequence_codec\<close> is
  the contract of the iterations (one record is written as its bytes, and read back exactly from them),
  and its lemmas lift the contract to the loops. The snapshot format and the Raft journal interpret it.
\<close>

section \<open>Definitions\<close>

fun write_seq :: "(nat \<Rightarrow> 'a \<Rightarrow> bytes \<Rightarrow> bytes) \<Rightarrow> ('a \<Rightarrow> nat) \<Rightarrow> nat \<Rightarrow> 'a list \<Rightarrow> bytes \<Rightarrow> bytes" where
  "write_seq put sz offset [] buf = buf"
| "write_seq put sz offset (x # xs) buf = write_seq put sz (offset + sz x) xs (put offset x buf)"

text \<open>
  One iteration gets the offset, the state the loop carries (the previous key, say) and the input. It
  fails or gives a record with the next state; the offset moves on by the size of the record.
\<close>

fun read_seq ::
  "(nat \<Rightarrow> 's \<Rightarrow> bytes \<Rightarrow> ('e, 'a \<times> 's) result) \<Rightarrow> ('a \<Rightarrow> nat) \<Rightarrow> nat \<Rightarrow> nat \<Rightarrow> 's \<Rightarrow> bytes \<Rightarrow>
   ('e, 'a list \<times> nat) result" where
  "read_seq get sz 0 offset s input = Inr ([], offset)"
| "read_seq get sz (Suc n) offset s input =
     bindE (get offset s input) (\<lambda>(x, s').
       bindE (read_seq get sz n (offset + sz x) s' input) (\<lambda>(xs, end_offset). Inr (x # xs, end_offset)))"

text \<open>Every record is acceptable in the state the loop is in when it gets there.\<close>

fun chain :: "('s \<Rightarrow> 'a \<Rightarrow> bool) \<Rightarrow> ('s \<Rightarrow> 'a \<Rightarrow> 's) \<Rightarrow> 's \<Rightarrow> 'a list \<Rightarrow> bool" where
  "chain ok next_state s [] \<longleftrightarrow> True"
| "chain ok next_state s (x # xs) \<longleftrightarrow> ok s x \<and> chain ok next_state (next_state s x) xs"

text \<open>A write at the end of what is written already.\<close>

lemma write_at_extend:
  "off = length pre \<Longrightarrow> n = length src + m \<Longrightarrow> write_at off src (pre @ replicate n 0) = (pre @ src) @ replicate m 0"
  by (simp add: write_at_def)

section \<open>The contract of one record\<close>

locale sequence_codec =
  fixes image :: "'a \<Rightarrow> bytes"
    and sz :: "'a \<Rightarrow> nat"
    and put :: "nat \<Rightarrow> 'a \<Rightarrow> bytes \<Rightarrow> bytes"
    and get :: "nat \<Rightarrow> 's \<Rightarrow> bytes \<Rightarrow> (string, 'a \<times> 's) result"
    and ok :: "'s \<Rightarrow> 'a \<Rightarrow> bool"
    and next_state :: "'s \<Rightarrow> 'a \<Rightarrow> 's"
  assumes put_image: "ok s x \<Longrightarrow> put (length pre) x (pre @ replicate (sz x + k) 0) = pre @ image x @ replicate k 0"
    and length_image: "ok s x \<Longrightarrow> length (image x) = sz x"
    and get_image: "ok s x \<Longrightarrow> get (length pre) s (pre @ image x @ rest) = Inr (x, next_state s x)"
    and get_sound: "get offset s input = Inr (x, s') \<Longrightarrow> offset \<le> length input \<Longrightarrow>
      ok s x \<and> s' = next_state s x \<and> (\<exists>rest. drop offset input = image x @ rest)"
begin

abbreviation images :: "'a list \<Rightarrow> bytes" where
  "images xs \<equiv> concat (map image xs)"

lemma length_images: "chain ok next_state s xs \<Longrightarrow> length (images xs) = (\<Sum>x \<leftarrow> xs. sz x)"
  by (induction xs arbitrary: s) (auto simp: length_image)

lemma write_images:
  "chain ok next_state s xs \<Longrightarrow>
   write_seq put sz (length pre) xs (pre @ replicate ((\<Sum>x \<leftarrow> xs. sz x) + k) 0) = pre @ images xs @ replicate k 0"
proof (induction xs arbitrary: pre s)
  case (Cons x xs)
  have "put (length pre) x (pre @ replicate (sz x + ((\<Sum>x \<leftarrow> xs. sz x) + k)) 0) =
      (pre @ image x) @ replicate ((\<Sum>x \<leftarrow> xs. sz x) + k) 0"
    using put_image [of s x pre] Cons.prems by simp
  moreover have "length pre + sz x = length (pre @ image x)" using length_image [of s x] Cons.prems by simp
  moreover have "chain ok next_state (next_state s x) xs" using Cons.prems by simp
  ultimately show ?case using Cons.IH [of _ "pre @ image x"] by (simp add: add.assoc)
qed simp

lemma read_images:
  "chain ok next_state s xs \<Longrightarrow>
   read_seq get sz (length xs) (length pre) s (pre @ images xs @ rest) = Inr (xs, length (pre @ images xs))"
proof (induction xs arbitrary: pre s)
  case (Cons x xs)
  have "length pre + sz x = length (pre @ image x)" using length_image [of s x] Cons.prems by simp
  moreover have "get (length pre) s (pre @ image x @ images xs @ rest) = Inr (x, next_state s x)"
    using get_image [of s x pre "images xs @ rest"] Cons.prems by simp
  ultimately show ?case using Cons.IH [of "next_state s x" "pre @ image x"] Cons.prems by simp
qed simp

lemma read_sound:
  "read_seq get sz n offset s input = Inr (xs, end_offset) \<Longrightarrow> offset \<le> length input \<Longrightarrow>
   chain ok next_state s xs \<and> length xs = n \<and> end_offset \<le> length input \<and>
   drop offset input = images xs @ drop end_offset input"
proof (induction n arbitrary: offset s xs)
  case (Suc n)
  obtain x s' ys where x: "get offset s input = Inr (x, s')"
      and ys: "read_seq get sz n (offset + sz x) s' input = Inr (ys, end_offset)" "xs = x # ys"
    using Suc.prems(1) by (auto simp: bindE_eq_Inr)
  obtain rest where ok: "ok s x" "s' = next_state s x" "drop offset input = image x @ rest"
    using get_sound [OF x Suc.prems(2)] by blast
  have l: "length (image x) = sz x" by (rule length_image [OF ok(1)])
  have "length (drop offset input) = sz x + length rest" using l by (simp add: ok(3))
  then have "offset + sz x \<le> length input" using Suc.prems(2) by simp
  moreover have "drop (offset + sz x) input = rest"
    using ok(3) l by (metis add.commute append_eq_conv_conj drop_drop)
  ultimately show ?case using Suc.IH [OF ys(1)] ys(2) ok by simp
qed simp

end

end
