(* ===== verification/Disk.thy ===== *)
theory Disk
  imports Prelude
begin

text \<open>
  The data directory of a Raft store as the file system sees it. The named files are replaced by writing
  a temporary file, synchronising it and renaming it; the journal is appended to in place. An operation
  of the store is a list of these steps (\<^verbatim>\<open>atomically_create_file\<close> and the system-call helpers of
  \<^verbatim>\<open>src/raft/raft_storage.cpp\<close>), and a crash may stop it after any of them: \<open>survives\<close> says which
  directory contents a restart can then find. A file keeps at least its synchronised bytes, and a
  rename or truncation that was not synchronised may or may not have happened. A write that is cut short
  leaves a prefix of its bytes, which is among the survivors of the whole write. Reads return what the
  files hold; the lock on the directory keeps other processes out.
\<close>

section \<open>Definitions\<close>

datatype FileName = IDENTITY_file | hard_state_A | hard_state_B | raft_snapshot | raft_log

text \<open>The bytes of a file and how many of them are synchronised.\<close>

type_synonym inode = "(bytes \<times> nat) option"
type_synonym directory = "FileName \<Rightarrow> bytes option"

record Disk =
  dk_files :: "FileName \<Rightarrow> inode"
  dk_temporary :: inode
  dk_replaced :: "FileName \<Rightarrow> inode option"
  dk_untruncated :: inode

datatype DiskOp =
    Write_temporary bytes
  | Sync_temporary
  | Rename_to FileName
  | Sync_directory
  | Append_log bytes
  | Truncate_log nat
  | Sync_log

fun disk_step :: "DiskOp \<Rightarrow> Disk \<Rightarrow> Disk" where
  "disk_step (Write_temporary bs) dk = dk\<lparr>dk_temporary := Some (bs, 0)\<rparr>"
| "disk_step Sync_temporary dk =
     dk\<lparr>dk_temporary := map_option (\<lambda>(bs, n). (bs, length bs)) (dk_temporary dk)\<rparr>"
| "disk_step (Rename_to f) dk =
     dk\<lparr>dk_files := (dk_files dk)(f := dk_temporary dk),
        dk_replaced := (dk_replaced dk)(f := Some (dk_files dk f)), dk_temporary := None\<rparr>"
| "disk_step Sync_directory dk = dk\<lparr>dk_replaced := (\<lambda>_. None)\<rparr>"
| "disk_step (Append_log bs) dk =
     dk\<lparr>dk_files := (dk_files dk)(raft_log := map_option (\<lambda>(old, n). (old @ bs, n)) (dk_files dk raft_log))\<rparr>"
| "disk_step (Truncate_log k) dk =
     dk\<lparr>dk_files := (dk_files dk)(raft_log := map_option (\<lambda>(bs, n). (take k bs, min n k)) (dk_files dk raft_log)),
        dk_untruncated := dk_files dk raft_log\<rparr>"
| "disk_step Sync_log dk =
     dk\<lparr>dk_files := (dk_files dk)(raft_log := map_option (\<lambda>(bs, n). (bs, length bs)) (dk_files dk raft_log)),
        dk_untruncated := None\<rparr>"

abbreviation disk_steps :: "DiskOp list \<Rightarrow> Disk \<Rightarrow> Disk" where
  "disk_steps ops dk \<equiv> fold disk_step ops dk"

text \<open>What a restart reads without a crash.\<close>

definition contents :: "Disk \<Rightarrow> directory" where
  "contents dk f = map_option fst (dk_files dk f)"

text \<open>What is left of a file after a crash: any prefix that holds the synchronised bytes.\<close>

definition cut_of :: "inode \<Rightarrow> bytes option \<Rightarrow> bool" where
  "cut_of i g \<longleftrightarrow> (case i of None \<Rightarrow> g = None
     | Some (bs, n) \<Rightarrow> \<exists>k. n \<le> k \<and> k \<le> length bs \<and> g = Some (take k bs))"

definition survives :: "Disk \<Rightarrow> directory \<Rightarrow> bool" where
  "survives dk g \<longleftrightarrow> (\<forall>f. cut_of (dk_files dk f) (g f) \<or> (\<exists>old. dk_replaced dk f = Some old \<and> cut_of old (g f)) \<or>
     f = raft_log \<and> dk_untruncated dk \<noteq> None \<and> cut_of (dk_untruncated dk) (g f))"

text \<open>The crash happens after some of the steps.\<close>

definition crash_leaves :: "DiskOp list \<Rightarrow> Disk \<Rightarrow> directory \<Rightarrow> bool" where
  "crash_leaves ops dk g \<longleftrightarrow> (\<exists>k. survives (disk_steps (take k ops) dk) g)"

section \<open>Programs that emit steps\<close>

text \<open>
  A fallible operation that emits steps: the steps up to the point where it returned or threw.
\<close>

type_synonym ('o, 'e, 'a) act = "'o list \<times> ('e, 'a) result"

definition bindA :: "('o, 'e, 'a) act \<Rightarrow> ('a \<Rightarrow> ('o, 'e, 'b) act) \<Rightarrow> ('o, 'e, 'b) act" where
  "bindA p f = (case p of (ops, Inl e) \<Rightarrow> (ops, Inl e) | (ops, Inr x) \<Rightarrow> (case f x of (ops', r) \<Rightarrow> (ops @ ops', r)))"

definition emit :: "'o list \<Rightarrow> ('o, 'e, unit) act" where
  "emit ops = (ops, Inr ())"

definition lift :: "('e, 'a) result \<Rightarrow> ('o, 'e, 'a) act" where
  "lift r = ([], r)"

text \<open>\<^verbatim>\<open>atomically_create_file\<close>: write, synchronise, rename, synchronise the directory.\<close>

definition create_file :: "FileName \<Rightarrow> bytes \<Rightarrow> DiskOp list" where
  "create_file f bs = [Write_temporary bs, Sync_temporary, Rename_to f, Sync_directory]"

section \<open>Lemmas\<close>

lemma bindA_simps [simp]:
  "bindA (ops, Inl e) f = (ops, Inl e)"
  "bindA (ops, Inr x) f = (ops @ fst (f x), snd (f x))"
  by (simp_all add: bindA_def split: prod.split)

lemma bindA_emit [simp]: "bindA (emit ops) f = (ops @ fst (f ()), snd (f ()))"
  by (simp add: emit_def)

lemma bindA_lift [simp]: "bindA (lift (Inr x)) f = f x" "bindA (lift (Inl e)) f = ([], Inl e)"
  by (simp_all add: lift_def)

lemma lift_simps [simp]: "fst (lift r) = []" "snd (lift r) = r"
  by (simp_all add: lift_def)

lemma bindA_lift_eq:
  "bindA (lift r) f = (ops, Inr y) \<longleftrightarrow> (\<exists>x. r = Inr x \<and> f x = (ops, Inr y))"
  by (cases r) auto

lemma bindA_eq_Inr:
  "bindA p f = (ops, Inr y) \<longleftrightarrow> (\<exists>o1 o2 x. p = (o1, Inr x) \<and> f x = (o2, Inr y) \<and> ops = o1 @ o2)"
  by (cases p; cases "snd p") (auto simp: bindA_def split: prod.splits)

lemma bindA_cong [fundef_cong]:
  "p = p' \<Longrightarrow> (\<And>x. snd p' = Inr x \<Longrightarrow> f x = f' x) \<Longrightarrow> bindA p f = bindA p' f'"
  by (cases p'; cases "snd p'") (auto simp: bindA_def)

text \<open>A disk on which every file is synchronised and no rename or truncation is pending.\<close>

definition settled :: "Disk \<Rightarrow> bool" where
  "settled dk \<longleftrightarrow> (\<forall>f bs n. dk_files dk f = Some (bs, n) \<longrightarrow> n = length bs) \<and>
     dk_replaced dk = (\<lambda>_. None) \<and> dk_untruncated dk = None"

lemma cut_synced [simp]: "cut_of (Some (bs, length bs)) g \<longleftrightarrow> g = Some bs"
  by (auto simp: cut_of_def)

lemma cut_None [simp]: "cut_of None g \<longleftrightarrow> g = None"
  by (simp add: cut_of_def)

lemma cut_append: "cut_of (Some (bs @ xs, length bs)) g \<longleftrightarrow> (\<exists>k \<le> length xs. g = Some (bs @ take k xs))"
proof
  assume "cut_of (Some (bs @ xs, length bs)) g"
  then obtain k where "length bs \<le> k" "k \<le> length bs + length xs" "g = Some (take k (bs @ xs))" by (auto simp: cut_of_def)
  then show "\<exists>k \<le> length xs. g = Some (bs @ take k xs)" by (intro exI [of _ "k - length bs"]) auto
next
  assume "\<exists>k \<le> length xs. g = Some (bs @ take k xs)"
  then obtain k where "k \<le> length xs" "g = Some (bs @ take k xs)" by blast
  then show "cut_of (Some (bs @ xs, length bs)) g" by (auto simp: cut_of_def intro!: exI [of _ "length bs + k"])
qed

lemma settled_cut: "settled dk \<Longrightarrow> cut_of (dk_files dk f) x \<longleftrightarrow> x = contents dk f"
proof (cases "dk_files dk f")
  case (Some i)
  assume "settled dk"
  then have "i = (fst i, length (fst i))" using Some by (cases i) (auto simp: settled_def)
  then show ?thesis using Some by (metis contents_def cut_synced fst_conv option.map(2))
qed (simp add: contents_def)

lemma settled_survives: "settled dk \<Longrightarrow> survives dk g \<longleftrightarrow> g = contents dk"
  by (simp add: survives_def settled_cut fun_eq_iff) (simp add: settled_def)

lemma settled_create:
  assumes "settled dk"
  shows "settled (disk_steps (create_file f bs) dk)"
    and "contents (disk_steps (create_file f bs) dk) = (contents dk)(f := Some bs)"
  using assms by (auto simp: settled_def create_file_def contents_def)

text \<open>A crash while a file is being replaced leaves the directory as it was, or with the new file.\<close>

lemma crash_create:
  assumes "settled dk" and "crash_leaves (create_file f bs) dk g"
  shows "g = contents dk \<or> g = (contents dk)(f := Some bs)"
proof -
  obtain k where k: "survives (disk_steps (take k (create_file f bs)) dk) g" using assms(2) by (auto simp: crash_leaves_def)
  have files: "cut_of (dk_files dk h) x \<longleftrightarrow> x = contents dk h" for h x
    by (rule settled_cut [OF assms(1)])
  have r: "dk_replaced dk = (\<lambda>_. None)" "dk_untruncated dk = None" using assms(1) by (simp_all add: settled_def)
  consider "k < 3" | "k = 3" | "k \<ge> 4" by linarith
  then show ?thesis
  proof cases
    case 1
    then have "k = 0 \<or> k = 1 \<or> k = 2" by linarith
    then have "survives dk g" using k by (elim disjE) (simp_all add: create_file_def survives_def)
    then show ?thesis using settled_survives [OF assms(1)] by blast
  next
    case 2
    have "g h = contents dk h \<or> h = f \<and> g h = Some bs" for h
    proof -
      have "cut_of (if h = f then Some (bs, length bs) else dk_files dk h) (g h) \<or>
          (\<exists>old. (if h = f then Some (dk_files dk f) else None) = Some old \<and> cut_of old (g h))"
        using k 2 r by (simp add: create_file_def survives_def)
      then show ?thesis using files by (cases "h = f") auto
    qed
    then show ?thesis by (cases "g f = Some bs") (auto intro!: ext, metis)
  next
    case 3
    then have "take k (create_file f bs) = create_file f bs" by (simp add: create_file_def)
    then show ?thesis using k settled_survives [OF settled_create(1) [OF assms(1)]] settled_create(2) [OF assms(1)] by simp
  qed
qed

lemma crash_append:
  assumes "crash_leaves (ops @ ops') dk g"
  shows "crash_leaves ops dk g \<or> crash_leaves ops' (disk_steps ops dk) g"
proof -
  obtain k where k: "survives (disk_steps (take k (ops @ ops')) dk) g" using assms by (auto simp: crash_leaves_def)
  show ?thesis
  proof (cases "k \<le> length ops")
    case True
    then show ?thesis using k by (auto simp: crash_leaves_def)
  next
    case False
    then show ?thesis using k unfolding crash_leaves_def by (intro disjI2 exI [of _ "k - length ops"]) simp
  qed
qed

lemma crash_Nil [simp]: "crash_leaves [] dk g \<longleftrightarrow> survives dk g"
  by (simp add: crash_leaves_def)

lemma lift_eq [simp]: "lift r = (ops, x) \<longleftrightarrow> ops = [] \<and> r = x"
  by (auto simp: lift_def)

lemma contents_eq: "settled dk \<Longrightarrow> contents dk f = Some bs \<Longrightarrow> dk_files dk f = Some (bs, length bs)"
  by (auto simp: contents_def settled_def)

lemma settled_append:
  assumes "settled dk" and "contents dk raft_log = Some old"
  shows "settled (disk_steps [Append_log bs, Sync_log] dk)"
    and "contents (disk_steps [Append_log bs, Sync_log] dk) = (contents dk)(raft_log := Some (old @ bs))"
  using assms(1) by (simp_all add: settled_def contents_def contents_eq [OF assms] fun_eq_iff)

lemma survives_log:
  assumes "settled dk" and "survives (dk\<lparr>dk_files := (dk_files dk)(raft_log := i), dk_untruncated := u\<rparr>) g"
  shows "\<exists>x. g = (contents dk)(raft_log := x) \<and> (cut_of i x \<or> u \<noteq> None \<and> cut_of u x)"
proof -
  have "g f = contents dk f" if "f \<noteq> raft_log" for f
    using assms(2) that settled_cut [OF assms(1), of f "g f"] assms(1)
    by (auto simp: survives_def settled_def dest!: spec [of _ f])
  then have "g = (contents dk)(raft_log := g raft_log)" by auto
  moreover have "cut_of i (g raft_log) \<or> u \<noteq> None \<and> cut_of u (g raft_log)"
    using assms by (auto simp: survives_def settled_def dest!: spec [of _ raft_log])
  ultimately show ?thesis by blast
qed

text \<open>A crash during an append leaves the journal with a prefix of the new bytes.\<close>

lemma crash_log_append:
  assumes "settled dk" and "contents dk raft_log = Some old" and "crash_leaves [Append_log bs, Sync_log] dk g"
  shows "\<exists>k \<le> length bs. g = (contents dk)(raft_log := Some (old @ take k bs))"
proof -
  note o = contents_eq [OF assms(1,2)]
  obtain k where k: "survives (disk_steps (take k [Append_log bs, Sync_log]) dk) g" using assms(3) by (auto simp: crash_leaves_def)
  have u: "dk_untruncated dk = None" using assms(1) by (simp add: settled_def)
  consider "k = 0" | "k = 1" | "k \<ge> 2" by linarith
  then show ?thesis
  proof cases
    case 1
    then have "g = contents dk" using k settled_survives [OF assms(1)] by simp
    then show ?thesis using assms(2) by (intro exI [of _ 0]) (auto simp: fun_upd_idem)
  next
    case 2
    then have "survives (dk\<lparr>dk_files := (dk_files dk)(raft_log := Some (old @ bs, length old)), dk_untruncated := None\<rparr>) g"
      using k o u by (cases dk) simp
    then show ?thesis using survives_log [OF assms(1)] by (fastforce simp: cut_append)
  next
    case 3
    then have "g = contents (disk_steps [Append_log bs, Sync_log] dk)"
      using k settled_survives [OF settled_append(1) [OF assms(1,2)]] by simp
    then show ?thesis using settled_append(2) [OF assms(1,2)] by (intro exI [of _ "length bs"]) simp
  qed
qed

lemma settled_sync: "settled dk \<Longrightarrow> k = 0 \<or> k = 1 \<or> k \<ge> 2 \<Longrightarrow> disk_steps (take k [Sync_log, Sync_directory]) dk = dk"
  by (cases dk; cases "dk_files dk raft_log") (auto simp: settled_def fun_upd_idem)

text \<open>Several files created one after the other.\<close>

definition put_files :: "(FileName \<times> bytes) list \<Rightarrow> directory \<Rightarrow> directory" where
  "put_files fs dir = fold (\<lambda>(f, bs) d. d(f := Some bs)) fs dir"

definition create_files :: "(FileName \<times> bytes) list \<Rightarrow> DiskOp list" where
  "create_files fs = concat (map (\<lambda>(f, bs). create_file f bs) fs)"

lemma settled_creates:
  "settled dk \<Longrightarrow> settled (disk_steps (create_files fs) dk) \<and> contents (disk_steps (create_files fs) dk) = put_files fs (contents dk)"
proof (induction fs arbitrary: dk)
  case (Cons x fs)
  obtain f bs where x: "x = (f, bs)" by (cases x)
  note one = settled_create [OF Cons.prems, of f bs]
  show ?case using Cons.IH [OF one(1), unfolded one(2)]
    by (simp only: x create_files_def put_files_def list.map concat.simps prod.case fold_append fold_Cons comp_apply)
qed (simp add: create_files_def put_files_def)

lemma crash_creates:
  "settled dk \<Longrightarrow> crash_leaves (create_files fs) dk g \<Longrightarrow> \<exists>m \<le> length fs. g = put_files (take m fs) (contents dk)"
proof (induction fs arbitrary: dk)
  case Nil
  then show ?case using settled_survives [of dk g] by (simp add: create_files_def put_files_def)
next
  case (Cons x fs)
  obtain f bs where x: "x = (f, bs)" by (cases x)
  note one = settled_create [OF Cons.prems(1), of f bs]
  have "crash_leaves (create_file f bs @ create_files fs) dk g" using Cons.prems(2) by (simp add: x create_files_def)
  from crash_append [OF this] show ?case
  proof
    assume "crash_leaves (create_file f bs) dk g"
    then consider "g = contents dk" | "g = (contents dk)(f := Some bs)" using crash_create [OF Cons.prems(1)] by blast
    then show ?case
    proof cases
      case 1
      then show ?thesis by (intro exI [of _ 0]) (simp add: put_files_def)
    next
      case 2
      then show ?thesis by (intro exI [of _ 1]) (simp add: put_files_def x)
    qed
  next
    assume "crash_leaves (create_files fs) (disk_steps (create_file f bs) dk) g"
    from Cons.IH [OF one(1) this, unfolded one(2)]
    obtain m where "m \<le> length fs" "g = put_files (take m fs) ((contents dk)(f := Some bs))" by blast
    then show ?case by (intro exI [of _ "Suc m"]) (simp add: put_files_def x)
  qed
qed

end
