(* ===== verification/Raft_Files.thy ===== *)
theory Raft_Files
  imports Peer_Codec Raft_Node Sequence_Codec Disk
begin

text \<open>
  The files of a Raft store and their formats (\<^verbatim>\<open>src/raft/raft_storage.cpp\<close>,
  \<^verbatim>\<open>src/raft/snapshot_store.cpp\<close>): the identity marker, the two hard-state slots, the published snapshot,
  and the journal with its header and log transactions. Shown here: every format reads back what was
  written, and a transaction that was cut short is recognised as such.
\<close>

section \<open>Definitions\<close>

datatype RaftStorageErrorCode = rs_io | rs_corruption | rs_invalid_update | rs_closed

datatype raft_storage_exn = RaftStorageError RaftStorageErrorCode string

abbreviation corruption :: "string \<Rightarrow> (raft_storage_exn, 'a) result" where
  "corruption m \<equiv> Inl (RaftStorageError rs_corruption m)"

abbreviation invalid_update :: "string \<Rightarrow> (raft_storage_exn, 'a) result" where
  "invalid_update m \<equiv> Inl (RaftStorageError rs_invalid_update m)"

definition kHardMagic :: "32 word" where "kHardMagic = 0x46524853"
definition kIdentityMagic :: "32 word" where "kIdentityMagic = 0x46524944"
definition kLogMagic :: "32 word" where "kLogMagic = 0x46524C47"
definition kLogRecordMagic :: "32 word" where "kLogRecordMagic = 0x46524C52"
definition kFormatVersion :: "16 word" where "kFormatVersion = 2"
definition kLogFormatVersion :: "16 word" where "kLogFormatVersion = 3"
definition kHardStateSize :: nat where "kHardStateSize = 60"
definition kIdentitySize :: nat where "kIdentitySize = 40"
definition kLogHeaderSize :: nat where "kLogHeaderSize = 52"
definition kLogRecordHeaderSize :: nat where "kLogRecordHeaderSize = 32"
definition kLogEntryHeaderSize :: nat where "kLogEntryHeaderSize = 24"
definition kMaxRaftLogRecordSize :: nat where "kMaxRaftLogRecordSize = 64 * 1024 * 1024"
definition kSnapshotMagic :: "32 word" where "kSnapshotMagic = 0x4652534E"
definition kSnapshotFormatVersion :: "16 word" where "kSnapshotFormatVersion = 1"
definition kSnapshotHeaderSize :: nat where "kSnapshotHeaderSize = 64"
definition kMaxSnapshotPayloadSize :: nat where "kMaxSnapshotPayloadSize = 512 * 1024 * 1024"

lemmas file_sizes = kHardStateSize_def kIdentitySize_def kLogHeaderSize_def kLogRecordHeaderSize_def
  kLogEntryHeaderSize_def kSnapshotHeaderSize_def

text \<open>Whose store it is: the cluster, the node and the fingerprint of the membership.\<close>

record StoreIds =
  si_cluster_id :: nat
  si_node_id :: NodeId
  si_fingerprint :: nat

definition checksum_without_tail :: "bytes \<Rightarrow> 32 word" where
  "checksum_without_tail bs = crc32 (take (length bs - 4) bs)"

definition log_record_checksum :: "bytes \<Rightarrow> 32 word" where
  "log_record_checksum bs =
     crc32_value (crc32_update (crc32_update crc32_init (take 28 bs)) (drop kLogRecordHeaderSize bs))"

subsection \<open>Hard state and identity\<close>

record HardRecord =
  hr_generation :: nat
  hr_term :: Term
  hr_voted_for :: "NodeId option"

definition encode_hard_state :: "StoreIds \<Rightarrow> HardRecord \<Rightarrow> bytes" where
  "encode_hard_state ids r =
     (let buf = write_at 48 (put64 (case hr_voted_for r of None \<Rightarrow> 0 | Some v \<Rightarrow> v))
            (write_at 40 (put64 (hr_term r))
            (write_at 32 (put64 (hr_generation r))
            (write_at 24 (put64 (si_node_id ids))
            (write_at 16 (put64 (si_cluster_id ids))
            (write_at 8 (put32 kHardStateSize)
            (write_at 6 (write_u16 (if hr_voted_for r \<noteq> None then 1 else 0))
            (write_at 4 (write_u16 kFormatVersion)
            (write_at 0 (write_u32 kHardMagic) (replicate kHardStateSize 0)))))))))
      in write_at 56 (write_u32 (checksum_without_tail buf)) buf)"

definition decode_hard_state :: "StoreIds \<Rightarrow> bytes \<Rightarrow> HardRecord option" where
  "decode_hard_state ids bs =
     (if length bs \<noteq> kHardStateSize \<or> read_u32 (subspan 0 4 bs) \<noteq> kHardMagic \<or>
         read_u16 (subspan 4 2 bs) \<noteq> kFormatVersion \<or> get32 8 bs \<noteq> kHardStateSize \<or> get32 12 bs \<noteq> 0 \<or>
         get64 16 bs \<noteq> si_cluster_id ids \<or> get64 24 bs \<noteq> si_node_id ids \<or>
         read_u32 (subspan 56 4 bs) \<noteq> checksum_without_tail bs
      then None
      else
        let flags = read_u16 (subspan 6 2 bs);
            generation = get64 32 bs;
            term = get64 40 bs;
            vote = get64 48 bs
        in if flags > 1 \<or> generation = 0 \<or> flags = 0 \<and> vote \<noteq> 0 \<or> flags = 1 \<and> vote = 0 \<or> term = 0 \<and> flags = 1
           then None
           else Some \<lparr>hr_generation = generation, hr_term = term,
             hr_voted_for = (if flags = 1 then Some vote else None)\<rparr>)"

definition encode_identity :: "StoreIds \<Rightarrow> bytes" where
  "encode_identity ids =
     (let buf = write_at 24 (put64 (si_fingerprint ids))
            (write_at 16 (put64 (si_node_id ids))
            (write_at 8 (put64 (si_cluster_id ids))
            (write_at 6 (write_u16 (of_nat kIdentitySize))
            (write_at 4 (write_u16 kFormatVersion)
            (write_at 0 (write_u32 kIdentityMagic) (replicate kIdentitySize 0))))))
      in write_at 36 (write_u32 (checksum_without_tail buf)) buf)"

definition verify_identity :: "StoreIds \<Rightarrow> bytes \<Rightarrow> (raft_storage_exn, unit) result" where
  "verify_identity ids bs =
     (if length bs \<noteq> kIdentitySize \<or> read_u32 (subspan 0 4 bs) \<noteq> kIdentityMagic \<or>
         read_u16 (subspan 4 2 bs) \<noteq> kFormatVersion \<or>
         unat (read_u16 (subspan 6 2 bs)) \<noteq> kIdentitySize \<or> get64 8 bs \<noteq> si_cluster_id ids \<or>
         get64 16 bs \<noteq> si_node_id ids \<or> get64 24 bs \<noteq> si_fingerprint ids \<or> get32 32 bs \<noteq> 0 \<or>
         read_u32 (subspan 36 4 bs) \<noteq> checksum_without_tail bs
      then corruption ''invalid Raft initialized identity marker''
      else Inr ())"

subsection \<open>The journal header\<close>

definition encode_log_header :: "StoreIds \<Rightarrow> StateMachineSnapshot option \<Rightarrow> bytes" where
  "encode_log_header ids required =
     (let buf = write_at 40 (put64 (snapshot_term required))
            (write_at 32 (put64 (snapshot_index required))
            (write_at 24 (put64 (si_fingerprint ids))
            (write_at 16 (put64 (si_node_id ids))
            (write_at 8 (put64 (si_cluster_id ids))
            (write_at 6 (write_u16 (of_nat kLogHeaderSize))
            (write_at 4 (write_u16 kLogFormatVersion)
            (write_at 0 (write_u32 kLogMagic) (replicate kLogHeaderSize 0))))))))
      in write_at 48 (write_u32 (checksum_without_tail buf)) buf)"

definition verify_log_header :: "StoreIds \<Rightarrow> bytes \<Rightarrow> (raft_storage_exn, (LogIndex \<times> Term) option) result" where
  "verify_log_header ids bs =
     (let required_index = get64 32 bs;
          required_term = get64 40 bs
      in if length bs \<noteq> kLogHeaderSize \<or> read_u32 (subspan 0 4 bs) \<noteq> kLogMagic \<or>
            read_u16 (subspan 4 2 bs) \<noteq> kLogFormatVersion \<or>
            unat (read_u16 (subspan 6 2 bs)) \<noteq> kLogHeaderSize \<or> get64 8 bs \<noteq> si_cluster_id ids \<or>
            get64 16 bs \<noteq> si_node_id ids \<or> get64 24 bs \<noteq> si_fingerprint ids \<or>
            read_u32 (subspan 48 4 bs) \<noteq> checksum_without_tail bs \<or>
            (required_index = 0) \<noteq> (required_term = 0)
         then corruption ''invalid Raft journal header or node identity''
         else if required_index = 0 then Inr None
         else Inr (Some (required_index, required_term)))"

subsection \<open>Log transactions\<close>

definition log_entry_size :: "LogEntry \<Rightarrow> nat" where
  "log_entry_size e = kLogEntryHeaderSize + length (e_command e)"

definition put_log_entry :: "nat \<Rightarrow> LogEntry \<Rightarrow> bytes \<Rightarrow> bytes" where
  "put_log_entry offset e buf =
     write_at (offset + kLogEntryHeaderSize) (e_command e)
     (write_at (offset + 20) (put32 (length (e_command e)))
     (write_at (offset + 16) [kind_byte (e_kind e)]
     (write_at (offset + 8) (put64 (e_term e))
     (write_at offset (put64 (e_index e)) buf))))"

definition encode_log_update :: "LogIndex \<Rightarrow> LogEntry list \<Rightarrow> bytes" where
  "encode_log_update from_index entries =
     (let sz = kLogRecordHeaderSize + (\<Sum>e \<leftarrow> entries. log_entry_size e);
          buf = write_at 16 (put64 from_index)
            (write_at 12 (put32 (length entries))
            (write_at 8 (put32 sz)
            (write_at 6 (write_u16 (of_nat kLogRecordHeaderSize))
            (write_at 4 (write_u16 kFormatVersion)
            (write_at 0 (write_u32 kLogRecordMagic) (replicate sz 0))))));
          buf = write_at 24 (write_u32 (crc32 (take 24 buf))) buf;
          buf = write_seq put_log_entry log_entry_size kLogRecordHeaderSize entries buf
      in write_at 28 (write_u32 (log_record_checksum buf)) buf)"

text \<open>One iteration of the loop that reads the entries back.\<close>

definition get_log_entry :: "nat \<Rightarrow> unit \<Rightarrow> bytes \<Rightarrow> (string, LogEntry \<times> unit) result" where
  "get_log_entry offset u bs =
     (if length bs - offset < kLogEntryHeaderSize then Inl ''truncated Raft log entry header''
      else
        let payload_size = get32 (offset + 20) bs
        in if payload_size > kMaxRaftCommandSize \<or> payload_size > length bs - offset - kLogEntryHeaderSize \<or>
              bs ! (offset + 17) \<noteq> 0 \<or> bs ! (offset + 18) \<noteq> 0 \<or> bs ! (offset + 19) \<noteq> 0
           then Inl ''invalid Raft log entry length or reserved fields''
           else Inr (\<lparr>e_index = get64 offset bs, e_term = get64 (offset + 8) bs, e_kind = byte_kind (bs ! (offset + 16)),
             e_command = subspan (offset + kLogEntryHeaderSize) payload_size bs\<rparr>, u))"

definition decode_log_update :: "bytes \<Rightarrow> (raft_storage_exn, LogIndex \<times> LogEntry list) result" where
  "decode_log_update bs =
     (if length bs < kLogRecordHeaderSize \<or> read_u32 (subspan 0 4 bs) \<noteq> kLogRecordMagic \<or>
         read_u16 (subspan 4 2 bs) \<noteq> kFormatVersion \<or>
         unat (read_u16 (subspan 6 2 bs)) \<noteq> kLogRecordHeaderSize \<or> get32 8 bs \<noteq> length bs \<or>
         read_u32 (subspan 24 4 bs) \<noteq> crc32 (take 24 bs) \<or>
         read_u32 (subspan 28 4 bs) \<noteq> log_record_checksum bs
      then corruption ''invalid Raft log transaction header or checksum''
      else if get32 12 bs > kMaxRaftLogEntriesPerRecord
      then corruption ''Raft log transaction entry count exceeds limit''
      else case read_seq get_log_entry log_entry_size (get32 12 bs) kLogRecordHeaderSize () bs of
        Inl e \<Rightarrow> corruption e
      | Inr (entries, offset) \<Rightarrow>
          if offset \<noteq> length bs then corruption ''Raft log transaction has trailing bytes''
          else Inr (get64 16 bs, entries))"

definition verify_log_record_header :: "bytes \<Rightarrow> (raft_storage_exn, unit) result" where
  "verify_log_record_header bs =
     (if length bs \<noteq> kLogRecordHeaderSize \<or> read_u32 (subspan 0 4 bs) \<noteq> kLogRecordMagic \<or>
         read_u16 (subspan 4 2 bs) \<noteq> kFormatVersion \<or>
         unat (read_u16 (subspan 6 2 bs)) \<noteq> kLogRecordHeaderSize \<or>
         read_u32 (subspan 24 4 bs) \<noteq> crc32 (take 24 bs)
      then corruption ''invalid Raft journal fixed record header''
      else Inr ())"

text \<open>The loop of \<open>apply_log_update\<close> that checks the entries of a transaction.\<close>

fun check_update_entries ::
  "RaftStorageErrorCode \<Rightarrow> LogIndex \<Rightarrow> Term \<Rightarrow> Term \<Rightarrow> LogIndex \<Rightarrow> Term \<Rightarrow> nat \<Rightarrow> LogEntry list \<Rightarrow>
   (raft_storage_exn, unit) result" where
  "check_update_entries code base_idx base_term current_term expected_index previous_term encoded_size [] = Inr ()"
| "check_update_entries code base_idx base_term current_term expected_index previous_term encoded_size (e # es) =
     (if e_index e \<noteq> expected_index \<or> e_term e = 0 \<or> e_term e < previous_term \<or> e_term e > current_term \<or>
         e_kind e \<noteq> Command_entry \<and> e_kind e \<noteq> No_op \<or> length (e_command e) > kMaxRaftCommandSize \<or>
         e_kind e = No_op \<and> e_command e \<noteq> []
      then Inl (RaftStorageError code ''invalid Raft log entry'')
      else if encoded_size > kMaxRaftLogRecordSize - kLogEntryHeaderSize \<or>
        length (e_command e) > kMaxRaftLogRecordSize - encoded_size - kLogEntryHeaderSize
      then Inl (RaftStorageError code ''Raft log transaction exceeds maximum size'')
      else if e_index e = base_idx \<and> e_term e \<noteq> base_term
      then Inl (RaftStorageError code ''Raft log record conflicts with snapshot boundary'')
      else check_update_entries code base_idx base_term current_term (add64 expected_index 1) (e_term e)
        (encoded_size + log_entry_size e) es)"

definition apply_log_update ::
  "RaftStorageErrorCode \<Rightarrow> LogIndex \<Rightarrow> LogEntry list \<Rightarrow> RaftPersistentState \<Rightarrow>
   (raft_storage_exn, RaftPersistentState) result" where
  "apply_log_update code from_index entries st =
     (let base_idx = snapshot_index (ps_snapshot st);
          base_term = snapshot_term (ps_snapshot st);
          last_idx = add64 base_idx (length (ps_log st))
      in if from_index = 0 \<or> from_index > base_idx \<and> from_index > add64 last_idx 1 \<or>
            length entries > kMaxRaftLogEntriesPerRecord
         then Inl (RaftStorageError code ''invalid Raft log suffix boundary or entry count'')
         else
           let previous_term = (if from_index = add64 base_idx 1 then base_term
                 else if from_index > add64 base_idx 1 then e_term (ps_log st ! (from_index - base_idx - 2))
                 else 0)
           in bindE (check_update_entries code base_idx base_term (ps_current_term st) from_index previous_term
                kLogRecordHeaderSize entries) (\<lambda>_.
                if entries = [] \<or> e_index (last entries) \<le> base_idx then Inr st
                else
                  let retained_from = max from_index (add64 base_idx 1)
                  in if retained_from > add64 last_idx 1
                     then Inl (RaftStorageError code ''invalid Raft log suffix after snapshot boundary'')
                     else Inr (st\<lparr>ps_log := take (retained_from - base_idx - 1) (ps_log st) @
                       drop (retained_from - from_index) entries\<rparr>)))"

subsection \<open>The published snapshot\<close>

definition snapshot_file_header :: "StoreIds \<Rightarrow> StateMachineSnapshot \<Rightarrow> bytes" where
  "snapshot_file_header ids snap =
     (let buf = write_at 56 (write_u32 (crc32 (s_state snap)))
            (write_at 48 (put64 (length (s_state snap)))
            (write_at 40 (put64 (s_term snap))
            (write_at 32 (put64 (s_index snap))
            (write_at 24 (put64 (si_fingerprint ids))
            (write_at 16 (put64 (si_node_id ids))
            (write_at 8 (put64 (si_cluster_id ids))
            (write_at 6 (write_u16 (of_nat kSnapshotHeaderSize))
            (write_at 4 (write_u16 kSnapshotFormatVersion)
            (write_at 0 (write_u32 kSnapshotMagic) (replicate kSnapshotHeaderSize 0))))))))))
      in write_at 60 (write_u32 (crc32 (take 60 buf))) buf)"

definition load_snapshot ::
  "StoreIds \<Rightarrow> bytes option \<Rightarrow> (raft_storage_exn, StateMachineSnapshot option) result" where
  "load_snapshot ids published =
     (case published of
        None \<Rightarrow> Inr None
      | Some bs \<Rightarrow>
          if length bs < kSnapshotHeaderSize then corruption ''Raft snapshot is shorter than its header''
          else if read_u32 (subspan 0 4 bs) \<noteq> kSnapshotMagic \<or> read_u16 (subspan 4 2 bs) \<noteq> kSnapshotFormatVersion \<or>
            unat (read_u16 (subspan 6 2 bs)) \<noteq> kSnapshotHeaderSize \<or> get64 8 bs \<noteq> si_cluster_id ids \<or>
            get64 16 bs \<noteq> si_node_id ids \<or> get64 24 bs \<noteq> si_fingerprint ids \<or>
            read_u32 (subspan 60 4 bs) \<noteq> crc32 (take 60 bs)
          then corruption ''invalid Raft snapshot header, version, or identity''
          else
            let index = get64 32 bs;
                term = get64 40 bs;
                payload_size = get64 48 bs
            in if index = 0 \<or> index = u64_max \<or> term = 0 \<or> payload_size > kMaxSnapshotPayloadSize \<or>
                  length bs \<noteq> kSnapshotHeaderSize + payload_size
               then corruption ''invalid Raft snapshot boundary or payload size''
               else if read_u32 (subspan 56 4 bs) \<noteq> crc32 (drop kSnapshotHeaderSize bs)
               then corruption ''Raft snapshot payload checksum mismatch''
               else Inr (Some \<lparr>s_index = index, s_term = term, s_state = drop kSnapshotHeaderSize bs\<rparr>))"

definition write_snapshot_atomic ::
  "StoreIds \<Rightarrow> StateMachineSnapshot \<Rightarrow> directory \<Rightarrow> (DiskOp, raft_storage_exn, unit) act" where
  "write_snapshot_atomic ids snap dir =
     (if s_index snap = 0 \<or> s_index snap = u64_max \<or> s_term snap = 0 \<or>
         length (s_state snap) > kMaxSnapshotPayloadSize
      then lift (invalid_update ''invalid Raft snapshot boundary or payload size'')
      else bindA (lift (load_snapshot ids (dir raft_snapshot))) (\<lambda>current.
        case current of
          Some cur \<Rightarrow>
            if s_index cur > s_index snap then emit []
            else if s_index cur = s_index snap
            then if cur \<noteq> snap then lift (invalid_update ''snapshot boundary already has different contents'')
                 else emit []
            else emit (create_file raft_snapshot (snapshot_file_header ids snap @ s_state snap))
        | None \<Rightarrow> emit (create_file raft_snapshot (snapshot_file_header ids snap @ s_state snap))))"

section \<open>Layout of the fixed-size files\<close>

definition ids_ok :: "StoreIds \<Rightarrow> bool" where
  "ids_ok ids \<longleftrightarrow> si_cluster_id ids \<le> u64_max \<and> si_node_id ids \<le> u64_max \<and> si_fingerprint ids \<le> u64_max"

text \<open>A prefix followed by its checksum.\<close>

lemma seal:
  "n = length P \<Longrightarrow> write_at n (write_u32 (checksum_without_tail (P @ replicate 4 0))) (P @ replicate 4 0) =
     P @ write_u32 (crc32 P)"
  by (simp add: write_at_def checksum_without_tail_def)

lemma sealed [simp]: "checksum_without_tail (P @ write_u32 w) = crc32 P"
  by (simp add: checksum_without_tail_def)

definition hard_prefix :: "StoreIds \<Rightarrow> HardRecord \<Rightarrow> bytes" where
  "hard_prefix ids r = write_u32 kHardMagic @ write_u16 kFormatVersion @
     write_u16 (if hr_voted_for r \<noteq> None then 1 else 0) @ put32 60 @ replicate 4 0 @ put64 (si_cluster_id ids) @
     put64 (si_node_id ids) @ put64 (hr_generation r) @ put64 (hr_term r) @
     put64 (case hr_voted_for r of None \<Rightarrow> 0 | Some v \<Rightarrow> v)"

lemma hard_state_layout: "encode_hard_state ids r = hard_prefix ids r @ write_u32 (crc32 (hard_prefix ids r))"
proof -
  have "write_at 48 (put64 (case hr_voted_for r of None \<Rightarrow> 0 | Some v \<Rightarrow> v))
            (write_at 40 (put64 (hr_term r))
            (write_at 32 (put64 (hr_generation r))
            (write_at 24 (put64 (si_node_id ids))
            (write_at 16 (put64 (si_cluster_id ids))
            (write_at 8 (put32 kHardStateSize)
            (write_at 6 (write_u16 (if hr_voted_for r \<noteq> None then 1 else 0))
            (write_at 4 (write_u16 kFormatVersion)
            (write_at 0 (write_u32 kHardMagic) (replicate kHardStateSize 0))))))))) = hard_prefix ids r @ replicate 4 0"
    by (simp add: hard_prefix_def write_at_def kHardStateSize_def del: of_nat_numeral)
  moreover have "length (hard_prefix ids r) = 56" by (simp add: hard_prefix_def)
  ultimately show ?thesis by (simp add: encode_hard_state_def Let_def seal)
qed

definition hard_ok :: "HardRecord \<Rightarrow> bool" where
  "hard_ok r \<longleftrightarrow> 0 < hr_generation r \<and> hr_generation r \<le> u64_max \<and> hr_term r \<le> u64_max \<and>
     (\<forall>v. hr_voted_for r = Some v \<longrightarrow> 0 < v \<and> v \<le> u64_max \<and> hr_term r \<noteq> 0)"

lemma hard_fields:
  fixes ids r c
  defines "B \<equiv> hard_prefix ids r @ write_u32 c"
  shows "length B = 60" "subspan 0 4 B = write_u32 kHardMagic" "subspan 4 2 B = write_u16 kFormatVersion"
    "subspan 6 2 B = write_u16 (if hr_voted_for r \<noteq> None then 1 else 0)" "subspan 8 4 B = put32 60"
    "subspan 12 4 B = put32 0" "subspan 16 8 B = put64 (si_cluster_id ids)" "subspan 24 8 B = put64 (si_node_id ids)"
    "subspan 32 8 B = put64 (hr_generation r)" "subspan 40 8 B = put64 (hr_term r)"
    "subspan 48 8 B = put64 (case hr_voted_for r of None \<Rightarrow> 0 | Some v \<Rightarrow> v)" "subspan 56 4 B = write_u32 c"
  by (simp_all add: B_def hard_prefix_def subspan_def write_u32_def numeral_eq_Suc)

lemma decode_encode_hard:
  assumes "ids_ok ids" and "hard_ok r"
  shows "decode_hard_state ids (encode_hard_state ids r) = Some r"
proof -
  define B where "B = hard_prefix ids r @ write_u32 (crc32 (hard_prefix ids r))"
  note f = hard_fields [of ids r "crc32 (hard_prefix ids r)", folded B_def]
  have c: "checksum_without_tail B = crc32 (hard_prefix ids r)" by (simp add: B_def)
  have n: "unat (of_nat (si_cluster_id ids) :: 64 word) = si_cluster_id ids" "unat (of_nat (si_node_id ids) :: 64 word) = si_node_id ids"
      "unat (of_nat (hr_generation r) :: 64 word) = hr_generation r" "unat (of_nat (hr_term r) :: 64 word) = hr_term r"
    using assms by (simp_all add: ids_ok_def hard_ok_def get64_put64)
  have "decode_hard_state ids B = Some r"
  proof (cases "hr_voted_for r")
    case None
    then show ?thesis using assms(2) n
      by (cases r) (simp add: decode_hard_state_def f c kHardStateSize_def hard_ok_def)
  next
    case (Some v)
    then have "unat (of_nat v :: 64 word) = v" "v \<noteq> 0" using assms(2) by (simp_all add: hard_ok_def get64_put64)
    then show ?thesis using assms(2) n Some
      by (cases r) (simp add: decode_hard_state_def f c kHardStateSize_def hard_ok_def)
  qed
  then show ?thesis by (simp add: hard_state_layout B_def)
qed

definition identity_prefix :: "StoreIds \<Rightarrow> bytes" where
  "identity_prefix ids = write_u32 kIdentityMagic @ write_u16 kFormatVersion @ write_u16 40 @
     put64 (si_cluster_id ids) @ put64 (si_node_id ids) @ put64 (si_fingerprint ids) @ replicate 4 0"

lemma identity_layout: "encode_identity ids = identity_prefix ids @ write_u32 (crc32 (identity_prefix ids))"
proof -
  have "write_at 24 (put64 (si_fingerprint ids)) (write_at 16 (put64 (si_node_id ids)) (write_at 8 (put64 (si_cluster_id ids))
     (write_at 6 (write_u16 (of_nat kIdentitySize)) (write_at 4 (write_u16 kFormatVersion)
     (write_at 0 (write_u32 kIdentityMagic) (replicate kIdentitySize 0)))))) = identity_prefix ids @ replicate 4 0"
    by (simp add: identity_prefix_def write_at_def kIdentitySize_def replicate_add [symmetric])
  moreover have "length (identity_prefix ids) = 36" by (simp add: identity_prefix_def)
  ultimately show ?thesis by (simp add: encode_identity_def Let_def seal)
qed

lemma verify_encode_identity:
  assumes "ids_ok ids"
  shows "verify_identity ids (encode_identity ids) = Inr ()" and "length (encode_identity ids) = 40"
proof -
  define B where "B = identity_prefix ids @ write_u32 (crc32 (identity_prefix ids))"
  have f: "length B = 40" "subspan 0 4 B = write_u32 kIdentityMagic" "subspan 4 2 B = write_u16 kFormatVersion"
      "subspan 6 2 B = write_u16 40" "subspan 8 8 B = put64 (si_cluster_id ids)" "subspan 16 8 B = put64 (si_node_id ids)"
      "subspan 24 8 B = put64 (si_fingerprint ids)" "subspan 32 4 B = put32 0"
      "subspan 36 4 B = write_u32 (crc32 (identity_prefix ids))"
    by (simp_all add: B_def identity_prefix_def subspan_def write_u32_def numeral_eq_Suc)
  have c: "checksum_without_tail B = crc32 (identity_prefix ids)" by (simp add: B_def)
  have "verify_identity ids B = Inr ()"
    using assms by (simp add: verify_identity_def f c kIdentitySize_def ids_ok_def get64_put64)
  then show "verify_identity ids (encode_identity ids) = Inr ()" "length (encode_identity ids) = 40"
    using f(1) by (simp_all add: identity_layout B_def)
qed

definition log_header_prefix :: "StoreIds \<Rightarrow> StateMachineSnapshot option \<Rightarrow> bytes" where
  "log_header_prefix ids req = write_u32 kLogMagic @ write_u16 kLogFormatVersion @ write_u16 52 @
     put64 (si_cluster_id ids) @ put64 (si_node_id ids) @ put64 (si_fingerprint ids) @ put64 (snapshot_index req) @
     put64 (snapshot_term req)"

lemma log_header_layout: "encode_log_header ids req = log_header_prefix ids req @ write_u32 (crc32 (log_header_prefix ids req))"
proof -
  have "write_at 40 (put64 (snapshot_term req)) (write_at 32 (put64 (snapshot_index req))
     (write_at 24 (put64 (si_fingerprint ids)) (write_at 16 (put64 (si_node_id ids)) (write_at 8 (put64 (si_cluster_id ids))
     (write_at 6 (write_u16 (of_nat kLogHeaderSize)) (write_at 4 (write_u16 kLogFormatVersion)
     (write_at 0 (write_u32 kLogMagic) (replicate kLogHeaderSize 0)))))))) = log_header_prefix ids req @ replicate 4 0"
    by (simp add: log_header_prefix_def write_at_def kLogHeaderSize_def)
  moreover have "length (log_header_prefix ids req) = 48" by (simp add: log_header_prefix_def)
  ultimately show ?thesis by (simp add: encode_log_header_def Let_def seal)
qed

lemma length_log_header [simp]: "length (encode_log_header ids req) = 52"
  by (simp add: log_header_layout log_header_prefix_def)

definition boundary_ok :: "StateMachineSnapshot option \<Rightarrow> bool" where
  "boundary_ok req \<longleftrightarrow> (\<forall>s. req = Some s \<longrightarrow> 0 < s_index s \<and> s_index s < u64_max \<and> 0 < s_term s \<and> s_term s \<le> u64_max)"

abbreviation boundary :: "StateMachineSnapshot option \<Rightarrow> (LogIndex \<times> Term) option" where
  "boundary req \<equiv> map_option (\<lambda>s. (s_index s, s_term s)) req"

lemma verify_encode_log_header:
  assumes "ids_ok ids" and "boundary_ok req"
  shows "verify_log_header ids (encode_log_header ids req) = Inr (boundary req)"
proof -
  define B where "B = log_header_prefix ids req @ write_u32 (crc32 (log_header_prefix ids req))"
  have f: "length B = 52" "subspan 0 4 B = write_u32 kLogMagic" "subspan 4 2 B = write_u16 kLogFormatVersion"
      "subspan 6 2 B = write_u16 52" "subspan 8 8 B = put64 (si_cluster_id ids)" "subspan 16 8 B = put64 (si_node_id ids)"
      "subspan 24 8 B = put64 (si_fingerprint ids)" "subspan 32 8 B = put64 (snapshot_index req)"
      "subspan 40 8 B = put64 (snapshot_term req)" "subspan 48 4 B = write_u32 (crc32 (log_header_prefix ids req))"
    by (simp_all add: B_def log_header_prefix_def subspan_def)
  have c: "checksum_without_tail B = crc32 (log_header_prefix ids req)" by (simp add: B_def)
  have n: "unat (of_nat (snapshot_index req) :: 64 word) = snapshot_index req"
      "unat (of_nat (snapshot_term req) :: 64 word) = snapshot_term req"
    using assms(2) by (cases req; simp add: boundary_ok_def snapshot_index_def snapshot_term_def get64_put64)+
  have "verify_log_header ids B = Inr (boundary req)"
    using assms n
    by (cases req)
       (simp_all add: verify_log_header_def f c kLogHeaderSize_def ids_ok_def get64_put64 boundary_ok_def
         snapshot_index_def snapshot_term_def)
  then show ?thesis by (simp add: log_header_layout B_def)
qed

definition snapshot_prefix :: "StoreIds \<Rightarrow> StateMachineSnapshot \<Rightarrow> bytes" where
  "snapshot_prefix ids s = write_u32 kSnapshotMagic @ write_u16 kSnapshotFormatVersion @ write_u16 64 @
     put64 (si_cluster_id ids) @ put64 (si_node_id ids) @ put64 (si_fingerprint ids) @ put64 (s_index s) @
     put64 (s_term s) @ put64 (length (s_state s)) @ write_u32 (crc32 (s_state s))"

lemma snapshot_header_layout:
  "snapshot_file_header ids s = snapshot_prefix ids s @ write_u32 (crc32 (snapshot_prefix ids s))"
proof -
  have "write_at 56 (write_u32 (crc32 (s_state s))) (write_at 48 (put64 (length (s_state s)))
     (write_at 40 (put64 (s_term s)) (write_at 32 (put64 (s_index s)) (write_at 24 (put64 (si_fingerprint ids))
     (write_at 16 (put64 (si_node_id ids)) (write_at 8 (put64 (si_cluster_id ids)) (write_at 6 (write_u16 (of_nat kSnapshotHeaderSize))
     (write_at 4 (write_u16 kSnapshotFormatVersion) (write_at 0 (write_u32 kSnapshotMagic) (replicate kSnapshotHeaderSize 0)))))))))) =
     snapshot_prefix ids s @ replicate 4 0"
    by (simp add: snapshot_prefix_def write_at_def kSnapshotHeaderSize_def)
  moreover have "length (snapshot_prefix ids s) = 60" by (simp add: snapshot_prefix_def)
  ultimately show ?thesis by (simp add: snapshot_file_header_def Let_def write_at_def)
qed

definition snapshot_file :: "StoreIds \<Rightarrow> StateMachineSnapshot \<Rightarrow> bytes" where
  "snapshot_file ids s = snapshot_file_header ids s @ s_state s"

definition snapshot_valid :: "StateMachineSnapshot \<Rightarrow> bool" where
  "snapshot_valid s \<longleftrightarrow> 0 < s_index s \<and> s_index s < u64_max \<and> 0 < s_term s \<and> s_term s \<le> u64_max \<and>
     length (s_state s) \<le> kMaxSnapshotPayloadSize"

lemma load_snapshot_file:
  assumes "ids_ok ids" and "snapshot_valid s"
  shows "load_snapshot ids (Some (snapshot_file ids s)) = Inr (Some s)"
proof -
  define B where "B = snapshot_prefix ids s @ write_u32 (crc32 (snapshot_prefix ids s)) @ s_state s"
  have f: "length B = 64 + length (s_state s)" "subspan 0 4 B = write_u32 kSnapshotMagic" "subspan 4 2 B = write_u16 kSnapshotFormatVersion"
      "subspan 6 2 B = write_u16 64" "subspan 8 8 B = put64 (si_cluster_id ids)" "subspan 16 8 B = put64 (si_node_id ids)"
      "subspan 24 8 B = put64 (si_fingerprint ids)" "subspan 32 8 B = put64 (s_index s)" "subspan 40 8 B = put64 (s_term s)"
      "subspan 48 8 B = put64 (length (s_state s))" "subspan 56 4 B = write_u32 (crc32 (s_state s))"
      "subspan 60 4 B = write_u32 (crc32 (snapshot_prefix ids s))" "take 60 B = snapshot_prefix ids s" "drop 64 B = s_state s"
    by (simp_all add: B_def snapshot_prefix_def subspan_def)
  have "unat (of_nat (length (s_state s)) :: 64 word) = length (s_state s)"
    using assms(2) by (intro unat_of_nat64) (simp add: snapshot_valid_def kMaxSnapshotPayloadSize_def)
  then have "load_snapshot ids (Some B) = Inr (Some s)"
    using assms by (simp add: load_snapshot_def f kSnapshotHeaderSize_def ids_ok_def snapshot_valid_def get64_put64)
  then show ?thesis by (simp add: B_def snapshot_file_def snapshot_header_layout)
qed

section \<open>Log transactions\<close>

definition entry_storable :: "LogEntry \<Rightarrow> bool" where
  "entry_storable e \<longleftrightarrow> e_index e \<le> u64_max \<and> e_term e \<le> u64_max \<and> length (e_command e) \<le> kMaxRaftCommandSize \<and>
     byte_kind (kind_byte (e_kind e)) = e_kind e"

lemma put_log_entry_image:
  "put_log_entry (length pre) e (pre @ replicate (log_entry_size e + k) 0) = pre @ entry_bytes e @ replicate k 0"
  using write_entry_layout [of pre "length pre" e k]
  by (simp add: put_log_entry_def log_entry_size_def kLogEntryHeaderSize_def)

lemma reserved_bytes: "subspan off 3 B = [0, 0, 0] \<Longrightarrow> off + 3 \<le> length B \<Longrightarrow> B ! off = 0 \<and> B ! (off + 1) = 0 \<and> B ! (off + 2) = 0"
proof -
  assume a: "subspan off 3 B = [0, 0, 0]" "off + 3 \<le> length B"
  have "B ! (off + i) = subspan off 3 B ! i" if "i < 3" for i using that a(2) by (simp add: nth_subspan)
  from this [of 0] this [of 1] this [of 2] show ?thesis by (simp add: a(1))
qed

lemma get_log_entry_image:
  assumes "entry_storable e"
  shows "get_log_entry (length pre) u (pre @ entry_bytes e @ rest) = Inr (e, ())"
proof -
  define B where "B = pre @ entry_bytes e @ rest"
  let ?o = "length pre"
  note f = entry_fields [OF refl, of pre e rest, folded B_def]
  have l: "length B - ?o = 24 + length (e_command e) + length rest" by (simp add: B_def)
  then have "?o + 17 + 3 \<le> length B" by linarith
  then have z: "B ! (?o + 17) = 0" "B ! (?o + 18) = 0" "B ! (?o + 19) = 0"
    using reserved_bytes [OF f(4)] by (simp_all add: ac_simps)
  have n: "unat (of_nat (length (e_command e)) :: 32 word) = length (e_command e)"
      "unat (of_nat (e_index e) :: 64 word) = e_index e" "unat (of_nat (e_term e) :: 64 word) = e_term e"
    using assms by (simp_all add: entry_storable_def unat_small32 get64_put64)
  have "get_log_entry ?o u B = Inr (e, ())"
    using assms l n z by (simp add: get_log_entry_def f kLogEntryHeaderSize_def entry_storable_def)
  then show ?thesis by (simp add: B_def)
qed

lemma get_log_entry_sound:
  assumes "get_log_entry offset u input = Inr (e, u')" and "offset \<le> length input"
  shows "entry_storable e \<and> (\<exists>rest. drop offset input = entry_bytes e @ rest)"
proof -
  define k where "k = get32 (offset + 20) input"
  have a: "24 \<le> length input - offset" "k \<le> kMaxRaftCommandSize" "k \<le> length input - offset - 24"
      "input ! (offset + 17) = 0" "input ! (offset + 18) = 0" "input ! (offset + 19) = 0"
      and e: "e = \<lparr>e_index = get64 offset input, e_term = get64 (offset + 8) input,
        e_kind = byte_kind (input ! (offset + 16)), e_command = subspan (offset + 24) k input\<rparr>"
    using assms(1) by (auto simp: get_log_entry_def Let_def k_def kLogEntryHeaderSize_def split: if_splits)
  have l: "length (e_command e) = k" using a(1,3) by (simp add: e)
  have z: "[input ! (offset + 16), 0, 0, 0] = subspan (offset + 16) 4 input"
    using subspan_four [of "offset + 16" input] a(1,4-6) by (simp add: ac_simps)
  have "entry_bytes e = subspan offset 8 input @ subspan (offset + 8) 8 input @ subspan (offset + 16) 4 input @
      subspan (offset + 20) 4 input @ subspan (offset + 24) k input"
    using a(1) put_get64 [of offset input] put_get64 [of "offset + 8" input] put_get32 [of "offset + 20" input]
    unfolding entry_bytes_def l unfolding e by (simp add: kind_byte_of z [symmetric] k_def)
  also have "\<dots> = subspan offset (24 + k) input" by (simp add: subspan_join)
  finally have "drop offset input = entry_bytes e @ drop (offset + (24 + k)) input"
    using drop_subspan [of offset input "24 + k"] by simp
  moreover have "entry_storable e" using a(2) l by (simp add: entry_storable_def) (simp add: e kind_byte_of)
  ultimately show ?thesis by blast
qed

interpretation log_entries: sequence_codec entry_bytes log_entry_size put_log_entry get_log_entry
  "\<lambda>_. entry_storable" "\<lambda>_ _. ()"
proof unfold_locales
  show "put_log_entry (length pre) x (pre @ replicate (log_entry_size x + k) 0) = pre @ entry_bytes x @ replicate k 0"
    for pre x k by (rule put_log_entry_image)
  show "length (entry_bytes x) = log_entry_size x" for x by (simp add: log_entry_size_def kLogEntryHeaderSize_def)
  show "get_log_entry (length pre) s (pre @ entry_bytes x @ rest) = Inr (x, ())" if "entry_storable x" for pre s x rest
    by (rule get_log_entry_image [OF that])
  show "entry_storable x \<and> s' = () \<and> (\<exists>rest. drop offset input = entry_bytes x @ rest)"
    if "get_log_entry offset s input = Inr (x, s')" "offset \<le> length input" for offset s input x s'
    using get_log_entry_sound [OF that] by simp
qed

lemma storable_chain: "chain (\<lambda>_. entry_storable) (\<lambda>_ _. ()) u es \<longleftrightarrow> (\<forall>e \<in> set es. entry_storable e)"
  by (induction es arbitrary: u) auto

definition update_size :: "LogEntry list \<Rightarrow> nat" where
  "update_size es = 32 + (\<Sum>e \<leftarrow> es. log_entry_size e)"

definition update_ok :: "LogIndex \<Rightarrow> LogEntry list \<Rightarrow> bool" where
  "update_ok from_index es \<longleftrightarrow> from_index \<le> u64_max \<and> length es \<le> kMaxRaftLogEntriesPerRecord \<and>
     update_size es \<le> kMaxRaftLogRecordSize \<and> (\<forall>e \<in> set es. entry_storable e)"

definition update_head :: "LogIndex \<Rightarrow> LogEntry list \<Rightarrow> bytes" where
  "update_head from_index es = write_u32 kLogRecordMagic @ write_u16 kFormatVersion @ write_u16 32 @
     put32 (update_size es) @ put32 (length es) @ put64 from_index"

definition update_prefix :: "LogIndex \<Rightarrow> LogEntry list \<Rightarrow> bytes" where
  "update_prefix from_index es = update_head from_index es @ write_u32 (crc32 (update_head from_index es))"

definition update_bytes :: "LogIndex \<Rightarrow> LogEntry list \<Rightarrow> bytes" where
  "update_bytes from_index es = update_prefix from_index es @
     write_u32 (crc32 (update_prefix from_index es @ concat (map entry_bytes es))) @ concat (map entry_bytes es)"

lemma length_update_parts [simp]:
  "length (update_head from_index es) = 24" "length (update_prefix from_index es) = 28"
  by (simp_all add: update_head_def update_prefix_def)

lemma log_record_checksum_layout:
  "length P = 28 \<Longrightarrow> length c = 4 \<Longrightarrow> log_record_checksum (P @ c @ E) = crc32 (P @ E)"
  by (simp add: log_record_checksum_def kLogRecordHeaderSize_def crc32_def crc32_update_append)

lemma encode_log_update_layout:
  assumes "\<forall>e \<in> set es. entry_storable e"
  shows "encode_log_update from_index es = update_bytes from_index es" and "length (update_bytes from_index es) = update_size es"
proof -
  let ?n = "\<Sum>e \<leftarrow> es. log_entry_size e" and ?E = "concat (map entry_bytes es)"
  let ?H = "update_head from_index es" and ?P = "update_prefix from_index es"
  have ch: "chain (\<lambda>_. entry_storable) (\<lambda>_ _. ()) () es" using assms by (simp add: storable_chain)
  have sz: "kLogRecordHeaderSize + ?n = 32 + ?n" by (simp add: kLogRecordHeaderSize_def)
  have 1: "write_at 16 (put64 from_index) (write_at 12 (put32 (length es)) (write_at 8 (put32 (32 + ?n))
      (write_at 6 (write_u16 (of_nat kLogRecordHeaderSize)) (write_at 4 (write_u16 kFormatVersion)
      (write_at 0 (write_u32 kLogRecordMagic) (replicate (32 + ?n) 0)))))) = ?H @ replicate (8 + ?n) 0"
    by (simp add: write_at_def update_head_def update_size_def kLogRecordHeaderSize_def)
  have 2: "write_at 24 (write_u32 (crc32 (take 24 (?H @ replicate (8 + ?n) 0)))) (?H @ replicate (8 + ?n) 0) =
      (?P @ replicate 4 0) @ replicate ?n 0"
    by (simp add: write_at_def update_prefix_def replicate_add [symmetric])
  have 3: "write_seq put_log_entry log_entry_size kLogRecordHeaderSize es ((?P @ replicate 4 0) @ replicate ?n 0) =
      ?P @ replicate 4 0 @ ?E"
    using log_entries.write_images [OF ch, of "?P @ replicate 4 0" 0] by (simp add: kLogRecordHeaderSize_def)
  have 4: "write_at 28 (write_u32 (log_record_checksum (?P @ replicate 4 0 @ ?E))) (?P @ replicate 4 0 @ ?E) =
      update_bytes from_index es"
    by (simp add: log_record_checksum_layout update_bytes_def write_at_def)
  show "encode_log_update from_index es = update_bytes from_index es"
    unfolding encode_log_update_def Let_def sz 1 2 3 4 ..
  show "length (update_bytes from_index es) = update_size es"
    using log_entries.length_images [OF ch] by (simp add: update_bytes_def update_size_def)
qed

lemma update_fields:
  fixes from_index es rest
  defines "B \<equiv> update_bytes from_index es @ rest"
  shows "subspan 0 4 B = write_u32 kLogRecordMagic" "subspan 4 2 B = write_u16 kFormatVersion" "subspan 6 2 B = write_u16 32"
    "subspan 8 4 B = put32 (update_size es)" "subspan 12 4 B = put32 (length es)" "subspan 16 8 B = put64 from_index"
    "subspan 24 4 B = write_u32 (crc32 (update_head from_index es))" "take 24 B = update_head from_index es"
    "subspan 28 4 B = write_u32 (crc32 (update_prefix from_index es @ concat (map entry_bytes es)))"
  by (simp_all add: B_def update_bytes_def update_prefix_def update_head_def subspan_def)

lemma update_size_fits:
  "update_ok from_index es \<Longrightarrow> unat (of_nat (update_size es) :: 32 word) = update_size es \<and>
     unat (of_nat (length es) :: 32 word) = length es \<and> unat (of_nat from_index :: 64 word) = from_index"
  by (simp add: update_ok_def unat_of_nat32 get64_put64 kMaxRaftLogRecordSize_def kMaxRaftLogEntriesPerRecord_def)

lemma decode_log_update_bytes:
  assumes "update_ok from_index es"
  shows "decode_log_update (update_bytes from_index es) = Inr (from_index, es)"
proof -
  define B where "B = update_bytes from_index es"
  let ?E = "concat (map entry_bytes es)" and ?P = "update_prefix from_index es"
  let ?c = "write_u32 (crc32 (update_prefix from_index es @ concat (map entry_bytes es)))"
  have st: "\<forall>e \<in> set es. entry_storable e" and n: "length es \<le> kMaxRaftLogEntriesPerRecord"
    using assms by (simp_all add: update_ok_def)
  have ch: "chain (\<lambda>_. entry_storable) (\<lambda>_ _. ()) () es" using st by (simp add: storable_chain)
  note f = update_fields [of from_index es "[]", simplified, folded B_def]
  have l: "length B = update_size es" using encode_log_update_layout(2) [OF st] by (simp add: B_def)
  have c: "log_record_checksum B = crc32 (?P @ ?E)" by (simp add: B_def update_bytes_def log_record_checksum_layout)
  have r: "read_seq get_log_entry log_entry_size (length es) 32 () B = Inr (es, length B)"
    using log_entries.read_images [OF ch, of "?P @ ?c" "[]"] by (simp add: B_def update_bytes_def)
  have "32 \<le> length B" by (simp add: l update_size_def)
  then have "decode_log_update B = Inr (from_index, es)"
    using l c r n update_size_fits [OF assms] by (simp add: decode_log_update_def f kLogRecordHeaderSize_def)
  then show ?thesis by (simp add: B_def)
qed

lemma verify_update_head:
  "verify_log_record_header (take 32 (update_bytes from_index es)) = Inr ()"
proof -
  define B where "B = take 32 (update_bytes from_index es)"
  have l: "length B = 32" by (simp add: B_def update_bytes_def)
  have f: "subspan 0 4 B = write_u32 kLogRecordMagic" "subspan 4 2 B = write_u16 kFormatVersion" "subspan 6 2 B = write_u16 32"
      "subspan 24 4 B = write_u32 (crc32 (update_head from_index es))" "take 24 B = update_head from_index es"
    using update_fields [of from_index es "[]"] by (simp_all add: B_def subspan_take)
  have "verify_log_record_header B = Inr ()"
    using l by (simp add: verify_log_record_header_def f kLogRecordHeaderSize_def)
  then show ?thesis by (simp add: B_def)
qed

end
