(* ===== verification/Raft_Storage.thy ===== *)
theory Raft_Storage
  imports Raft_Files
begin

text \<open>
  The durable store of a Raft node (\<^verbatim>\<open>src/raft/raft_storage.cpp\<close>). An operation returns the steps it makes
  on the data directory together with its result; the object is threaded through. \<open>storage_open\<close> creates
  or recovers the store from the contents of the directory, replaying the journal. The hooks that tests
  install at the synchronisation points are absent, as by default, and so are the descriptors: the store
  is open as long as \<open>st_log_open\<close> holds.
\<close>

section \<open>Definitions\<close>

datatype PendingKind = pk_none | pk_hard_state | pk_log

record RaftStorage =
  st_ids :: StoreIds
  st_log_open :: bool
  st_pending_kind :: PendingKind
  st_pending_final_path :: "FileName option"
  st_hard_generation :: nat
  st_state :: RaftPersistentState
  st_pending_state :: RaftPersistentState

type_synonym 'a store_act = "(DiskOp, raft_storage_exn, 'a) act"

definition empty_state :: RaftPersistentState where
  "empty_state = \<lparr>ps_current_term = 0, ps_voted_for = None, ps_snapshot = None, ps_log = []\<rparr>"

subsection \<open>Recovery\<close>

definition read_and_verify_identity :: "StoreIds \<Rightarrow> bytes \<Rightarrow> (raft_storage_exn, unit) result" where
  "read_and_verify_identity ids bs =
     (if length bs = 32 then corruption ''Raft format version 1 requires offline migration or data wipe''
      else if length bs \<noteq> kIdentitySize then corruption ''truncated Raft initialized identity marker''
      else verify_identity ids bs)"

definition read_hard_slot :: "StoreIds \<Rightarrow> bytes option \<Rightarrow> HardRecord option" where
  "read_hard_slot ids slot =
     (case slot of None \<Rightarrow> None
      | Some bs \<Rightarrow> if length bs \<noteq> kHardStateSize then None else decode_hard_state ids bs)"

text \<open>
  The loop of \<open>recover_log\<close> from \<open>offset\<close> on. A record that is cut short ends the journal: the rest is
  truncated. A record that is complete but wrong is an error.
\<close>

function replay_log :: "nat \<Rightarrow> bytes \<Rightarrow> RaftPersistentState \<Rightarrow> RaftPersistentState store_act" where
  "replay_log offset journal st =
     (if \<not> offset < length journal then lift (Inr st)
      else if length journal - offset < kLogRecordHeaderSize
      then ([Truncate_log offset, Sync_log], Inr st)
      else
        let record_header = subspan offset kLogRecordHeaderSize journal;
            record_size = get32 8 record_header
        in case verify_log_record_header record_header of
             Inl e \<Rightarrow> lift (Inl e)
           | Inr _ \<Rightarrow>
               if record_size < kLogRecordHeaderSize \<or> record_size > kMaxRaftLogRecordSize
               then lift (corruption ''invalid Raft journal record size'')
               else if length journal - offset < record_size
               then ([Truncate_log offset, Sync_log], Inr st)
               else case decode_log_update (subspan offset record_size journal) of
                 Inl e \<Rightarrow> lift (Inl e)
               | Inr (from_index, entries) \<Rightarrow>
                   (case apply_log_update rs_corruption from_index entries st of
                      Inl e \<Rightarrow> lift (Inl e)
                    | Inr st' \<Rightarrow> replay_log (offset + record_size) journal st'))"
  by pat_completeness auto
termination
  by (relation "measure (\<lambda>(offset, journal, st). length journal - offset)")
     (auto simp: kLogRecordHeaderSize_def)

declare replay_log.simps [simp del]

definition recover_log :: "StoreIds \<Rightarrow> bytes \<Rightarrow> RaftPersistentState \<Rightarrow> RaftPersistentState store_act" where
  "recover_log ids journal st =
     (if length journal < kLogHeaderSize then lift (corruption ''truncated Raft journal header'')
      else bindA (lift (verify_log_header ids (take kLogHeaderSize journal))) (\<lambda>required.
        let loaded = ps_snapshot st
        in if (case required of None \<Rightarrow> False
              | Some (i, t) \<Rightarrow> loaded = None \<or> snapshot_index loaded < i \<or>
                  snapshot_index loaded = i \<and> snapshot_term loaded \<noteq> t)
           then lift (corruption ''Raft journal requires a missing or older snapshot'')
           else bindA (replay_log kLogHeaderSize journal
               (st\<lparr>ps_log := [],
                  ps_snapshot := map_option (\<lambda>(i, t). \<lparr>s_index = i, s_term = t, s_state = []\<rparr>) required\<rparr>)) (\<lambda>replay_state.
             case loaded of
               None \<Rightarrow> lift (Inr replay_state)
             | Some snap \<Rightarrow>
                 let replay_base = (case required of None \<Rightarrow> 0 | Some (i, t) \<Rightarrow> i);
                     covered_entries = s_index snap - replay_base;
                     boundary_matches =
                       (if covered_entries = 0
                        then (case required of None \<Rightarrow> False | Some (i, t) \<Rightarrow> t = s_term snap)
                        else covered_entries \<le> length (ps_log replay_state) \<and>
                             e_term (ps_log replay_state ! (covered_entries - 1)) = s_term snap)
                 in if \<not> boundary_matches
                    then lift (corruption ''full Raft journal conflicts with snapshot boundary'')
                    else lift (Inr (replay_state\<lparr>ps_log := drop covered_entries (ps_log replay_state),
                      ps_snapshot := loaded\<rparr>)))))"

text \<open>The checks on the two hard-state slots: both valid, of consecutive generations, A odd and B even.\<close>

definition select_hard_state ::
  "bytes option \<Rightarrow> bytes option \<Rightarrow> HardRecord option \<Rightarrow> HardRecord option \<Rightarrow> (raft_storage_exn, HardRecord) result" where
  "select_hard_state slot_a slot_b a b =
     (if slot_a \<noteq> None \<and> a = None \<or> slot_b \<noteq> None \<and> b = None then corruption ''invalid Raft hard-state generation''
      else case (a, b) of
        (Some ra, Some rb) \<Rightarrow>
          if hr_generation ra mod 2 \<noteq> 1 \<or> hr_generation rb mod 2 \<noteq> 0 \<or>
             (if hr_generation ra > hr_generation rb then hr_generation ra - hr_generation rb
              else hr_generation rb - hr_generation ra) \<noteq> 1
          then corruption ''inconsistent Raft hard-state generations''
          else Inr (if hr_generation ra \<ge> hr_generation rb then ra else rb)
      | _ \<Rightarrow> corruption ''missing Raft hard-state generation'')"

definition baseline :: "nat \<Rightarrow> HardRecord" where
  "baseline generation = \<lparr>hr_generation = generation, hr_term = 0, hr_voted_for = None\<rparr>"

definition storage_open :: "StoreIds \<Rightarrow> directory \<Rightarrow> RaftStorage store_act" where
  "storage_open ids dir =
     (if si_cluster_id ids = 0 \<or> si_node_id ids = 0
      then lift (invalid_update ''Raft storage cluster and node IDs must be nonzero'')
      else
        let identity_existed = dir IDENTITY_file \<noteq> None;
            hard_a_existed = dir hard_state_A \<noteq> None;
            hard_b_existed = dir hard_state_B \<noteq> None;
            log_existed = dir raft_log \<noteq> None
        in bindA (lift
             (case dir IDENTITY_file of
                Some identity \<Rightarrow> bindE (read_and_verify_identity ids identity) (\<lambda>_.
                  if \<not> hard_a_existed \<or> \<not> hard_b_existed \<or> \<not> log_existed
                  then corruption ''initialized Raft store is missing a durable artifact'' else Inr ())
              | None \<Rightarrow>
                  if \<not> hard_a_existed \<and> \<not> hard_b_existed \<and> log_existed
                  then corruption ''Raft journal exists without hard state or identity'' else Inr ())) (\<lambda>_.
           let first = encode_hard_state ids (baseline 1);
               dir = (if \<not> hard_a_existed \<and> \<not> hard_b_existed then dir(hard_state_A \<mapsto> first) else dir)
           in bindA (emit (if \<not> hard_a_existed \<and> \<not> hard_b_existed then create_file hard_state_A first else [])) (\<lambda>_.
             let a = read_hard_slot ids (dir hard_state_A);
                 second = encode_hard_state ids (baseline 2);
                 pristine_a = (\<not> identity_existed \<and> a = Some (baseline 1) \<and> dir hard_state_B = None);
                 dir = (if pristine_a then dir(hard_state_B \<mapsto> second) else dir)
             in bindA (emit (if pristine_a then create_file hard_state_B second else [])) (\<lambda>_.
               bindA (lift (select_hard_state (dir hard_state_A) (dir hard_state_B) a
                   (read_hard_slot ids (dir hard_state_B)))) (\<lambda>selected.
                 bindA (lift (load_snapshot ids (dir raft_snapshot))) (\<lambda>snap.
                   let st = \<lparr>ps_current_term = hr_term selected, ps_voted_for = hr_voted_for selected,
                         ps_snapshot = snap, ps_log = []\<rparr>
                   in if snap \<noteq> None \<and> snapshot_term snap > hr_term selected
                      then lift (corruption ''Raft snapshot term exceeds durable hard state'')
                      else if \<not> log_existed \<and> (identity_existed \<or> selected \<noteq> baseline 2)
                      then lift (corruption ''Raft journal is missing from a non-pristine store'')
                      else
                        let header = encode_log_header ids None;
                            journal = (case dir raft_log of Some bs \<Rightarrow> bs | None \<Rightarrow> header)
                        in bindA (emit (if \<not> log_existed then create_file raft_log header else [])) (\<lambda>_.
                          bindA (recover_log ids journal st) (\<lambda>st.
                            if \<not> identity_existed \<and> (selected \<noteq> baseline 2 \<or> ps_log st \<noteq> [])
                            then lift (corruption ''non-pristine Raft store is missing its identity marker'')
                            else bindA (emit ([Sync_log, Sync_directory] @
                                (if \<not> identity_existed then create_file IDENTITY_file (encode_identity ids) else []))) (\<lambda>_.
                              lift (Inr \<lparr>st_ids = ids, st_log_open = True, st_pending_kind = pk_none,
                                st_pending_final_path = None, st_hard_generation = hr_generation selected,
                                st_state = st, st_pending_state = empty_state\<rparr>))))))))))"

subsection \<open>Updates\<close>

definition prepare_hard_state :: "Term \<Rightarrow> NodeId option \<Rightarrow> RaftStorage \<Rightarrow> RaftStorage store_act" where
  "prepare_hard_state term vote st =
     (if \<not> st_log_open st then lift (Inl (RaftStorageError rs_closed ''prepare closed Raft storage''))
      else if st_pending_kind st \<noteq> pk_none then lift (invalid_update ''Raft storage already has a pending update'')
      else if term < ps_current_term (st_state st) \<or> term = 0 \<and> vote \<noteq> None \<or> vote = Some 0 \<or>
        term = ps_current_term (st_state st) \<and> ps_voted_for (st_state st) \<noteq> None \<and> vote \<noteq> ps_voted_for (st_state st)
      then lift (invalid_update ''Raft hard-state term or vote regression'')
      else if list_ex (\<lambda>e. e_term e > term) (ps_log (st_state st))
      then lift (invalid_update ''Raft hard state cannot move below a log term'')
      else if st_hard_generation st = u64_max then lift (invalid_update ''Raft hard-state generation exhausted'')
      else
        let generation = st_hard_generation st + 1
        in bindA (emit [Write_temporary (encode_hard_state (st_ids st)
               \<lparr>hr_generation = generation, hr_term = term, hr_voted_for = vote\<rparr>)]) (\<lambda>_.
             lift (Inr (st\<lparr>st_pending_final_path := Some (if generation mod 2 = 1 then hard_state_A else hard_state_B),
               st_pending_state := (st_state st)\<lparr>ps_current_term := term, ps_voted_for := vote\<rparr>,
               st_pending_kind := pk_hard_state\<rparr>))))"

definition prepare_log :: "LogIndex \<Rightarrow> LogEntry list \<Rightarrow> RaftStorage \<Rightarrow> RaftStorage store_act" where
  "prepare_log from_index entries st =
     (if \<not> st_log_open st then lift (Inl (RaftStorageError rs_closed ''prepare closed Raft storage''))
      else if st_pending_kind st \<noteq> pk_none then lift (invalid_update ''Raft storage already has a pending update'')
      else bindA (lift (apply_log_update rs_invalid_update from_index entries (st_state st))) (\<lambda>next_state.
        bindA (emit [Append_log (encode_log_update from_index entries)]) (\<lambda>_.
          lift (Inr (st\<lparr>st_pending_state := next_state, st_pending_kind := pk_log\<rparr>)))))"

definition storage_sync :: "RaftStorage \<Rightarrow> RaftStorage store_act" where
  "storage_sync st =
     (if \<not> st_log_open st then lift (Inl (RaftStorageError rs_closed ''sync closed Raft storage''))
      else case st_pending_kind st of
        pk_none \<Rightarrow> lift (invalid_update ''Raft storage has no pending update to sync'')
      | pk_hard_state \<Rightarrow>
          bindA (emit ([Sync_temporary] @ (case st_pending_final_path st of Some f \<Rightarrow> [Rename_to f] | None \<Rightarrow> []) @
              [Sync_directory])) (\<lambda>_.
            lift (Inr (st\<lparr>st_pending_final_path := None, st_hard_generation := add64 (st_hard_generation st) 1,
              st_state := st_pending_state st, st_pending_state := empty_state, st_pending_kind := pk_none\<rparr>)))
      | pk_log \<Rightarrow>
          bindA (emit [Sync_log]) (\<lambda>_.
            lift (Inr (st\<lparr>st_state := st_pending_state st, st_pending_state := empty_state, st_pending_kind := pk_none\<rparr>))))"

text \<open>
  The transactions that hold the retained suffix: as many entries as fit one record, at least one. The
  inner loop counts the entries of a batch.
\<close>

fun batch_size :: "nat \<Rightarrow> nat \<Rightarrow> LogEntry list \<Rightarrow> nat" where
  "batch_size count encoded_size [] = count"
| "batch_size count encoded_size (e # es) =
     (if count \<ge> kMaxRaftLogEntriesPerRecord \<or>
         count \<noteq> 0 \<and> log_entry_size e > kMaxRaftLogRecordSize - encoded_size
      then count else batch_size (Suc count) (encoded_size + log_entry_size e) es)"

lemma batch_size_ge: "count \<le> batch_size count encoded_size es"
  by (induction count encoded_size es rule: batch_size.induct) auto

lemma batch_size_pos: "es \<noteq> [] \<Longrightarrow> 0 < batch_size 0 encoded_size es"
  using batch_size_ge [of 1] by (cases es) (auto simp: kMaxRaftLogEntriesPerRecord_def Suc_le_eq)

function suffix_records :: "LogIndex \<Rightarrow> LogEntry list \<Rightarrow> bytes" where
  "suffix_records from_index suffix =
     (if suffix = [] then []
      else
        let n = batch_size 0 kLogRecordHeaderSize suffix
        in encode_log_update from_index (take n suffix) @ suffix_records (add64 from_index n) (drop n suffix))"
  by pat_completeness auto
termination
  by (relation "measure (\<lambda>(from_index, suffix). length suffix)") (auto simp: batch_size_pos)

declare suffix_records.simps [simp del]

definition suffix_after :: "StateMachineSnapshot \<Rightarrow> RaftPersistentState \<Rightarrow> LogEntry list" where
  "suffix_after snap st =
     (let old_base = snapshot_index (ps_snapshot st)
      in if s_index snap \<le> add64 old_base (length (ps_log st)) \<and>
            e_term (ps_log st ! (s_index snap - old_base - 1)) = s_term snap
         then drop (s_index snap - old_base) (ps_log st) else [])"

definition storage_install_snapshot ::
  "StateMachineSnapshot \<Rightarrow> bool \<Rightarrow> directory \<Rightarrow> RaftStorage \<Rightarrow> RaftStorage store_act" where
  "storage_install_snapshot snap already_durable dir st =
     (if \<not> st_log_open st then lift (Inl (RaftStorageError rs_closed ''install snapshot on closed Raft storage''))
      else if st_pending_kind st \<noteq> pk_none then lift (invalid_update ''Raft storage already has a pending update'')
      else if s_index snap = u64_max \<or> s_index snap \<le> snapshot_index (ps_snapshot (st_state st)) \<or> s_term snap = 0 \<or>
        s_term snap > ps_current_term (st_state st) \<or> length (s_state snap) > kMaxSnapshotPayloadSize
      then lift (invalid_update ''invalid or regressing Raft snapshot'')
      else
        let suffix = suffix_after snap (st_state st)
        in bindA (if \<not> already_durable then write_snapshot_atomic (st_ids st) snap dir
             else bindA (lift (load_snapshot (st_ids st) (dir raft_snapshot))) (\<lambda>durable.
               if durable \<noteq> Some snap
               then lift (invalid_update ''prewritten snapshot does not match compact request'') else emit [])) (\<lambda>_.
             bindA (emit (create_file raft_log
                 (encode_log_header (st_ids st) (Some snap) @ suffix_records (add64 (s_index snap) 1) suffix))) (\<lambda>_.
               lift (Inr (st\<lparr>st_state := (st_state st)\<lparr>ps_snapshot := Some snap, ps_log := suffix\<rparr>\<rparr>)))))"

definition storage_close :: "RaftStorage \<Rightarrow> RaftStorage" where
  "storage_close st = st\<lparr>st_pending_final_path := None, st_log_open := False, st_pending_kind := pk_none\<rparr>"

definition has_pending_update :: "RaftStorage \<Rightarrow> bool" where
  "has_pending_update st \<longleftrightarrow> st_pending_kind st \<noteq> pk_none"

end
