(* ===== verification/Raft_Journal.thy ===== *)
theory Raft_Journal
  imports Raft_Handlers Raft_Storage
begin

text \<open>
  The journal of a Raft store. A transaction that the store accepts has the effect of the node's persist
  action and is accepted again when the journal is replayed; a record that was cut short ends the replay;
  the journal keeps standing for the state of the store through appends, new terms and snapshots. The
  header of a journal may name an older snapshot than the published one.
\<close>

section \<open>Transactions accepted by the store\<close>

definition entry_plain :: "LogEntry \<Rightarrow> bool" where
  "entry_plain e \<longleftrightarrow> (e_kind e = Command_entry \<or> e_kind e = No_op) \<and> length (e_command e) \<le> kMaxRaftCommandSize \<and>
     (e_kind e = No_op \<longrightarrow> e_command e = [])"

lemma check_update_entries_iff:
  assumes "base_idx \<le> i" and "i + length es < u64_max" and "sz \<le> kMaxRaftLogRecordSize"
  shows "check_update_entries code base_idx base_term T (Suc i) t sz es = Inr () \<longleftrightarrow>
    entries_follow T i t es \<and> (\<forall>e \<in> set es. entry_plain e) \<and>
    sz + (\<Sum>e \<leftarrow> es. log_entry_size e) \<le> kMaxRaftLogRecordSize"
  using assms
proof (induction es arbitrary: i t sz)
  case (Cons e es)
  have step: "add64 (Suc i) 1 = Suc (Suc i)" if "es \<noteq> []"
    using Cons.prems that by (intro add64_one) (cases es, auto)
  have fits: "\<not> (sz > kMaxRaftLogRecordSize - kLogEntryHeaderSize \<or>
      length (e_command e) > kMaxRaftLogRecordSize - sz - kLogEntryHeaderSize) \<longleftrightarrow>
      sz + log_entry_size e \<le> kMaxRaftLogRecordSize"
    using Cons.prems(3) by (auto simp: log_entry_size_def kMaxRaftLogRecordSize_def kLogEntryHeaderSize_def)
  show ?case
  proof (cases "es = []")
    case True
    then show ?thesis using Cons.prems fits by (auto simp: entry_plain_def)
  next
    case False
    have "check_update_entries code base_idx base_term T (Suc (Suc i)) (e_term e) (sz + log_entry_size e) es = Inr () \<longleftrightarrow>
        entries_follow T (Suc i) (e_term e) es \<and> (\<forall>e \<in> set es. entry_plain e) \<and>
        sz + log_entry_size e + (\<Sum>e \<leftarrow> es. log_entry_size e) \<le> kMaxRaftLogRecordSize"
      if "sz + log_entry_size e \<le> kMaxRaftLogRecordSize"
      using Cons.prems that by (intro Cons.IH) auto
    then show ?thesis using Cons.prems fits step [OF False] by (auto simp: entry_plain_def)
  qed
qed simp

definition term_before :: "RaftPersistentState \<Rightarrow> LogIndex \<Rightarrow> Term" where
  "term_before st i = (if i = Suc (snapshot_index (ps_snapshot st)) then snapshot_term (ps_snapshot st)
     else e_term (ps_log st ! (i - snapshot_index (ps_snapshot st) - 2)))"

text \<open>A transaction after the snapshot is accepted exactly when it continues the log, and then has the effect
  of the node's action.\<close>

lemma apply_log_update_iff:
  assumes "snapshot_index (ps_snapshot st) < i" and "snapshot_index (ps_snapshot st) + length (ps_log st) < u64_max"
    and "i + length es \<le> u64_max"
  shows "apply_log_update code i es st = Inr st' \<longleftrightarrow>
    i \<le> Suc (snapshot_index (ps_snapshot st) + length (ps_log st)) \<and> length es \<le> kMaxRaftLogEntriesPerRecord \<and>
    entries_follow (ps_current_term st) (i - 1) (term_before st i) es \<and> (\<forall>e \<in> set es. entry_plain e) \<and>
    update_size es \<le> kMaxRaftLogRecordSize \<and> st' = persist (PersistLog i es) st"
proof -
  let ?B = "snapshot_index (ps_snapshot st)"
  have a: "add64 ?B 1 = Suc ?B" "add64 ?B (length (ps_log st)) = ?B + length (ps_log st)"
      "add64 (?B + length (ps_log st)) 1 = Suc (?B + length (ps_log st))"
    using assms by (simp_all add: add64_def u64_max_def)
  have b: "(if i = Suc ?B then snapshot_term (ps_snapshot st)
      else if i > Suc ?B then e_term (ps_log st ! (i - ?B - 2)) else 0) = term_before st i"
    using assms(1) by (simp add: term_before_def)
  have c: "check_update_entries code ?B (snapshot_term (ps_snapshot st)) (ps_current_term st) i (term_before st i) kLogRecordHeaderSize es = Inr () \<longleftrightarrow>
      entries_follow (ps_current_term st) (i - 1) (term_before st i) es \<and> (\<forall>e \<in> set es. entry_plain e) \<and>
      update_size es \<le> kMaxRaftLogRecordSize"
    using check_update_entries_iff [of ?B "i - 1" es kLogRecordHeaderSize] assms
    by (simp add: update_size_def kLogRecordHeaderSize_def kMaxRaftLogRecordSize_def)
  have l: "\<not> e_index (last es) \<le> ?B" if "es \<noteq> []" "entries_follow (ps_current_term st) (i - 1) (term_before st i) es"
  proof -
    have "i - 1 < e_index e" if "entries_follow T (i - 1) t es" "e \<in> set es" for T t e
    proof -
      have "j < e_index e" if "entries_follow T j t es" "e \<in> set es" for j
        using that by (induction es arbitrary: j t) (auto, fastforce)
      then show ?thesis using that by blast
    qed
    then show ?thesis using that assms(1) last_in_set by fastforce
  qed
  have m: "max i (Suc ?B) = i" using assms(1) by simp
  show ?thesis
  proof (cases "check_update_entries code ?B (snapshot_term (ps_snapshot st)) (ps_current_term st) i
      (term_before st i) kLogRecordHeaderSize es")
    case (Inl e)
    then show ?thesis unfolding apply_log_update_def Let_def a b m using c by auto
  next
    case (Inr u)
    then have "\<not> e_index (last es) \<le> ?B" if "es \<noteq> []" using c l [OF that] by simp
    then show ?thesis unfolding apply_log_update_def Let_def a b m using Inr c assms(1) by auto
  qed
qed

lemma accepted_update_ok:
  assumes "\<forall>e \<in> set es. entry_plain e" and "entries_follow T i t es" and "T \<le> u64_max" and "Suc i \<le> u64_max"
    and "length es \<le> kMaxRaftLogEntriesPerRecord" and "update_size es \<le> kMaxRaftLogRecordSize"
  shows "update_ok (Suc i) es"
proof -
  have "e_index e \<le> u64_max \<and> e_term e \<le> u64_max" if "e \<in> set es" for e
    using assms(2) that assms(3) by (induction es arbitrary: i t) auto
  then show ?thesis
    using assms by (auto simp: update_ok_def entry_storable_def entry_plain_def)
qed

section \<open>Replaying the journal\<close>

type_synonym update = "LogIndex \<times> LogEntry list"

fun replay_updates :: "update list \<Rightarrow> RaftPersistentState \<Rightarrow> (raft_storage_exn, RaftPersistentState) result" where
  "replay_updates [] st = Inr st"
| "replay_updates ((i, es) # us) st = bindE (apply_log_update rs_corruption i es st) (replay_updates us)"

definition updates_bytes :: "update list \<Rightarrow> bytes" where
  "updates_bytes us = concat (map (\<lambda>(i, es). update_bytes i es) us)"

definition updates_ok :: "update list \<Rightarrow> bool" where
  "updates_ok us \<longleftrightarrow> (\<forall>(i, es) \<in> set us. update_ok i es)"

lemma updates_bytes_simps [simp]:
  "updates_bytes [] = []" "updates_bytes (u # us) = update_bytes (fst u) (snd u) @ updates_bytes us"
  "updates_bytes (us @ vs) = updates_bytes us @ updates_bytes vs"
  by (simp_all add: updates_bytes_def split_def)

lemma updates_ok_simps [simp]:
  "updates_ok []" "updates_ok (u # us) \<longleftrightarrow> update_ok (fst u) (snd u) \<and> updates_ok us"
  "updates_ok (us @ vs) \<longleftrightarrow> updates_ok us \<and> updates_ok vs"
  by (auto simp: updates_ok_def split_def)

lemma replay_updates_append:
  "replay_updates (us @ vs) st = bindE (replay_updates us st) (replay_updates vs)"
  by (induction us st rule: replay_updates.induct) (auto simp: bindE_assoc intro!: bindE_cong)

lemma replay_log_end: "length journal \<le> offset \<Longrightarrow> replay_log offset journal st = ([], Inr st)"
  by (simp add: replay_log.simps lift_def)

lemma update_size_ge: "32 \<le> update_size es"
  by (simp add: update_size_def)

lemma length_update_bytes: "update_ok i es \<Longrightarrow> length (update_bytes i es) = update_size es"
  by (simp add: encode_log_update_layout update_ok_def)

text \<open>The fixed header of a record, once it is there in full.\<close>

lemma record_head:
  assumes "update_ok i es" and "32 \<le> k"
  shows "subspan (length pre) kLogRecordHeaderSize (pre @ take k (update_bytes i es) @ rest) = take 32 (update_bytes i es)"
    and "verify_log_record_header (take 32 (update_bytes i es)) = Inr ()"
    and "get32 8 (take 32 (update_bytes i es)) = update_size es"
proof -
  have "32 \<le> length (update_bytes i es)" using length_update_bytes [OF assms(1)] update_size_ge by simp
  then show "subspan (length pre) kLogRecordHeaderSize (pre @ take k (update_bytes i es) @ rest) = take 32 (update_bytes i es)"
    using assms(2) by (simp add: subspan_def kLogRecordHeaderSize_def min_def)
  show "verify_log_record_header (take 32 (update_bytes i es)) = Inr ()" by (rule verify_update_head)
  have "subspan 8 4 (take 32 (update_bytes i es)) = put32 (update_size es)"
    using update_fields(4) [of i es "[]"] by (simp add: subspan_take)
  then show "get32 8 (take 32 (update_bytes i es)) = update_size es" using update_size_fits [OF assms(1)] by simp
qed

lemma replay_log_step:
  assumes "update_ok i es" and "apply_log_update rs_corruption i es st = Inr st'"
  shows "replay_log (length pre) (pre @ update_bytes i es @ rest) st =
    replay_log (length (pre @ update_bytes i es)) (pre @ update_bytes i es @ rest) st'"
proof -
  note l = length_update_bytes [OF assms(1)] and g = update_size_ge [of es]
  have h: "subspan (length pre) 32 (pre @ update_bytes i es @ rest) = take 32 (update_bytes i es)"
    using record_head(1) [OF assms(1) g, of pre rest] l by (simp add: kLogRecordHeaderSize_def)
  note r = record_head(2,3) [OF assms(1) order_refl]
  have b: "subspan (length pre) (update_size es) (pre @ update_bytes i es @ rest) = update_bytes i es"
    using l by (simp add: subspan_def)
  have sz: "update_size es \<le> kMaxRaftLogRecordSize" using assms(1) by (simp add: update_ok_def)
  show ?thesis
    using l g sz h r b decode_log_update_bytes [OF assms(1)] assms(2)
    by (subst replay_log.simps) (simp add: kLogRecordHeaderSize_def)
qed

lemma replay_log_updates:
  assumes "updates_ok us" and "replay_updates us st = Inr st'"
  shows "replay_log (length pre) (pre @ updates_bytes us @ rest) st =
    replay_log (length (pre @ updates_bytes us)) (pre @ updates_bytes us @ rest) st'"
  using assms
proof (induction us arbitrary: pre st)
  case (Cons u us)
  obtain i es where u: "u = (i, es)" by (cases u)
  obtain st1 where s: "apply_log_update rs_corruption i es st = Inr st1" "replay_updates us st1 = Inr st'"
    using Cons.prems(2) by (auto simp: u bindE_eq_Inr)
  have "replay_log (length pre) (pre @ updates_bytes (u # us) @ rest) st =
      replay_log (length (pre @ update_bytes i es)) ((pre @ update_bytes i es) @ updates_bytes us @ rest) st1"
    using replay_log_step [OF _ s(1), of pre "updates_bytes us @ rest"] Cons.prems(1) by (simp add: u)
  also have "\<dots> = replay_log (length ((pre @ update_bytes i es) @ updates_bytes us))
      ((pre @ update_bytes i es) @ updates_bytes us @ rest) st'"
    using Cons.prems(1) by (intro Cons.IH s(2)) (simp add: u)
  finally show ?case by (simp add: u)
qed simp

text \<open>A record that was cut short ends the replay, and what is left of it is truncated.\<close>

definition torn :: "bytes \<Rightarrow> bool" where
  "torn tail \<longleftrightarrow> tail = [] \<or> (\<exists>i es k. update_ok i es \<and> k < update_size es \<and> tail = take k (update_bytes i es))"

lemma replay_log_torn:
  assumes "torn tail"
  shows "replay_log (length pre) (pre @ tail) st = (if tail = [] then [] else [Truncate_log (length pre), Sync_log], Inr st)"
proof (cases "tail = []")
  case False
  then obtain i es k where t: "update_ok i es" "k < update_size es" "tail = take k (update_bytes i es)"
    using assms by (auto simp: torn_def)
  have l: "length tail = k" using t length_update_bytes [OF t(1)] by simp
  show ?thesis
  proof (cases "k < 32")
    case True
    moreover have "k \<noteq> 0" using False l by auto
    ultimately show ?thesis using False l by (subst replay_log.simps) (simp add: kLogRecordHeaderSize_def)
  next
    case k: False
    then have "32 \<le> k" by simp
    note h = record_head(1) [OF t(1) this, of pre "[]", unfolded kLogRecordHeaderSize_def] record_head(2,3) [OF t(1) this]
    have "update_size es \<le> kMaxRaftLogRecordSize" using t(1) by (simp add: update_ok_def)
    then show ?thesis using False l k h t(2,3) update_size_ge [of es]
      by (subst replay_log.simps) (simp add: kLogRecordHeaderSize_def)
  qed
qed (simp add: replay_log_end)

lemma replay_journal:
  assumes "updates_ok us" and "replay_updates us st = Inr st'" and "torn tail"
  shows "replay_log (length pre) (pre @ updates_bytes us @ tail) st =
    (if tail = [] then [] else [Truncate_log (length (pre @ updates_bytes us)), Sync_log], Inr st')"
  using replay_log_updates [OF assms(1,2), of pre tail] replay_log_torn [OF assms(3), of "pre @ updates_bytes us" st'] by simp

section \<open>What the directory of a store holds\<close>

definition ps_ok :: "RaftPersistentState \<Rightarrow> bool" where
  "ps_ok st \<longleftrightarrow> ps_current_term st \<le> u64_max \<and>
     (\<forall>v. ps_voted_for st = Some v \<longrightarrow> 0 < v \<and> v \<le> u64_max \<and> ps_current_term st \<noteq> 0) \<and>
     (\<forall>s. ps_snapshot st = Some s \<longrightarrow> snapshot_valid s \<and> s_term s \<le> ps_current_term st) \<and>
     snapshot_index (ps_snapshot st) + length (ps_log st) < u64_max \<and>
     entries_follow (ps_current_term st) (snapshot_index (ps_snapshot st)) (snapshot_term (ps_snapshot st)) (ps_log st) \<and>
     (\<forall>e \<in> set (ps_log st). entry_plain e)"

text \<open>
  The state replayed from a journal, whose header may name an older snapshot than the published one, and
  the state it stands for: the entries up to the published snapshot are dropped.
\<close>

definition covers :: "RaftPersistentState \<Rightarrow> RaftPersistentState \<Rightarrow> bool" where
  "covers r st \<longleftrightarrow> ps_current_term r = ps_current_term st \<and> ps_voted_for r = ps_voted_for st \<and>
     (let R = snapshot_index (ps_snapshot r); B = snapshot_index (ps_snapshot st) in
      R \<le> B \<and> R + length (ps_log r) < u64_max \<and> B \<le> R + length (ps_log r) \<and> ps_log st = drop (B - R) (ps_log r) \<and>
      (B = R \<longrightarrow> snapshot_term (ps_snapshot r) = snapshot_term (ps_snapshot st)) \<and>
      (B \<noteq> R \<longrightarrow> e_term (ps_log r ! (B - R - 1)) = snapshot_term (ps_snapshot st)))"

definition stub :: "StateMachineSnapshot option \<Rightarrow> StateMachineSnapshot option" where
  "stub req = map_option (\<lambda>s. s\<lparr>s_state := []\<rparr>) req"

lemma stub_boundary: "map_option (\<lambda>(i, t). \<lparr>s_index = i, s_term = t, s_state = []\<rparr>) (boundary req) = stub req"
  by (cases req) (auto simp: stub_def)

lemma stub_simps [simp]: "snapshot_index (stub req) = snapshot_index req" "snapshot_term (stub req) = snapshot_term req"
  by (cases req; simp add: stub_def snapshot_index_def snapshot_term_def)+

definition journal_holds :: "StateMachineSnapshot option \<Rightarrow> update list \<Rightarrow> RaftPersistentState \<Rightarrow> bool" where
  "journal_holds req us st \<longleftrightarrow> boundary_ok req \<and> updates_ok us \<and>
     (\<exists>r. replay_updates us (st\<lparr>ps_log := [], ps_snapshot := stub req\<rparr>) = Inr r \<and> ps_snapshot r = stub req \<and> covers r st)"

section \<open>Recovering the journal\<close>

text \<open>The checks of \<open>recover_log\<close> around the replay.\<close>

lemma recover_log_eq:
  assumes "kLogHeaderSize \<le> length journal" and "verify_log_header ids (take kLogHeaderSize journal) = Inr required"
    and "\<not> (case required of None \<Rightarrow> False | Some (i, t) \<Rightarrow> ps_snapshot st = None \<or> snapshot_index (ps_snapshot st) < i \<or>
      snapshot_index (ps_snapshot st) = i \<and> snapshot_term (ps_snapshot st) \<noteq> t)"
    and "replay_log kLogHeaderSize journal (st\<lparr>ps_log := [],
      ps_snapshot := map_option (\<lambda>(i, t). \<lparr>s_index = i, s_term = t, s_state = []\<rparr>) required\<rparr>) = (ops, Inr r)"
  shows "recover_log ids journal st =
    (case ps_snapshot st of None \<Rightarrow> (ops, Inr r)
     | Some snap \<Rightarrow>
         let covered = s_index snap - (case required of None \<Rightarrow> 0 | Some (i, t) \<Rightarrow> i)
         in if (if covered = 0 then (case required of None \<Rightarrow> False | Some (i, t) \<Rightarrow> t = s_term snap)
              else covered \<le> length (ps_log r) \<and> e_term (ps_log r ! (covered - 1)) = s_term snap)
            then (ops, Inr (r\<lparr>ps_log := drop covered (ps_log r), ps_snapshot := Some snap\<rparr>))
            else (ops, corruption ''full Raft journal conflicts with snapshot boundary''))"
  using assms unfolding recover_log_def by (cases required; cases "ps_snapshot st") (auto simp: Let_def)

lemma recover_log_holds:
  assumes "ids_ok ids" and "ps_ok st" and "journal_holds req us st" and "torn tail"
  shows "recover_log ids (encode_log_header ids req @ updates_bytes us @ tail) (st\<lparr>ps_log := []\<rparr>) =
    (if tail = [] then [] else [Truncate_log (length (encode_log_header ids req @ updates_bytes us)), Sync_log], Inr st)"
proof -
  let ?J = "encode_log_header ids req @ updates_bytes us @ tail"
  let ?ops = "if tail = [] then [] else [Truncate_log (length (encode_log_header ids req @ updates_bytes us)), Sync_log]"
  obtain r where r: "replay_updates us (st\<lparr>ps_log := [], ps_snapshot := stub req\<rparr>) = Inr r" "ps_snapshot r = stub req"
      "covers r st" "boundary_ok req" "updates_ok us"
    using assms(3) by (auto simp: journal_holds_def)
  have rep: "replay_log kLogHeaderSize ?J (st\<lparr>ps_log := [], ps_snapshot := stub req\<rparr>) = (?ops, Inr r)"
    using replay_journal [OF r(5,1) assms(4), of "encode_log_header ids req"] by (simp add: kLogHeaderSize_def)
  have hd: "verify_log_header ids (take kLogHeaderSize ?J) = Inr (boundary req)"
    using verify_encode_log_header [OF assms(1) r(4)] by (simp add: kLogHeaderSize_def)
  note c = r(3) [unfolded covers_def Let_def r(2) stub_simps]
  have pos: "0 < s_index s" if "req = Some s" for s using r(4) that by (simp add: boundary_ok_def)
  have len: "kLogHeaderSize \<le> length ?J" by (simp add: kLogHeaderSize_def)
  have needed: "\<not> (case boundary req of None \<Rightarrow> False
      | Some (i, t) \<Rightarrow> ps_snapshot st = None \<or> snapshot_index (ps_snapshot st) < i \<or>
          snapshot_index (ps_snapshot st) = i \<and> snapshot_term (ps_snapshot st) \<noteq> t)"
    using c pos by (cases req; cases "ps_snapshot st") (auto simp: snapshot_index_def snapshot_term_def)
  have s0: "ps_snapshot (st\<lparr>ps_log := []\<rparr>) = ps_snapshot st"
      "st\<lparr>ps_log := [], ps_log := [], ps_snapshot := x\<rparr> = st\<lparr>ps_log := [], ps_snapshot := x\<rparr>" for x
    by simp_all
  have eq: "recover_log ids ?J (st\<lparr>ps_log := []\<rparr>) = (case ps_snapshot st of None \<Rightarrow> (?ops, Inr r)
     | Some snap \<Rightarrow>
         let covered = s_index snap - (case boundary req of None \<Rightarrow> 0 | Some (i, t) \<Rightarrow> i)
         in if (if covered = 0 then (case boundary req of None \<Rightarrow> False | Some (i, t) \<Rightarrow> t = s_term snap)
              else covered \<le> length (ps_log r) \<and> e_term (ps_log r ! (covered - 1)) = s_term snap)
            then (?ops, Inr (r\<lparr>ps_log := drop covered (ps_log r), ps_snapshot := Some snap\<rparr>))
            else (?ops, corruption ''full Raft journal conflicts with snapshot boundary''))"
    by (rule recover_log_eq [OF len hd, of "st\<lparr>ps_log := []\<rparr>", unfolded s0 stub_boundary, OF needed rep])
  show ?thesis
  proof (cases "ps_snapshot st")
    case None
    then have "req = None" using c pos by (cases req) (auto simp: snapshot_index_def)
    then have "r = st" using c None r(2) by (simp add: stub_def)
    then show ?thesis by (simp add: eq None)
  next
    case (Some s)
    let ?R = "snapshot_index req"
    have R: "(case boundary req of None \<Rightarrow> 0 | Some (i, t) \<Rightarrow> i) = ?R" by (cases req) (simp_all add: snapshot_index_def)
    have B: "snapshot_index (ps_snapshot st) = s_index s" "snapshot_term (ps_snapshot st) = s_term s" using Some by (simp_all add: snapshot_index_def snapshot_term_def)
    have "0 < s_index s" using assms(2) Some by (simp add: ps_ok_def snapshot_valid_def)
    then have m: "(if s_index s - ?R = 0 then case boundary req of None \<Rightarrow> False | Some (i, t) \<Rightarrow> t = s_term s
        else s_index s - ?R \<le> length (ps_log r) \<and> e_term (ps_log r ! (s_index s - ?R - 1)) = s_term s)"
      using c B by (cases req) (auto simp: snapshot_index_def snapshot_term_def split: if_splits)
    have "r\<lparr>ps_log := drop (s_index s - ?R) (ps_log r), ps_snapshot := Some s\<rparr> = st" using c B Some by simp
    then show ?thesis unfolding eq Some option.case Let_def R if_P [OF m] by simp
  qed
qed

section \<open>Keeping the journal\<close>

lemma entries_follow_append:
  "entries_follow T i t (xs @ ys) \<longleftrightarrow> entries_follow T i t xs \<and>
     entries_follow T (i + length xs) (if xs = [] then t else e_term (last xs)) ys"
  by (induction xs arbitrary: i t) auto

lemma entries_follow_take: "entries_follow T i t xs \<Longrightarrow> entries_follow T i t (take k xs)"
  by (metis append_take_drop_id entries_follow_append)

text \<open>A transaction that the store accepted is accepted again by the replay.\<close>

lemma term_before_covers:
  assumes "covers r st" and "snapshot_index (ps_snapshot st) < i"
    and "i \<le> Suc (snapshot_index (ps_snapshot st) + length (ps_log st))"
  shows "term_before r i = term_before st i"
proof -
  let ?R = "snapshot_index (ps_snapshot r)" and ?B = "snapshot_index (ps_snapshot st)"
  have c: "?R \<le> ?B" "?B \<le> ?R + length (ps_log r)" "ps_log st = drop (?B - ?R) (ps_log r)"
      "?B = ?R \<longrightarrow> snapshot_term (ps_snapshot r) = snapshot_term (ps_snapshot st)"
      "?B \<noteq> ?R \<longrightarrow> e_term (ps_log r ! (?B - ?R - 1)) = snapshot_term (ps_snapshot st)"
    using assms(1) by (simp_all add: covers_def Let_def)
  consider "i = Suc ?B" "?B = ?R" | "i = Suc ?B" "?B \<noteq> ?R" | "Suc ?B < i" using assms(2) by linarith
  then show ?thesis
  proof cases
    case 2
    then have "i - ?R - 2 = ?B - ?R - 1" "i \<noteq> Suc ?R" using c(1) by auto
    then show ?thesis using c(5) 2 by (simp add: term_before_def)
  next
    case 3
    then have "?B - ?R + (i - ?B - 2) = i - ?R - 2" "i \<noteq> Suc ?R" using c(1) by auto
    then show ?thesis using c(2,3) 3 by (simp add: term_before_def)
  qed (use c(4) in \<open>simp add: term_before_def\<close>)
qed

lemma covers_persist_log:
  assumes "covers r st" and "snapshot_index (ps_snapshot st) < i"
    and "i \<le> Suc (snapshot_index (ps_snapshot st) + length (ps_log st))" and "i + length es \<le> u64_max"
  shows "covers (persist (PersistLog i es) r) (persist (PersistLog i es) st)"
proof (cases "es = []")
  case False
  let ?R = "snapshot_index (ps_snapshot r)" and ?B = "snapshot_index (ps_snapshot st)" and ?L = "ps_log r"
  have c: "?R \<le> ?B" "?B \<le> ?R + length ?L" "ps_log st = drop (?B - ?R) ?L"
      "ps_current_term r = ps_current_term st" "ps_voted_for r = ps_voted_for st"
      "?B = ?R \<longrightarrow> snapshot_term (ps_snapshot r) = snapshot_term (ps_snapshot st)"
      "?B \<noteq> ?R \<longrightarrow> e_term (?L ! (?B - ?R - 1)) = snapshot_term (ps_snapshot st)"
    using assms(1) by (simp_all add: covers_def Let_def)
  have k: "i - ?R - 1 = (i - ?B - 1) + (?B - ?R)" "i - ?R - 1 \<le> length ?L" using c(1-3) assms(2,3) by simp_all
  have "take (i - ?B - 1) (drop (?B - ?R) ?L) @ es = drop (?B - ?R) (take (i - ?R - 1) ?L @ es)"
    using k by (simp add: drop_take)
  moreover have "(take (i - ?R - 1) ?L @ es) ! (?B - ?R - 1) = ?L ! (?B - ?R - 1)" if "?B \<noteq> ?R"
    using that k c(1) assms(2) by (simp add: nth_append)
  ultimately show ?thesis
    using False c k assms(2,4) by (auto simp: covers_def Let_def)
qed (use assms(1) in simp)

lemma ps_ok_persist_log:
  assumes "ps_ok st" and "snapshot_index (ps_snapshot st) < i" and "i + length es \<le> u64_max"
    and "i \<le> Suc (snapshot_index (ps_snapshot st) + length (ps_log st))"
    and "entries_follow (ps_current_term st) (i - 1) (term_before st i) es" and "\<forall>e \<in> set es. entry_plain e"
  shows "ps_ok (persist (PersistLog i es) st)"
proof (cases "es = []")
  case False
  let ?B = "snapshot_index (ps_snapshot st)" and ?L = "ps_log st"
  have n: "length (take (i - ?B - 1) ?L) = i - ?B - 1" using assms(4) by simp
  have tb: "(if take (i - ?B - 1) ?L = [] then snapshot_term (ps_snapshot st) else e_term (last (take (i - ?B - 1) ?L))) = term_before st i"
  proof (cases "i = Suc ?B")
    case False
    then have "i - ?B - 1 \<noteq> 0" using assms(2) by linarith
    then have "take (i - ?B - 1) ?L \<noteq> []" using n by (metis list.size(3))
    moreover from this have "last (take (i - ?B - 1) ?L) = ?L ! (i - ?B - 2)"
      using n assms(2) False by (simp add: last_conv_nth del: take_eq_Nil)
    ultimately show ?thesis using False by (simp add: term_before_def)
  qed (simp add: term_before_def)
  have "?B + (i - ?B - 1) = i - 1" using assms(2) by simp
  then have "entries_follow (ps_current_term st) ?B (snapshot_term (ps_snapshot st)) (take (i - ?B - 1) ?L @ es)"
    unfolding entries_follow_append n tb using assms(1,5) entries_follow_take by (simp only: ps_ok_def)
  then show ?thesis
    using assms(1-3,6) n False by (auto simp: ps_ok_def dest: in_set_takeD)
qed (use assms(1) in simp)

lemma apply_log_update_keeps:
  "apply_log_update code i es st = Inr st' \<Longrightarrow> ps_snapshot st' = ps_snapshot st \<and> ps_current_term st' = ps_current_term st \<and>
     ps_voted_for st' = ps_voted_for st"
  by (auto simp: apply_log_update_def Let_def bindE_eq_Inr split: if_splits)

lemma journal_holds_update:
  assumes "journal_holds req us st" and "ps_ok st" and "snapshot_index (ps_snapshot st) < i"
    and "i + length es \<le> u64_max" and "apply_log_update code i es st = Inr st'"
  shows "journal_holds req (us @ [(i, es)]) st'" and "ps_ok st'" and "update_ok i es"
    and "st' = persist (PersistLog i es) st"
proof -
  obtain r where r: "replay_updates us (st\<lparr>ps_log := [], ps_snapshot := stub req\<rparr>) = Inr r" "ps_snapshot r = stub req"
      "covers r st" "boundary_ok req" "updates_ok us"
    using assms(1) by (auto simp: journal_holds_def)
  have fits: "snapshot_index (ps_snapshot st) + length (ps_log st) < u64_max" using assms(2) by (simp add: ps_ok_def)
  note a = apply_log_update_iff [OF assms(3) fits assms(4), THEN iffD1, OF assms(5)]
  have acc: "i \<le> Suc (snapshot_index (ps_snapshot st) + length (ps_log st))" "length es \<le> kMaxRaftLogEntriesPerRecord"
      "entries_follow (ps_current_term st) (i - 1) (term_before st i) es" "\<forall>e \<in> set es. entry_plain e"
      "update_size es \<le> kMaxRaftLogRecordSize" and st': "st' = persist (PersistLog i es) st"
    using a by auto
  have c: "snapshot_index (ps_snapshot r) \<le> snapshot_index (ps_snapshot st)" "snapshot_index (ps_snapshot r) + length (ps_log r) < u64_max"
      "snapshot_index (ps_snapshot r) + length (ps_log r) = snapshot_index (ps_snapshot st) + length (ps_log st)"
      "ps_current_term r = ps_current_term st"
    using r(3) by (auto simp: covers_def Let_def)
  have rep: "apply_log_update rs_corruption i es r = Inr (persist (PersistLog i es) r)"
    using c assms(3,4) acc term_before_covers [OF r(3) assms(3) acc(1)] by (subst apply_log_update_iff) auto
  show "st' = persist (PersistLog i es) st" by (fact st')
  show ok: "update_ok i es"
    using accepted_update_ok [OF acc(4,3)] acc assms(2-4) by (simp add: ps_ok_def)
  show "ps_ok st'" unfolding st' by (rule ps_ok_persist_log [OF assms(2,3,4) acc(1,3,4)])
  have eq: "st'\<lparr>ps_log := [], ps_snapshot := stub req\<rparr> = st\<lparr>ps_log := [], ps_snapshot := stub req\<rparr>" by (simp add: st')
  have "replay_updates (us @ [(i, es)]) (st'\<lparr>ps_log := [], ps_snapshot := stub req\<rparr>) = Inr (persist (PersistLog i es) r)"
    unfolding eq by (simp add: replay_updates_append r(1) rep bindE_eq_Inr)
  then show "journal_holds req (us @ [(i, es)]) st'"
    using covers_persist_log [OF r(3) assms(3) acc(1) assms(4)] r(2,4,5) ok apply_log_update_keeps [OF rep]
    unfolding journal_holds_def st' by auto
qed

lemma journal_holds_empty:
  assumes "journal_holds req us st" and "ps_ok st" and "apply_log_update code i [] st = Inr st'"
  shows "journal_holds req (us @ [(i, [])]) st" and "st' = st" and "update_ok i []"
proof -
  obtain r where r: "replay_updates us (st\<lparr>ps_log := [], ps_snapshot := stub req\<rparr>) = Inr r" "ps_snapshot r = stub req"
      "covers r st" "boundary_ok req" "updates_ok us"
    using assms(1) by (auto simp: journal_holds_def)
  let ?B = "snapshot_index (ps_snapshot st)" and ?R = "snapshot_index (ps_snapshot r)"
  have fits: "?B + length (ps_log st) < u64_max" using assms(2) by (simp add: ps_ok_def)
  then have i: "i \<noteq> 0" "i \<le> Suc (?B + length (ps_log st))" "st' = st"
    using assms(3) by (auto simp: apply_log_update_def Let_def add64_def u64_max_def split: if_split_asm)
  have c: "?R + length (ps_log r) = ?B + length (ps_log st)" using r(3) by (auto simp: covers_def Let_def)
  have "apply_log_update rs_corruption i [] r = Inr r"
    using i fits c by (auto simp: apply_log_update_def Let_def add64_def u64_max_def)
  then have "replay_updates (us @ [(i, [])]) (st\<lparr>ps_log := [], ps_snapshot := stub req\<rparr>) = Inr r"
    by (simp add: replay_updates_append r(1))
  moreover show ok: "update_ok i []" using i(2) fits by (simp add: update_ok_def update_size_def kMaxRaftLogRecordSize_def)
  ultimately show "journal_holds req (us @ [(i, [])]) st" using r(2-5) by (auto simp: journal_holds_def)
  show "st' = st" by (fact i(3))
qed

text \<open>A larger term changes nothing for the replay.\<close>

lemma check_update_entries_mono:
  "check_update_entries code b bt T i t sz es = Inr () \<Longrightarrow> T \<le> T' \<Longrightarrow> check_update_entries code b bt T' i t sz es = Inr ()"
  by (induction code b bt T i t sz es rule: check_update_entries.induct) (auto split: if_splits)

lemma apply_log_update_hard:
  assumes "apply_log_update code i es st = Inr st'" and "ps_current_term st \<le> T"
  shows "apply_log_update code i es (st\<lparr>ps_current_term := T, ps_voted_for := v\<rparr>) = Inr (st'\<lparr>ps_current_term := T, ps_voted_for := v\<rparr>)"
proof -
  define t where "t = (if i = add64 (snapshot_index (ps_snapshot st)) 1 then snapshot_term (ps_snapshot st)
    else if i > add64 (snapshot_index (ps_snapshot st)) 1 then e_term (ps_log st ! (i - snapshot_index (ps_snapshot st) - 2)) else 0)"
  let ?c = "\<lambda>T. check_update_entries code (snapshot_index (ps_snapshot st)) (snapshot_term (ps_snapshot st)) T i t kLogRecordHeaderSize es"
  have c: "?c (ps_current_term st) = Inr ()"
    using assms(1) unfolding apply_log_update_def Let_def t_def [symmetric] by (auto simp: bindE_eq_Inr split: if_split_asm)
  have d: "?c T = Inr ()" by (rule check_update_entries_mono [OF c assms(2)])
  have s: "ps_snapshot (st\<lparr>ps_current_term := T, ps_voted_for := v\<rparr>) = ps_snapshot st"
    "ps_log (st\<lparr>ps_current_term := T, ps_voted_for := v\<rparr>) = ps_log st"
    "ps_current_term (st\<lparr>ps_current_term := T, ps_voted_for := v\<rparr>) = T" by simp_all
  have same: "(if G then Inl E else bindE (Inr ()) (\<lambda>_. if N then Inr st else if F then Inl E' else Inr (st\<lparr>ps_log := X\<rparr>))) = Inr st' \<Longrightarrow>
      (if G then Inl E else bindE (Inr ()) (\<lambda>_. if N then Inr (st\<lparr>ps_current_term := T, ps_voted_for := v\<rparr>) else if F then Inl E'
        else Inr (st\<lparr>ps_current_term := T, ps_voted_for := v, ps_log := X\<rparr>))) = Inr (st'\<lparr>ps_current_term := T, ps_voted_for := v\<rparr>)"
    for G N F X and E E' :: raft_storage_exn
    by (auto split: if_split_asm)
  show ?thesis
    using assms(1) unfolding apply_log_update_def Let_def s t_def [symmetric] c d by (rule same)
qed

lemma replay_updates_hard:
  assumes "replay_updates us st = Inr st'" and "ps_current_term st \<le> T"
  shows "replay_updates us (st\<lparr>ps_current_term := T, ps_voted_for := v\<rparr>) = Inr (st'\<lparr>ps_current_term := T, ps_voted_for := v\<rparr>)"
  using assms
proof (induction us st rule: replay_updates.induct)
  case (2 i es us st)
  obtain s where s: "apply_log_update rs_corruption i es st = Inr s" "replay_updates us s = Inr st'"
    using "2.prems"(1) by (auto simp: bindE_eq_Inr)
  then show ?case
    using "2.IH" [of s] apply_log_update_hard [OF s(1) "2.prems"(2)] apply_log_update_keeps [OF s(1)] "2.prems"(2) by simp
qed simp

lemma journal_holds_hard:
  assumes "journal_holds req us st" and "ps_current_term st \<le> T"
  shows "journal_holds req us (st\<lparr>ps_current_term := T, ps_voted_for := v\<rparr>)"
proof -
  obtain r where r: "replay_updates us (st\<lparr>ps_log := [], ps_snapshot := stub req\<rparr>) = Inr r" "ps_snapshot r = stub req"
      "covers r st" "boundary_ok req" "updates_ok us"
    using assms(1) by (auto simp: journal_holds_def)
  have "covers (r\<lparr>ps_current_term := T, ps_voted_for := v\<rparr>) (st\<lparr>ps_current_term := T, ps_voted_for := v\<rparr>)"
    using r(3) by (simp add: covers_def Let_def)
  moreover have eq: "st\<lparr>ps_current_term := T, ps_voted_for := v, ps_log := [], ps_snapshot := stub req\<rparr> =
      st\<lparr>ps_log := [], ps_snapshot := stub req, ps_current_term := T, ps_voted_for := v\<rparr>" by (cases st) simp
  have "replay_updates us (st\<lparr>ps_current_term := T, ps_voted_for := v, ps_log := [], ps_snapshot := stub req\<rparr>) =
      Inr (r\<lparr>ps_current_term := T, ps_voted_for := v\<rparr>)"
    unfolding eq by (rule replay_updates_hard [OF r(1)]) (simp add: assms(2))
  ultimately show ?thesis
    using r(2,4,5) unfolding journal_holds_def
    by (intro conjI exI [of _ "r\<lparr>ps_current_term := T, ps_voted_for := v\<rparr>"]) simp_all
qed

section \<open>Snapshots\<close>

text \<open>The log has the entry at the snapshot's index, with the snapshot's term.\<close>

definition holds_boundary :: "StateMachineSnapshot \<Rightarrow> RaftPersistentState \<Rightarrow> bool" where
  "holds_boundary snap st \<longleftrightarrow> s_index snap \<le> snapshot_index (ps_snapshot st) + length (ps_log st) \<and>
     e_term (ps_log st ! (s_index snap - snapshot_index (ps_snapshot st) - 1)) = s_term snap"

lemma suffix_after_retained:
  "ps_ok st \<Longrightarrow> suffix_after snap st = retained_log snap st"
  by (simp add: suffix_after_def retained_log_def add64_def u64_max_def ps_ok_def Let_def)

lemma ps_ok_snapshot:
  assumes "ps_ok st" and "snapshot_valid snap" and "s_term snap \<le> ps_current_term st"
    and "snapshot_index (ps_snapshot st) < s_index snap"
  shows "ps_ok (persist (PersistSnapshot snap) st)"
proof -
  let ?B = "snapshot_index (ps_snapshot st)" and ?L = "ps_log st"
  note s = assms(1) [unfolded ps_ok_def]
  have "entries_follow (ps_current_term st) (s_index snap) (s_term snap) (retained_log snap st) \<and>
      s_index snap + length (retained_log snap st) < u64_max"
  proof (cases "holds_boundary snap st \<and> s_index snap < ?B + length ?L")
    case True
    then have "s_index snap - ?B < length ?L" using assms(4) by linarith
    then have "entries_follow (ps_current_term st) (?B + (s_index snap - ?B)) (e_term (?L ! (s_index snap - ?B - 1))) (drop (s_index snap - ?B) ?L)"
      using entries_follow_drop(1) [of "ps_current_term st" ?B "snapshot_term (ps_snapshot st)" ?L "s_index snap - ?B"] s assms(4)
      by simp
    then show ?thesis using True s assms(4) by (simp add: retained_log_def holds_boundary_def)
  next
    case False
    then have "retained_log snap st = []" by (auto simp: retained_log_def holds_boundary_def Let_def)
    then show ?thesis using assms(2) by (simp add: snapshot_valid_def)
  qed
  moreover have "set (retained_log snap st) \<subseteq> set ?L"
    by (auto simp: retained_log_def Let_def dest: in_set_dropD)
  ultimately show ?thesis using s assms(2,3) by (auto simp: ps_ok_def snapshot_index_def snapshot_term_def)
qed

text \<open>The old journal still holds the new state when it holds the boundary.\<close>

lemma journal_holds_snapshot:
  assumes "journal_holds req us st" and "snapshot_index (ps_snapshot st) < s_index snap" and "holds_boundary snap st"
  shows "journal_holds req us (persist (PersistSnapshot snap) st)"
proof -
  obtain r where r: "replay_updates us (st\<lparr>ps_log := [], ps_snapshot := stub req\<rparr>) = Inr r" "ps_snapshot r = stub req"
      "covers r st" "boundary_ok req" "updates_ok us"
    using assms(1) by (auto simp: journal_holds_def)
  let ?R = "snapshot_index (ps_snapshot r)" and ?B = "snapshot_index (ps_snapshot st)" and ?L = "ps_log r"
  have c: "?R \<le> ?B" "?R + length ?L < u64_max" "?B \<le> ?R + length ?L" "ps_log st = drop (?B - ?R) ?L"
      "ps_current_term r = ps_current_term st" "ps_voted_for r = ps_voted_for st"
    using r(3) by (simp_all add: covers_def Let_def)
  have k: "?B - ?R + (s_index snap - ?B - 1) = s_index snap - ?R - 1" "?B - ?R + (s_index snap - ?B) = s_index snap - ?R"
    using c(1) assms(2) by simp_all
  have b: "s_index snap \<le> ?R + length ?L" "e_term (?L ! (s_index snap - ?R - 1)) = s_term snap"
    using assms(3) c(1,3) k(1) by (simp_all add: holds_boundary_def c(4))
  have "retained_log snap st = drop (s_index snap - ?R) ?L"
    using assms(3) k(2) by (simp add: retained_log_def holds_boundary_def c(4) add.commute)
  then have "covers r (persist (PersistSnapshot snap) st)"
    using c b assms(2) by (simp add: covers_def snapshot_index_def [of "Some snap"] snapshot_term_def [of "Some snap"])
  moreover have "persist (PersistSnapshot snap) st\<lparr>ps_log := [], ps_snapshot := stub req\<rparr> = st\<lparr>ps_log := [], ps_snapshot := stub req\<rparr>"
    by (cases st) simp
  ultimately show ?thesis using r unfolding journal_holds_def by metis
qed

lemma plain_fits: "entry_plain e \<Longrightarrow> kLogRecordHeaderSize + log_entry_size e \<le> kMaxRaftLogRecordSize"
  by (simp add: entry_plain_def log_entry_size_def kLogRecordHeaderSize_def kLogEntryHeaderSize_def kMaxRaftLogRecordSize_def
      kMaxRaftCommandSize_def frame_constants)

text \<open>A batch fits one record.\<close>

lemma batch_size_fits:
  assumes "\<forall>e \<in> set es. entry_plain e" and "sz \<le> kMaxRaftLogRecordSize" and "c = 0 \<Longrightarrow> sz = kLogRecordHeaderSize"
    and "c \<le> kMaxRaftLogEntriesPerRecord" and "b = batch_size c sz es"
  shows "b \<le> kMaxRaftLogEntriesPerRecord \<and> sz + (\<Sum>e \<leftarrow> take (b - c) es. log_entry_size e) \<le> kMaxRaftLogRecordSize"
  using assms
proof (induction c sz es rule: batch_size.induct)
  case (2 c sz e es)
  show ?case
  proof (cases "c \<ge> kMaxRaftLogEntriesPerRecord \<or> c \<noteq> 0 \<and> log_entry_size e > kMaxRaftLogRecordSize - sz")
    case False
    then have le: "sz + log_entry_size e \<le> kMaxRaftLogRecordSize"
      using "2.prems"(1-3) plain_fits [of e] by (cases "c = 0") auto
    have b: "b = batch_size (Suc c) (sz + log_entry_size e) es" using False "2.prems"(5) by auto
    have "b \<le> kMaxRaftLogEntriesPerRecord \<and> sz + log_entry_size e + (\<Sum>e \<leftarrow> take (b - Suc c) es. log_entry_size e) \<le> kMaxRaftLogRecordSize"
      using False "2.prems"(1) le b by (intro "2.IH") auto
    moreover have "Suc c \<le> b" unfolding b by (rule batch_size_ge)
    then have "b - c = Suc (b - Suc c)" by simp
    ultimately show ?thesis by simp
  qed (use "2.prems" in auto)
qed simp

lemma suffix_records_updates:
  assumes "entries_follow (ps_current_term st) (snapshot_index (ps_snapshot st)) (snapshot_term (ps_snapshot st)) (held @ suffix)"
    and "\<forall>e \<in> set suffix. entry_plain e" and "snapshot_index (ps_snapshot st) + length (held @ suffix) < u64_max"
    and "ps_current_term st \<le> u64_max" and "i = Suc (snapshot_index (ps_snapshot st) + length held)"
  shows "\<exists>us. suffix_records i suffix = updates_bytes us \<and> updates_ok us \<and> concat (map snd us) = suffix \<and> [] \<notin> snd ` set us \<and>
    replay_updates us (st\<lparr>ps_log := held\<rparr>) = Inr (st\<lparr>ps_log := held @ suffix\<rparr>)"
  using assms
proof (induction i suffix arbitrary: held rule: suffix_records.induct)
  case (1 i suffix)
  show ?case
  proof (cases "suffix = []")
    case False
    define b where "b = batch_size 0 kLogRecordHeaderSize suffix"
    let ?B = "snapshot_index (ps_snapshot st)" and ?T = "ps_current_term st" and ?es = "take b suffix"
    have fits: "b \<le> kMaxRaftLogEntriesPerRecord" "update_size ?es \<le> kMaxRaftLogRecordSize" "length ?es \<le> kMaxRaftLogEntriesPerRecord"
      using batch_size_fits [OF "1.prems"(2), of kLogRecordHeaderSize 0 b]
      by (auto simp: b_def kLogRecordHeaderSize_def kMaxRaftLogRecordSize_def update_size_def)
    have pl: "\<forall>e \<in> set ?es. entry_plain e" "\<forall>e \<in> set (drop b suffix). entry_plain e"
      using "1.prems"(2) by (auto dest: in_set_takeD in_set_dropD)
    have tb: "term_before (st\<lparr>ps_log := held\<rparr>) i = (if held = [] then snapshot_term (ps_snapshot st) else e_term (last held))"
      by (auto simp: term_before_def "1.prems"(5) last_conv_nth)
    have "entries_follow ?T (?B + length held) (if held = [] then snapshot_term (ps_snapshot st) else e_term (last held)) suffix"
      using "1.prems"(1) unfolding entries_follow_append by simp
    then have ef: "entries_follow ?T (i - 1) (term_before (st\<lparr>ps_log := held\<rparr>) i) ?es"
      unfolding tb using entries_follow_take "1.prems"(5) by simp
    have len: "i + length ?es \<le> u64_max" using "1.prems"(3,5) by simp
    have ap: "apply_log_update rs_corruption i ?es (st\<lparr>ps_log := held\<rparr>) = Inr (st\<lparr>ps_log := held @ ?es\<rparr>)"
      using "1.prems"(3,5) fits pl(1) ef len False
      by (subst apply_log_update_iff) (auto simp: b_def batch_size_pos)
    have ok: "update_ok i ?es"
      using accepted_update_ok [OF pl(1) ef] "1.prems"(3-5) fits by simp
    have enc: "encode_log_update i ?es = update_bytes i ?es"
      using ok by (intro encode_log_update_layout) (simp add: update_ok_def)
    obtain us where us: "suffix_records (add64 i b) (drop b suffix) = updates_bytes us" "updates_ok us"
        "concat (map snd us) = drop b suffix" "[] \<notin> snd ` set us" "replay_updates us (st\<lparr>ps_log := held @ ?es\<rparr>) = Inr (st\<lparr>ps_log := (held @ ?es) @ drop b suffix\<rparr>)"
    proof (cases "b < length suffix")
      case True
      then have "add64 i b = Suc (?B + length (held @ ?es))"
        using "1.prems"(3,5) by (simp add: add64_def u64_max_def)
      then have "\<exists>us. suffix_records (add64 i b) (drop b suffix) = updates_bytes us \<and> updates_ok us \<and>
          concat (map snd us) = drop b suffix \<and> [] \<notin> snd ` set us \<and>
          replay_updates us (st\<lparr>ps_log := held @ ?es\<rparr>) = Inr (st\<lparr>ps_log := (held @ ?es) @ drop b suffix\<rparr>)"
        using "1.prems" pl(2) by (intro "1.IH" [OF False b_def]) simp_all
      then show ?thesis using that by blast
    qed (use that [of "[]"] in \<open>simp add: suffix_records.simps\<close>)
    have "suffix_records i suffix = updates_bytes ((i, ?es) # us)"
      using False enc us(1) by (subst suffix_records.simps) (simp add: b_def Let_def)
    moreover have "?es \<noteq> []" using False batch_size_pos [OF False] by (simp add: b_def)
    ultimately show ?thesis using us(2-5) ok ap by (intro exI [of _ "(i, ?es) # us"]) simp
  qed (use replay_updates.simps(1) in \<open>auto simp: suffix_records.simps intro!: exI [of _ "[]"]\<close>)
qed

lemma new_journal_holds:
  assumes "ps_ok st" and "ps_snapshot st = Some snap"
  shows "\<exists>us. suffix_records (add64 (s_index snap) 1) (ps_log st) = updates_bytes us \<and> journal_holds (Some snap) us st \<and>
    concat (map snd us) = ps_log st \<and> [] \<notin> snd ` set us"
proof -
  let ?st = "st\<lparr>ps_snapshot := stub (Some snap)\<rparr>"
  note s = assms(1) [unfolded ps_ok_def]
  have sn: "snapshot_valid snap" using s assms(2) by simp
  have "add64 (s_index snap) 1 = Suc (snapshot_index (ps_snapshot ?st) + length ([] :: LogEntry list))"
    using sn by (simp add: add64_def u64_max_def snapshot_valid_def snapshot_index_def stub_def)
  then obtain us where us: "suffix_records (add64 (s_index snap) 1) (ps_log st) = updates_bytes us" "updates_ok us"
      "concat (map snd us) = ps_log st" "[] \<notin> snd ` set us" "replay_updates us (?st\<lparr>ps_log := []\<rparr>) = Inr (?st\<lparr>ps_log := ps_log st\<rparr>)"
    using suffix_records_updates [of ?st "[]" "ps_log st"] s assms(2) by auto
  have "covers (?st\<lparr>ps_log := ps_log st\<rparr>) st"
    using s assms(2) by (simp add: covers_def snapshot_index_def snapshot_term_def stub_def)
  moreover have eq: "st\<lparr>ps_log := [], ps_snapshot := stub (Some snap)\<rparr> = ?st\<lparr>ps_log := []\<rparr>" by (cases st) simp
  moreover have "boundary_ok (Some snap)" using sn by (simp add: boundary_ok_def snapshot_valid_def)
  ultimately have "journal_holds (Some snap) us st"
    using us(2,5) unfolding journal_holds_def eq by (intro conjI exI [of _ "?st\<lparr>ps_log := ps_log st\<rparr>"]) simp_all
  then show ?thesis using us(1,3,4) by blast
qed

end
