(* ===== verification/Raft_Store.thy ===== *)
theory Raft_Store
  imports Raft_Journal
begin

text \<open>
  Crash safety of the Raft store on a disk: what the data directory of an open store holds, that a restart
  recovers exactly that, that every update is atomic and durable, how snapshots are installed and where a
  crash then is not recoverable, and that the very first start can be interrupted anywhere.
\<close>

section \<open>What the directory of a store holds\<close>

definition slot :: "nat \<Rightarrow> FileName" where
  "slot generation = (if generation mod 2 = 1 then hard_state_A else hard_state_B)"

definition hard_of :: "nat \<Rightarrow> RaftPersistentState \<Rightarrow> HardRecord" where
  "hard_of generation st = \<lparr>hr_generation = generation, hr_term = ps_current_term st, hr_voted_for = ps_voted_for st\<rparr>"

definition slots_hold :: "StoreIds \<Rightarrow> nat \<Rightarrow> RaftPersistentState \<Rightarrow> directory \<Rightarrow> bool" where
  "slots_hold ids generation st dir \<longleftrightarrow> generation \<le> u64_max \<and>
     (\<exists>older. hard_ok older \<and> generation = Suc (hr_generation older) \<and>
       dir (slot (hr_generation older)) = Some (encode_hard_state ids older)) \<and>
     dir (slot generation) = Some (encode_hard_state ids (hard_of generation st))"

definition ids_valid :: "StoreIds \<Rightarrow> bool" where
  "ids_valid ids \<longleftrightarrow> ids_ok ids \<and> si_cluster_id ids \<noteq> 0 \<and> si_node_id ids \<noteq> 0"

text \<open>The directory holds the state \<open>st\<close>; \<open>tail\<close> is what an interrupted append left in the journal.\<close>

definition stored :: "StoreIds \<Rightarrow> nat \<Rightarrow> bytes \<Rightarrow> RaftPersistentState \<Rightarrow> directory \<Rightarrow> bool" where
  "stored ids generation tail st dir \<longleftrightarrow> ids_valid ids \<and> ps_ok st \<and> torn tail \<and>
     dir IDENTITY_file = Some (encode_identity ids) \<and> slots_hold ids generation st dir \<and>
     dir raft_snapshot = map_option (snapshot_file ids) (ps_snapshot st) \<and>
     (\<exists>req us. journal_holds req us st \<and>
       dir raft_log = Some (encode_log_header ids req @ updates_bytes us @ tail))"

definition opened :: "StoreIds \<Rightarrow> nat \<Rightarrow> RaftPersistentState \<Rightarrow> RaftStorage" where
  "opened ids generation st = \<lparr>st_ids = ids, st_log_open = True, st_pending_kind = pk_none, st_pending_final_path = None,
     st_hard_generation = generation, st_state = st, st_pending_state = empty_state\<rparr>"

section \<open>Opening a store\<close>

lemma hard_of_ok: "ps_ok st \<Longrightarrow> 0 < g \<Longrightarrow> g \<le> u64_max \<Longrightarrow> hard_ok (hard_of g st)"
  by (auto simp: ps_ok_def hard_ok_def hard_of_def)

lemma read_slot:
  "ids_ok ids \<Longrightarrow> hard_ok r \<Longrightarrow> read_hard_slot ids (Some (encode_hard_state ids r)) = Some r"
  using decode_encode_hard [of ids r] by (simp add: read_hard_slot_def hard_state_layout hard_prefix_def kHardStateSize_def)

lemma slots_selected:
  assumes "ids_ok ids" and "ps_ok st" and "slots_hold ids g st dir"
  shows "dir hard_state_A \<noteq> None" and "dir hard_state_B \<noteq> None"
    and "select_hard_state (dir hard_state_A) (dir hard_state_B) (read_hard_slot ids (dir hard_state_A))
      (read_hard_slot ids (dir hard_state_B)) = Inr (hard_of g st)"
proof -
  obtain old where o: "hard_ok old" "g = Suc (hr_generation old)" "g \<le> u64_max"
      "dir (slot (hr_generation old)) = Some (encode_hard_state ids old)"
      "dir (slot g) = Some (encode_hard_state ids (hard_of g st))"
    using assms(3) by (auto simp: slots_hold_def)
  have new: "hard_ok (hard_of g st)" using o by (intro hard_of_ok assms(2)) auto
  note rd = read_slot [OF assms(1) o(1)] read_slot [OF assms(1) new]
  have gen: "hr_generation (hard_of g st) = g" by (simp add: hard_of_def)
  have "dir hard_state_A \<noteq> None \<and> dir hard_state_B \<noteq> None \<and>
      select_hard_state (dir hard_state_A) (dir hard_state_B) (read_hard_slot ids (dir hard_state_A))
      (read_hard_slot ids (dir hard_state_B)) = Inr (hard_of g st)"
  proof (cases "hr_generation old mod 2 = 1")
    case True
    then have "g mod 2 = 0" using o(2) by presburger
    then show ?thesis using True o(2,4,5) rd gen by (simp add: slot_def select_hard_state_def)
  next
    case False
    then have "hr_generation old mod 2 = 0" "g mod 2 = 1" using o(2) by presburger+
    then show ?thesis using o(2,4,5) rd gen by (simp add: slot_def select_hard_state_def)
  qed
  then show "dir hard_state_A \<noteq> None" "dir hard_state_B \<noteq> None"
    "select_hard_state (dir hard_state_A) (dir hard_state_B) (read_hard_slot ids (dir hard_state_A))
      (read_hard_slot ids (dir hard_state_B)) = Inr (hard_of g st)" by simp_all
qed

text \<open>The part of \<open>storage_open\<close> that an initialised store goes through.\<close>

lemma load_published:
  "ids_ok ids \<Longrightarrow> (\<And>s. snap = Some s \<Longrightarrow> snapshot_valid s) \<Longrightarrow> load_snapshot ids (map_option (snapshot_file ids) snap) = Inr snap"
  using load_snapshot_file [of ids] by (cases snap) (auto simp: load_snapshot_def)

lemma open_initialised:
  assumes "ids_valid ids" and "ps_ok st" and "slots_hold ids g st dir" and "dir IDENTITY_file = Some (encode_identity ids)"
    and "dir raft_snapshot = map_option (snapshot_file ids) snap" and "\<forall>s. snap = Some s \<longrightarrow> snapshot_valid s \<and> s_term s \<le> ps_current_term st"
    and "dir raft_log = Some journal"
    and "recover_log ids journal \<lparr>ps_current_term = ps_current_term st, ps_voted_for = ps_voted_for st, ps_snapshot = snap, ps_log = []\<rparr> = (ops, r)"
  shows "storage_open ids dir = (case r of Inl e \<Rightarrow> (ops, Inl e) | Inr st' \<Rightarrow> (ops @ [Sync_log, Sync_directory], Inr (opened ids g st')))"
proof -
  have i: "ids_ok ids" "si_cluster_id ids \<noteq> 0" "si_node_id ids \<noteq> 0" using assms(1) by (simp_all add: ids_valid_def)
  note sl = slots_selected [OF i(1) assms(2,3)]
  have id: "read_and_verify_identity ids (encode_identity ids) = Inr ()"
    using verify_encode_identity [OF i(1)] by (simp add: read_and_verify_identity_def identity_layout identity_prefix_def kIdentitySize_def)
  have ld: "load_snapshot ids (dir raft_snapshot) = Inr snap"
    unfolding assms(5) using assms(6) by (intro load_published i(1)) blast
  have t: "snapshot_term snap \<le> ps_current_term st"
    using assms(6) by (cases snap) (auto simp: snapshot_term_def)
  have h: "hr_term (hard_of g st) = ps_current_term st" "hr_voted_for (hard_of g st) = ps_voted_for st"
      "hr_generation (hard_of g st) = g" by (simp_all add: hard_of_def)
  show ?thesis
    unfolding storage_open_def Let_def
    using i(2,3) sl id ld t by (cases r) (simp_all add: assms(4,7,8) h opened_def)
qed

lemma publish_steps:
  assumes "stored ids g tail st dir" and "snapshot_valid snap" and "snapshot_index (ps_snapshot st) < s_index snap"
  shows "write_snapshot_atomic ids snap dir = (create_file raft_snapshot (snapshot_file ids snap), Inr ())"
proof -
  have "load_snapshot ids (dir raft_snapshot) = Inr (ps_snapshot st)"
    using assms(1) load_published [of ids "ps_snapshot st"] by (simp add: stored_def ps_ok_def ids_valid_def)
  then show ?thesis
    using assms(2,3) by (cases "ps_snapshot st")
      (auto simp: write_snapshot_atomic_def snapshot_valid_def snapshot_index_def snapshot_file_def emit_def)
qed

text \<open>Opening returns the stored state, after cutting off what an interrupted append left.\<close>

definition open_steps :: "bytes \<Rightarrow> nat \<Rightarrow> DiskOp list" where
  "open_steps tail n = (if tail = [] then [] else [Truncate_log n, Sync_log]) @ [Sync_log, Sync_directory]"

lemma open_stored:
  assumes "stored ids g tail st dir"
  shows "\<exists>bs. dir raft_log = Some (bs @ tail) \<and>
    storage_open ids dir = (open_steps tail (length bs), Inr (opened ids g st))"
proof -
  obtain req us where s: "ids_valid ids" "ps_ok st" "torn tail" "dir IDENTITY_file = Some (encode_identity ids)"
      "slots_hold ids g st dir" "dir raft_snapshot = map_option (snapshot_file ids) (ps_snapshot st)"
      "journal_holds req us st" "dir raft_log = Some (encode_log_header ids req @ updates_bytes us @ tail)"
    using assms by (auto simp: stored_def)
  let ?n = "length (encode_log_header ids req @ updates_bytes us)"
  have rec: "recover_log ids (encode_log_header ids req @ updates_bytes us @ tail)
      \<lparr>ps_current_term = ps_current_term st, ps_voted_for = ps_voted_for st, ps_snapshot = ps_snapshot st, ps_log = []\<rparr> =
      (if tail = [] then [] else [Truncate_log ?n, Sync_log], Inr st)"
    using recover_log_holds [OF _ s(2,7,3)] s(1) by (cases st) (simp add: ids_valid_def)
  have "\<forall>x. ps_snapshot st = Some x \<longrightarrow> snapshot_valid x \<and> s_term x \<le> ps_current_term st"
    using s(2) by (simp add: ps_ok_def)
  from open_initialised [OF s(1,2,5,4,6) this s(8) rec] s(8) show ?thesis
    by (intro exI [of _ "encode_log_header ids req @ updates_bytes us"]) (simp add: open_steps_def)
qed

section \<open>Stores on a disk\<close>

lemma settled_open:
  assumes "settled dk" and "contents dk raft_log = Some (bs @ tail)"
  shows "settled (disk_steps (open_steps tail (length bs)) dk)"
    and "contents (disk_steps (open_steps tail (length bs)) dk) = (contents dk)(raft_log := Some bs)"
  using assms(1) by (simp_all add: settled_def contents_def open_steps_def contents_eq [OF assms] fun_eq_iff)

lemma crash_open:
  assumes "settled dk" and "contents dk raft_log = Some (bs @ tail)" and "crash_leaves (open_steps tail (length bs)) dk g"
  shows "g = contents dk \<or> g = (contents dk)(raft_log := Some bs)"
proof -
  note o = contents_eq [OF assms(1,2)]
  have se: "disk_steps [Sync_log] dk = dk" "disk_steps [Sync_log, Sync_directory] dk = dk"
    using assms(1) o by (cases dk; auto simp: settled_def fun_upd_idem)+
  obtain k where k: "survives (disk_steps (take k (open_steps tail (length bs))) dk) g" using assms(3) by (auto simp: crash_leaves_def)
  show ?thesis
  proof (cases "tail = []")
    case True
    have "k = 0 \<or> k = 1 \<or> k \<ge> 2" by linarith
    then have "disk_steps (take k (open_steps tail (length bs))) dk = dk" using True se by (auto simp: open_steps_def)
    then show ?thesis using k settled_survives [OF assms(1)] by simp
  next
    case False
    let ?d = "dk\<lparr>dk_files := (dk_files dk)(raft_log := Some (bs, length bs)), dk_untruncated := None\<rparr>"
    consider "k = 0" | "k = 1" | "k \<ge> 2" by linarith
    then show ?thesis
    proof cases
      case 2
      then have "survives (dk\<lparr>dk_files := (dk_files dk)(raft_log := Some (bs, length bs)), dk_untruncated := Some (bs @ tail, length (bs @ tail))\<rparr>) g"
        using k o False by (simp add: open_steps_def)
      then show ?thesis using survives_log [OF assms(1)] assms(2) by (fastforce simp: fun_upd_idem simp del: length_append)
    next
      case 3
      then have "k = 2 \<or> k = 3 \<or> k \<ge> 4" by linarith
      then have "disk_steps (take k (open_steps tail (length bs))) dk = ?d"
        using False o assms(1) by (cases dk) (auto simp: open_steps_def settled_def)
      then show ?thesis using k survives_log [OF assms(1), of None "Some (bs, length bs)" g] by auto
    qed (use k settled_survives [OF assms(1)] in simp)
  qed
qed

definition recoverable :: "StoreIds \<Rightarrow> RaftPersistentState \<Rightarrow> directory \<Rightarrow> bool" where
  "recoverable ids st dir \<longleftrightarrow> (\<exists>generation tail. stored ids generation tail st dir)"

text \<open>An open store, all of whose state is on disk.\<close>

definition store_at :: "Disk \<Rightarrow> RaftStorage \<Rightarrow> bool" where
  "store_at dk s \<longleftrightarrow> settled dk \<and>
     (\<exists>generation. s = opened (st_ids s) generation (st_state s) \<and>
        stored (st_ids s) generation [] (st_state s) (contents dk))"

text \<open>The steps \<open>ops\<close> take the store from \<open>s\<close> to \<open>s'\<close>, and a crash among them leaves one or the other state.\<close>

definition durably :: "Disk \<Rightarrow> DiskOp list \<Rightarrow> RaftStorage \<Rightarrow> RaftStorage \<Rightarrow> bool" where
  "durably dk ops s s' \<longleftrightarrow> st_ids s' = st_ids s \<and> store_at (disk_steps ops dk) s' \<and>
     (\<forall>g. crash_leaves ops dk g \<longrightarrow> recoverable (st_ids s) (st_state s) g \<or> recoverable (st_ids s) (st_state s') g)"

lemma opened_simps [simp]:
  "st_ids (opened ids g st) = ids" "st_state (opened ids g st) = st" "st_log_open (opened ids g st)"
  "st_pending_kind (opened ids g st) = pk_none" "st_hard_generation (opened ids g st) = g"
  by (simp_all add: opened_def)

lemma store_atI: "settled dk \<Longrightarrow> stored ids g [] st (contents dk) \<Longrightarrow> store_at dk (opened ids g st)"
  by (auto simp: store_at_def)

lemma store_atE:
  assumes "store_at dk s"
  obtains ids g st where "s = opened ids g st" "settled dk" "stored ids g [] st (contents dk)"
  using assms by (auto simp: store_at_def)



section \<open>Every update is atomic and durable\<close>

lemma hard_state_steps:
  assumes "\<not> (t < ps_current_term st \<or> t = 0 \<and> v \<noteq> None \<or> v = Some 0 \<or>
      t = ps_current_term st \<and> ps_voted_for st \<noteq> None \<and> v \<noteq> ps_voted_for st)"
    and "\<not> list_ex (\<lambda>e. e_term e > t) (ps_log st)" and "g < u64_max"
  shows "bindA (prepare_hard_state t v (opened ids g st)) storage_sync =
    (create_file (slot (Suc g)) (encode_hard_state ids (hard_of (Suc g) (st\<lparr>ps_current_term := t, ps_voted_for := v\<rparr>))),
     Inr (opened ids (Suc g) (st\<lparr>ps_current_term := t, ps_voted_for := v\<rparr>)))"
  using assms
  by (auto simp: prepare_hard_state_def storage_sync_def create_file_def slot_def hard_of_def opened_def emit_def
      add64_def u64_max_def)

lemma store_hard_state:
  assumes "store_at dk s" and "bindA (prepare_hard_state t v s) storage_sync = (ops, Inr s')"
    and "t \<le> u64_max" and "\<forall>x. v = Some x \<longrightarrow> x \<le> u64_max"
  shows "durably dk ops s s'" and "st_state s' = persist (PersistHardState t v) (st_state s)"
proof -
  obtain ids g st where s: "s = opened ids g st" "settled dk" "stored ids g [] st (contents dk)" by (rule store_atE [OF assms(1)])
  let ?st = "st\<lparr>ps_current_term := t, ps_voted_for := v\<rparr>"
  have ok: "\<not> (t < ps_current_term st \<or> t = 0 \<and> v \<noteq> None \<or> v = Some 0 \<or>
      t = ps_current_term st \<and> ps_voted_for st \<noteq> None \<and> v \<noteq> ps_voted_for st)"
      "\<not> list_ex (\<lambda>e. e_term e > t) (ps_log st)" "g \<noteq> u64_max"
    using assms(2) by (auto simp: s(1) prepare_hard_state_def bindA_eq_Inr split: if_split_asm)
  obtain req us old where d: "ps_ok st" "ids_valid ids" "contents dk IDENTITY_file = Some (encode_identity ids)"
      "contents dk raft_snapshot = map_option (snapshot_file ids) (ps_snapshot st)" "journal_holds req us st"
      "contents dk raft_log = Some (encode_log_header ids req @ updates_bytes us)" "g \<le> u64_max" "0 < g"
      "contents dk (slot g) = Some (encode_hard_state ids (hard_of g st))" "torn []"
    using s(3) by (auto simp: stored_def slots_hold_def)
  have g: "Suc g \<le> u64_max" using ok(3) d(7) by simp
  have ops: "ops = create_file (slot (Suc g)) (encode_hard_state ids (hard_of (Suc g) ?st))"
    and s': "s' = opened ids (Suc g) ?st"
    using assms(2) hard_state_steps [OF ok(1,2), of g ids] g by (simp_all add: s(1))
  have tm: "ps_current_term st \<le> t" using ok(1) by simp
  have "ps_ok ?st"
    using d(1) ok(1) assms(3,4) tm entries_follow_mono [of "ps_current_term st" _ _ "ps_log st" t]
    by (fastforce simp: ps_ok_def)
  moreover have "journal_holds req us ?st" by (rule journal_holds_hard [OF d(5) tm])
  moreover have "slots_hold ids (Suc g) ?st ((contents dk)(slot (Suc g) := Some (encode_hard_state ids (hard_of (Suc g) ?st))))"
    using g d(1,9) hard_of_ok [OF d(1,8,7)] by (auto simp: slots_hold_def slot_def hard_of_def mod_Suc intro!: exI [of _ "hard_of g st"])
  ultimately have new: "stored ids (Suc g) [] ?st ((contents dk)(slot (Suc g) := Some (encode_hard_state ids (hard_of (Suc g) ?st))))"
    using d by (auto simp: stored_def slot_def)
  have "store_at (disk_steps ops dk) s'"
    using settled_create [OF s(2)] new by (simp add: ops s' store_atI)
  moreover have "recoverable ids st h \<or> recoverable ids ?st h" if "crash_leaves ops dk h" for h
    using crash_create [OF s(2) that [unfolded ops]] s(3) new by (auto simp: recoverable_def)
  ultimately show "durably dk ops s s'" by (simp add: durably_def s(1) s')
  show "st_state s' = persist (PersistHardState t v) (st_state s)" by (simp add: s(1) s')
qed

lemma store_log:
  assumes "store_at dk s" and "bindA (prepare_log i es s) storage_sync = (ops, Inr s')"
    and "es = [] \<or> snapshot_index (ps_snapshot (st_state s)) < i \<and> i + length es \<le> u64_max"
  shows "durably dk ops s s'" and "st_state s' = persist (PersistLog i es) (st_state s)"
proof -
  obtain ids g st where s: "s = opened ids g st" "settled dk" "stored ids g [] st (contents dk)" by (rule store_atE [OF assms(1)])
  obtain st' where a: "apply_log_update rs_invalid_update i es st = Inr st'"
    using assms(2) by (auto simp: s(1) prepare_log_def bindA_eq_Inr bindA_lift_eq)
  obtain req us where d: "ps_ok st" "ids_valid ids" "contents dk IDENTITY_file = Some (encode_identity ids)"
      "contents dk raft_snapshot = map_option (snapshot_file ids) (ps_snapshot st)" "journal_holds req us st"
      "contents dk raft_log = Some (encode_log_header ids req @ updates_bytes us)" "slots_hold ids g st (contents dk)"
    using s(3) by (auto simp: stored_def)
  have j: "journal_holds req (us @ [(i, es)]) st'" "ps_ok st'" "update_ok i es" "st' = persist (PersistLog i es) st"
    using journal_holds_update [OF d(5,1) _ _ a] journal_holds_empty [OF d(5,1), of rs_invalid_update i st'] d(1) assms(3) a
    by (auto simp: s(1))
  have enc: "encode_log_update i es = update_bytes i es"
    using j(3) by (intro encode_log_update_layout) (simp add: update_ok_def)
  have ops: "ops = [Append_log (update_bytes i es), Sync_log]" and s': "s' = opened ids g st'"
    using assms(2) a enc by (auto simp: s(1) prepare_log_def storage_sync_def opened_def emit_def)
  let ?old = "encode_log_header ids req @ updates_bytes us"
  have keep: "ps_snapshot st' = ps_snapshot st" "hard_of g st' = hard_of g st"
    using apply_log_update_keeps [OF a] by (simp_all add: hard_of_def)
  have new: "stored ids g [] st' ((contents dk)(raft_log := Some (?old @ update_bytes i es)))"
    using d j(1,2) keep by (auto simp: stored_def slots_hold_def slot_def torn_def intro!: exI [of _ req] exI [of _ "us @ [(i, es)]"])
  have cut: "stored ids g (take k (update_bytes i es)) st ((contents dk)(raft_log := Some (?old @ take k (update_bytes i es))))"
    if "k < length (update_bytes i es)" for k
    using d j(3) that length_update_bytes [OF j(3)]
    by (auto simp: stored_def slots_hold_def slot_def torn_def intro!: exI [of _ req] exI [of _ us])
  have "store_at (disk_steps ops dk) s'"
    using settled_append [OF s(2) d(6)] new by (simp add: ops s' store_atI del: fold_simps)
  moreover have "recoverable ids st h \<or> recoverable ids st' h" if c: "crash_leaves ops dk h" for h
  proof -
    obtain k where k: "k \<le> length (update_bytes i es)" "h = (contents dk)(raft_log := Some (?old @ take k (update_bytes i es)))"
      using crash_log_append [OF s(2) d(6) c [unfolded ops]] by blast
    then show ?thesis using new cut [of k] by (cases "k = length (update_bytes i es)") (auto simp: recoverable_def)
  qed
  ultimately show "durably dk ops s s'" by (simp add: durably_def s(1) s')
  show "st_state s' = persist (PersistLog i es) (st_state s)" by (simp add: s(1) s' j(4))
qed

section \<open>Snapshots on a disk\<close>

lemma install_steps:
  assumes "store_at dk s" and "storage_install_snapshot snap False (contents dk) s = (ops, Inr s')" and "s_index snap \<le> u64_max"
  shows "snapshot_valid snap" and "snapshot_index (ps_snapshot (st_state s)) < s_index snap"
    and "s_term snap \<le> ps_current_term (st_state s)"
    and "s' = s\<lparr>st_state := persist (PersistSnapshot snap) (st_state s)\<rparr>"
    and "ops = create_file raft_snapshot (snapshot_file (st_ids s) snap) @
      create_file raft_log (encode_log_header (st_ids s) (Some snap) @
        suffix_records (add64 (s_index snap) 1) (ps_log (persist (PersistSnapshot snap) (st_state s))))"
proof -
  obtain ids g st where s: "s = opened ids g st" "settled dk" "stored ids g [] st (contents dk)" by (rule store_atE [OF assms(1)])
  have ok: "s_index snap \<noteq> u64_max" "\<not> s_index snap \<le> snapshot_index (ps_snapshot st)" "s_term snap \<noteq> 0"
      "s_term snap \<le> ps_current_term st" "length (s_state snap) \<le> kMaxSnapshotPayloadSize"
    using assms(2) by (auto simp: s(1) storage_install_snapshot_def split: if_split_asm)
  have st: "ps_ok st" using s(3) by (simp add: stored_def)
  show v: "snapshot_valid snap" "snapshot_index (ps_snapshot (st_state s)) < s_index snap"
      "s_term snap \<le> ps_current_term (st_state s)"
    using ok st assms(3) by (simp_all add: s(1) snapshot_valid_def ps_ok_def)
  have w: "write_snapshot_atomic ids snap (contents dk) = (create_file raft_snapshot (snapshot_file ids snap), Inr ())"
    using v(2) by (intro publish_steps [OF s(3) v(1)]) (simp add: s(1))
  have "ops = create_file raft_snapshot (snapshot_file ids snap) @ create_file raft_log (encode_log_header ids (Some snap) @
      suffix_records (add64 (s_index snap) 1) (retained_log snap st)) \<and>
      s' = s\<lparr>st_state := st\<lparr>ps_snapshot := Some snap, ps_log := retained_log snap st\<rparr>\<rparr>"
    using assms(2) ok w suffix_after_retained [OF st] by (auto simp: s(1) storage_install_snapshot_def Let_def)
  then show "s' = s\<lparr>st_state := persist (PersistSnapshot snap) (st_state s)\<rparr>"
    "ops = create_file raft_snapshot (snapshot_file (st_ids s) snap) @
      create_file raft_log (encode_log_header (st_ids s) (Some snap) @
        suffix_records (add64 (s_index snap) 1) (ps_log (persist (PersistSnapshot snap) (st_state s))))"
    by (simp_all add: s(1))
qed

lemma install_accepts:
  assumes "store_at dk s" and "snapshot_valid snap" and "snapshot_index (ps_snapshot (st_state s)) < s_index snap"
    and "s_term snap \<le> ps_current_term (st_state s)"
  shows "\<exists>ops s'. storage_install_snapshot snap False (contents dk) s = (ops, Inr s')"
proof -
  obtain ids g st where s: "s = opened ids g st" "settled dk" "stored ids g [] st (contents dk)" by (rule store_atE [OF assms(1)])
  have "write_snapshot_atomic ids snap (contents dk) = (create_file raft_snapshot (snapshot_file ids snap), Inr ())"
    using assms(3) by (intro publish_steps [OF s(3) assms(2)]) (simp add: s(1))
  then show ?thesis
    using assms(2-4) by (auto simp: s(1) storage_install_snapshot_def snapshot_valid_def Let_def)
qed

text \<open>Replacing the journal of a store whose snapshot is published.\<close>

lemma stored_new_journal:
  assumes "ids_valid ids" and "ps_ok st" and "ps_snapshot st = Some snap" and "slots_hold ids g st dir"
    and "dir IDENTITY_file = Some (encode_identity ids)" and "dir raft_snapshot = Some (snapshot_file ids snap)"
  shows "stored ids g [] st (dir(raft_log := Some (encode_log_header ids (Some snap) @ suffix_records (add64 (s_index snap) 1) (ps_log st))))"
  using new_journal_holds [OF assms(2,3)] assms by (auto simp: stored_def slots_hold_def slot_def torn_def)

lemma store_snapshot:
  assumes "store_at dk s" and "storage_install_snapshot snap False (contents dk) s = (ops, Inr s')" and "s_index snap \<le> u64_max"
  shows "store_at (disk_steps ops dk) s'" and "st_ids s' = st_ids s"
    and "st_state s' = persist (PersistSnapshot snap) (st_state s)"
    and "holds_boundary snap (st_state s) \<Longrightarrow> durably dk ops s s'"
proof -
  note i = install_steps [OF assms]
  obtain ids g st where s: "s = opened ids g st" "settled dk" "stored ids g [] st (contents dk)" by (rule store_atE [OF assms(1)])
  let ?st = "persist (PersistSnapshot snap) st" and ?f = "snapshot_file ids snap"
  let ?j = "encode_log_header ids (Some snap) @ suffix_records (add64 (s_index snap) 1) (ps_log ?st)"
  let ?dk = "disk_steps (create_file raft_snapshot ?f) dk"
  have s': "s' = opened ids g ?st" using i(4) by (simp add: s(1) opened_def)
  have ops: "ops = create_file raft_snapshot ?f @ create_file raft_log ?j" using i(5) by (simp add: s(1))
  have ok: "ps_ok ?st"
    using ps_ok_snapshot [OF _ i(1)] i(2,3) s(3) by (simp add: s(1) stored_def)
  have d: "ids_valid ids" "contents dk IDENTITY_file = Some (encode_identity ids)" "slots_hold ids g st (contents dk)"
    using s(3) by (auto simp: stored_def)
  have sl: "slots_hold ids g ?st ((contents dk)(raft_snapshot := Some ?f))"
    using d(3) by (auto simp: slots_hold_def slot_def hard_of_def)
  have new: "stored ids g [] ?st ((contents dk)(raft_snapshot := Some ?f, raft_log := Some ?j))"
    using d(1,2) by (intro stored_new_journal ok sl) auto
  note one = settled_create [OF s(2), of raft_snapshot ?f]
  note two = settled_create [OF one(1), of raft_log ?j, unfolded one(2)]
  show at: "store_at (disk_steps ops dk) s'" using two new by (simp add: ops s' store_atI)
  show same: "st_ids s' = st_ids s" "st_state s' = persist (PersistSnapshot snap) (st_state s)" by (simp_all add: s(1) s')
  assume b: "holds_boundary snap (st_state s)"
  obtain req us where j: "journal_holds req us st" "contents dk raft_log = Some (encode_log_header ids req @ updates_bytes us)"
    using s(3) by (auto simp: stored_def)
  have "journal_holds req us ?st" using b i(2) by (intro journal_holds_snapshot j(1)) (simp_all add: s(1))
  then have mid: "stored ids g [] ?st ((contents dk)(raft_snapshot := Some ?f))"
    using d ok sl j(2) by (auto simp: stored_def torn_def)
  have "recoverable ids st h \<or> recoverable ids ?st h" if c: "crash_leaves ops dk h" for h
    using crash_append [OF c [unfolded ops]]
  proof
    assume "crash_leaves (create_file raft_snapshot ?f) dk h"
    from crash_create [OF s(2) this] show ?thesis using s(3) mid by (auto simp: recoverable_def)
  next
    assume "crash_leaves (create_file raft_log ?j) ?dk h"
    from crash_create [OF one(1) this] show ?thesis unfolding one(2) using mid new by (auto simp: recoverable_def)
  qed
  then show "durably dk ops s s'" using at by (simp add: durably_def s(1) s')
qed

text \<open>Without the boundary in the log, the window between the two replacements is not recoverable.\<close>

lemma recover_log_conflict:
  assumes "ids_ok ids" and "journal_holds req us st" and "snapshot_index (ps_snapshot st) < s_index snap"
    and "\<not> holds_boundary snap st"
  shows "recover_log ids (encode_log_header ids req @ updates_bytes us)
      \<lparr>ps_current_term = ps_current_term st, ps_voted_for = ps_voted_for st, ps_snapshot = Some snap, ps_log = []\<rparr> =
    ([], corruption ''full Raft journal conflicts with snapshot boundary'')"
proof -
  let ?J = "encode_log_header ids req @ updates_bytes us" and ?B = "snapshot_index (ps_snapshot st)"
  let ?s0 = "\<lparr>ps_current_term = ps_current_term st, ps_voted_for = ps_voted_for st, ps_snapshot = Some snap, ps_log = []\<rparr>"
  obtain r where r: "replay_updates us (st\<lparr>ps_log := [], ps_snapshot := stub req\<rparr>) = Inr r" "ps_snapshot r = stub req"
      "covers r st" "boundary_ok req" "updates_ok us"
    using assms(2) by (auto simp: journal_holds_def)
  have c: "snapshot_index req \<le> ?B" "?B \<le> snapshot_index req + length (ps_log r)" "ps_log st = drop (?B - snapshot_index req) (ps_log r)"
    using r(2,3) by (simp_all add: covers_def Let_def)
  have hd: "verify_log_header ids (take kLogHeaderSize ?J) = Inr (boundary req)" "kLogHeaderSize \<le> length ?J"
    using verify_encode_log_header [OF assms(1) r(4)] by (simp_all add: kLogHeaderSize_def)
  have e: "?s0\<lparr>ps_log := [], ps_snapshot := stub req\<rparr> = st\<lparr>ps_log := [], ps_snapshot := stub req\<rparr>" by (cases st) simp
  have rep: "replay_log kLogHeaderSize ?J (?s0\<lparr>ps_log := [], ps_snapshot := stub req\<rparr>) = ([], Inr r)"
    unfolding e using replay_journal [OF r(5,1), of "[]" "encode_log_header ids req"] by (simp add: kLogHeaderSize_def torn_def)
  have needed: "\<not> (case boundary req of None \<Rightarrow> False | Some (i, t) \<Rightarrow> ps_snapshot ?s0 = None \<or>
      snapshot_index (ps_snapshot ?s0) < i \<or> snapshot_index (ps_snapshot ?s0) = i \<and> snapshot_term (ps_snapshot ?s0) \<noteq> t)"
    using c(1) assms(3) by (cases req) (auto simp: snapshot_index_def)
  have R: "(case boundary req of None \<Rightarrow> 0 | Some (i, t) \<Rightarrow> i) = snapshot_index req" by (cases req) (simp_all add: snapshot_index_def)
  have k: "?B - snapshot_index req + (s_index snap - ?B - 1) = s_index snap - snapshot_index req - 1" using c(1) assms(3) by simp
  have "\<not> (s_index snap - snapshot_index req \<le> length (ps_log r) \<and>
      e_term (ps_log r ! (s_index snap - snapshot_index req - 1)) = s_term snap)"
    using assms(3,4) c k by (auto simp: holds_boundary_def)
  then show ?thesis
    using recover_log_eq [OF hd(2,1) needed, unfolded stub_boundary R, OF rep] c(1) assms(3)
    by (auto simp: Let_def)
qed

lemma snapshot_window:
  assumes "store_at dk s" and "storage_install_snapshot snap False (contents dk) s = (ops, Inr s')" and "s_index snap \<le> u64_max"
    and "\<not> holds_boundary snap (st_state s)"
  shows "\<exists>g ops'. crash_leaves ops dk g \<and>
    storage_open (st_ids s) g = (ops', corruption ''full Raft journal conflicts with snapshot boundary'')"
proof -
  note i = install_steps [OF assms(1-3)]
  obtain ids g st where s: "s = opened ids g st" "settled dk" "stored ids g [] st (contents dk)" by (rule store_atE [OF assms(1)])
  let ?f = "snapshot_file ids snap" and ?h = "(contents dk)(raft_snapshot := Some (snapshot_file ids snap))"
  note one = settled_create [OF s(2), of raft_snapshot ?f]
  have "take 4 ops = create_file raft_snapshot ?f" unfolding i(5) by (simp add: s(1) create_file_def)
  then have cr: "crash_leaves ops dk ?h"
    using settled_survives [OF one(1)] one(2) by (auto simp: crash_leaves_def intro!: exI [of _ 4])
  obtain req us where d: "ps_ok st" "ids_valid ids" "contents dk IDENTITY_file = Some (encode_identity ids)"
      "slots_hold ids g st (contents dk)" "journal_holds req us st" "contents dk raft_log = Some (encode_log_header ids req @ updates_bytes us)"
    using s(3) by (auto simp: stored_def)
  have sl: "slots_hold ids g st ?h" using d(4) by (auto simp: slots_hold_def slot_def)
  have rec: "recover_log ids (encode_log_header ids req @ updates_bytes us)
      \<lparr>ps_current_term = ps_current_term st, ps_voted_for = ps_voted_for st, ps_snapshot = Some snap, ps_log = []\<rparr> =
      ([], corruption ''full Raft journal conflicts with snapshot boundary'')"
    using d(2) i(2) assms(4) by (intro recover_log_conflict d(5)) (simp_all add: s(1) ids_valid_def)
  have "storage_open ids ?h = ([], corruption ''full Raft journal conflicts with snapshot boundary'')"
    using d(3,6) i(1,3) sl
    by (subst open_initialised [OF d(2,1) _ _ _ _ _ rec, of g ?h]) (simp_all add: s(1))
  then show ?thesis using cr by (auto simp: s(1))
qed

section \<open>The first start\<close>

text \<open>The files of a store that has never been used, in the order in which they are created.\<close>

definition fresh_files :: "StoreIds \<Rightarrow> (FileName \<times> bytes) list" where
  "fresh_files ids = [(hard_state_A, encode_hard_state ids (baseline 1)), (hard_state_B, encode_hard_state ids (baseline 2)),
     (raft_log, encode_log_header ids None), (IDENTITY_file, encode_identity ids)]"

definition fresh_dir :: "StoreIds \<Rightarrow> nat \<Rightarrow> directory" where
  "fresh_dir ids n = put_files (take n (fresh_files ids)) Map.empty"

lemma fresh_stored:
  assumes "ids_valid ids"
  shows "stored ids 2 [] empty_state (fresh_dir ids 4)"
proof -
  have "ps_ok empty_state" by (simp add: ps_ok_def empty_state_def snapshot_index_def u64_max_def)
  moreover have "journal_holds None [] empty_state"
    by (simp add: journal_holds_def boundary_ok_def empty_state_def stub_def covers_def u64_max_def snapshot_index_def)
  moreover have "slots_hold ids 2 empty_state (fresh_dir ids 4)"
    by (auto simp: slots_hold_def slot_def fresh_dir_def fresh_files_def put_files_def hard_of_def baseline_def empty_state_def
        u64_max_def hard_ok_def intro!: exI [of _ "baseline 1"])
  ultimately show ?thesis
    using assms by (auto simp: stored_def torn_def fresh_dir_def fresh_files_def put_files_def empty_state_def
        intro!: exI [of _ None] exI [of _ "[]"])
qed

lemma open_partial:
  assumes "ids_valid ids" and "n < 4"
  shows "storage_open ids (fresh_dir ids n) =
    (create_files (take (3 - n) (drop n (fresh_files ids))) @ [Sync_log, Sync_directory] @ create_files (drop 3 (fresh_files ids)),
     Inr (opened ids 2 empty_state))"
proof -
  have i: "ids_ok ids" "si_cluster_id ids \<noteq> 0" "si_node_id ids \<noteq> 0" using assms(1) by (simp_all add: ids_valid_def)
  have rd: "read_hard_slot ids (Some (encode_hard_state ids (baseline k))) = Some (baseline k)" if "k = 1 \<or> k = 2" for k
    using that by (intro read_slot i(1)) (auto simp: hard_ok_def baseline_def u64_max_def)
  have no: "read_hard_slot ids None = None" "load_snapshot ids None = Inr None" by (simp_all add: read_hard_slot_def load_snapshot_def)
  have sel: "select_hard_state (Some x) (Some y) (Some (baseline 1)) (Some (baseline 2)) = Inr (baseline 2)" for x y
    by (simp add: select_hard_state_def baseline_def)
  have bl: "hr_term (baseline 2) = 0" "hr_voted_for (baseline 2) = None" "hr_generation (baseline 2) = 2"
    by (simp_all add: baseline_def)
  have st: "stored ids 2 [] empty_state (fresh_dir ids 4)" by (rule fresh_stored [OF assms(1)])
  have rec: "recover_log ids (encode_log_header ids None) \<lparr>ps_current_term = 0, ps_voted_for = None, ps_snapshot = None, ps_log = []\<rparr> =
      ([], Inr empty_state)"
    using recover_log_holds [OF i(1), of empty_state None "[]" "[]"] st
    by (simp add: stored_def torn_def journal_holds_def boundary_ok_def empty_state_def stub_def covers_def u64_max_def snapshot_index_def)
  have el: "ps_log empty_state = []" by (simp add: empty_state_def)
  have f: "fresh_dir ids 0 = Map.empty" "fresh_dir ids 1 = [hard_state_A \<mapsto> encode_hard_state ids (baseline 1)]"
      "fresh_dir ids 2 = [hard_state_A \<mapsto> encode_hard_state ids (baseline 1), hard_state_B \<mapsto> encode_hard_state ids (baseline 2)]"
      "fresh_dir ids 3 = [hard_state_A \<mapsto> encode_hard_state ids (baseline 1), hard_state_B \<mapsto> encode_hard_state ids (baseline 2),
         raft_log \<mapsto> encode_log_header ids None]"
    by (simp_all add: fresh_dir_def fresh_files_def put_files_def)
  have c: "create_files (drop 3 (fresh_files ids)) = create_file IDENTITY_file (encode_identity ids)"
    by (simp add: fresh_files_def create_files_def)
  have "n = 0 \<or> n = 1 \<or> n = 2 \<or> n = 3" using assms(2) by linarith
  then show ?thesis
  proof (elim disjE)
    assume n: "n = 0"
    have d: "create_files (take (3 - n) (drop n (fresh_files ids))) = create_file hard_state_A (encode_hard_state ids (baseline 1)) @
        create_file hard_state_B (encode_hard_state ids (baseline 2)) @ create_file raft_log (encode_log_header ids None)"
      by (simp add: n fresh_files_def create_files_def)
    show ?thesis unfolding n f(1) storage_open_def c d [unfolded n] using i(2,3)
      by (simp add: rd no sel bl rec el opened_def del: One_nat_def)
  next
    assume n: "n = 1"
    have d: "create_files (take (3 - n) (drop n (fresh_files ids))) =
        create_file hard_state_B (encode_hard_state ids (baseline 2)) @ create_file raft_log (encode_log_header ids None)"
      by (simp add: n fresh_files_def create_files_def)
    show ?thesis unfolding n f(2) storage_open_def c d [unfolded n] using i(2,3)
      by (simp add: rd no sel bl rec el opened_def del: One_nat_def)
  next
    assume n: "n = 2"
    have d: "create_files (take (3 - n) (drop n (fresh_files ids))) = create_file raft_log (encode_log_header ids None)"
      by (simp add: n fresh_files_def create_files_def)
    show ?thesis unfolding n f(3) storage_open_def c d [unfolded n] using i(2,3)
      by (simp add: rd no sel bl rec el opened_def del: One_nat_def)
  next
    assume n: "n = 3"
    have d: "create_files (take (3 - n) (drop n (fresh_files ids))) = []" by (simp add: n create_files_def)
    show ?thesis unfolding n f(4) storage_open_def c d [unfolded n] using i(2,3)
      by (simp add: rd no sel bl rec el opened_def del: One_nat_def)
  qed
qed

lemma fresh_dir_put: "put_files (take m (drop n (fresh_files ids))) (fresh_dir ids n) = fresh_dir ids (n + m)"
  by (simp add: fresh_dir_def put_files_def take_add)

text \<open>A first start that is interrupted leaves one of these directories again.\<close>

lemma partial_steps:
  fixes ids n
  defines "before \<equiv> create_files (take (3 - n) (drop n (fresh_files ids)))" and "after \<equiv> create_files (drop 3 (fresh_files ids))"
  assumes "n < 4" and "settled dk" and "contents dk = fresh_dir ids n"
  shows "settled (disk_steps before dk)" and "contents (disk_steps before dk) = fresh_dir ids 3"
    and "disk_steps [Sync_log, Sync_directory] (disk_steps before dk) = disk_steps before dk"
    and "settled (disk_steps after (disk_steps before dk))" and "contents (disk_steps after (disk_steps before dk)) = fresh_dir ids 4"
proof -
  have b: "put_files (drop 3 (fresh_files ids)) (fresh_dir ids 3) = fresh_dir ids 4"
    by (simp add: fresh_files_def fresh_dir_def put_files_def)
  show one: "settled (disk_steps before dk)" "contents (disk_steps before dk) = fresh_dir ids 3"
    using settled_creates [OF assms(4), of "take (3 - n) (drop n (fresh_files ids))"] assms(3)
    by (simp_all add: before_def assms(5) fresh_dir_put)
  show "disk_steps [Sync_log, Sync_directory] (disk_steps before dk) = disk_steps before dk"
    using settled_sync [OF one(1), of 2] by simp
  show "settled (disk_steps after (disk_steps before dk))" "contents (disk_steps after (disk_steps before dk)) = fresh_dir ids 4"
    using settled_creates [OF one(1), of "drop 3 (fresh_files ids)"] by (simp_all only: after_def one(2) b)
qed

lemma crash_partial:
  assumes "n < 4" and "settled dk" and "contents dk = fresh_dir ids n"
    and "crash_leaves (create_files (take (3 - n) (drop n (fresh_files ids))) @ [Sync_log, Sync_directory] @
      create_files (drop 3 (fresh_files ids))) dk g"
  shows "\<exists>m \<le> 4. g = fresh_dir ids m"
proof -
  let ?a = "take (3 - n) (drop n (fresh_files ids))" and ?b = "drop 3 (fresh_files ids)"
  let ?d1 = "disk_steps (create_files ?a) dk"
  note p = partial_steps [OF assms(1-3)]
  consider "crash_leaves (create_files ?a) dk g" | "crash_leaves [Sync_log, Sync_directory] ?d1 g" | "crash_leaves (create_files ?b) ?d1 g"
    using crash_append [OF assms(4)] crash_append [of "[Sync_log, Sync_directory]" _ ?d1 g] p(3) by auto
  then show ?thesis
  proof cases
    case 1
    then obtain m where m: "m \<le> length ?a" "g = put_files (take m ?a) (contents dk)" using crash_creates [OF assms(2)] by blast
    then have "take m ?a = take m (drop n (fresh_files ids))" by simp
    then have "g = fresh_dir ids (n + m)" using m(2) by (simp only: assms(3) fresh_dir_put)
    moreover have "n + m \<le> 4" using m(1) assms(1) by (auto simp: fresh_files_def)
    ultimately show ?thesis by blast
  next
    case 2
    then obtain k where "survives (disk_steps (take k [Sync_log, Sync_directory]) ?d1) g" by (auto simp: crash_leaves_def)
    moreover have "k = 0 \<or> k = 1 \<or> k \<ge> 2" by linarith
    ultimately have "g = fresh_dir ids 3" using settled_sync [OF p(1), of k] settled_survives [OF p(1)] p(2) by metis
    then show ?thesis by (intro exI [of _ 3]) simp
  next
    case 3
    from crash_creates [OF p(1) this, unfolded p(2)]
    obtain m where "m \<le> length ?b" "g = put_files (take m ?b) (fresh_dir ids 3)" by blast
    then have "m \<le> 1" "g = fresh_dir ids (3 + m)" using fresh_dir_put [of m 3 ids] by (auto simp: fresh_files_def)
    then show ?thesis by (intro exI [of _ "3 + m"]) simp
  qed
qed

lemma first_open:
  assumes "ids_valid ids" and "n \<le> 4" and "settled dk" and "contents dk = fresh_dir ids n"
  shows "\<exists>ops. storage_open ids (contents dk) = (ops, Inr (opened ids 2 empty_state)) \<and>
    store_at (disk_steps ops dk) (opened ids 2 empty_state) \<and>
    (\<forall>g. crash_leaves ops dk g \<longrightarrow> (\<exists>m \<le> 4. g = fresh_dir ids m))"
proof (cases "n = 4")
  case True
  have r: "stored ids 2 [] empty_state (contents dk)" using fresh_stored [OF assms(1)] True assms(4) by simp
  then obtain bs where o: "contents dk raft_log = Some (bs @ [])" "storage_open ids (contents dk) = (open_steps [] (length bs), Inr (opened ids 2 empty_state))"
    using open_stored by blast
  have "store_at (disk_steps (open_steps [] (length bs)) dk) (opened ids 2 empty_state)"
    using settled_open [OF assms(3) o(1)] r o(1) by (intro store_atI) (simp_all add: fun_upd_idem)
  then show ?thesis using o crash_open [OF assms(3) o(1)] True assms(4) by (auto simp: fun_upd_idem)
next
  case False
  then have n: "n < 4" using assms(2) by simp
  note p = partial_steps [OF n assms(3,4)]
  have "store_at (disk_steps (create_files (take (3 - n) (drop n (fresh_files ids))) @ [Sync_log, Sync_directory] @
      create_files (drop 3 (fresh_files ids))) dk) (opened ids 2 empty_state)"
    using p(3-5) fresh_stored [OF assms(1)] by (intro store_atI) (simp_all del: fold_simps)
  then show ?thesis using crash_partial [OF n assms(3,4)] open_partial [OF assms(1) n] assms(4) by auto
qed

section \<open>Properties\<close>

text \<open>A machine that restarts finds the surviving directory on its disk.\<close>

definition disk_of :: "directory \<Rightarrow> Disk" where
  "disk_of dir = \<lparr>dk_files = (\<lambda>f. map_option (\<lambda>bs. (bs, length bs)) (dir f)), dk_temporary = None,
     dk_replaced = (\<lambda>_. None), dk_untruncated = None\<rparr>"

lemma disk_of_simps [simp]: "settled (disk_of dir)" "contents (disk_of dir) = dir"
  by (auto simp: disk_of_def settled_def contents_def option.map_comp comp_def option.map_ident)

definition sample_ids :: StoreIds where
  "sample_ids = \<lparr>si_cluster_id = 7, si_node_id = 1, si_fingerprint = 9\<rparr>"

lemma sample_ids_valid: "ids_valid sample_ids"
  by (simp add: ids_valid_def ids_ok_def sample_ids_def u64_max_def)

lemma fresh_store_at: "ids_valid ids \<Longrightarrow> store_at (disk_of (fresh_dir ids 4)) (opened ids 2 empty_state)"
  using fresh_stored by (intro store_atI) simp_all

definition sample_durable :: RaftPersistentState where
  "sample_durable = \<lparr>ps_current_term = 2, ps_voted_for = Some 1, ps_snapshot = None,
     ps_log = [\<lparr>e_index = 1, e_term = 1, e_kind = No_op, e_command = []\<rparr>]\<rparr>"

lemma sample_store:
  assumes "ids_valid ids"
  shows "\<exists>dk. store_at dk (opened ids 3 sample_durable)"
proof -
  let ?es = "[\<lparr>e_index = 1, e_term = 1, e_kind = No_op, e_command = []\<rparr>]"
  let ?s = "empty_state\<lparr>ps_current_term := 2, ps_voted_for := Some 1\<rparr>"
  obtain ops where h: "bindA (prepare_hard_state 2 (Some 1) (opened ids 2 empty_state)) storage_sync = (ops, Inr (opened ids 3 ?s))"
    by (simp add: prepare_hard_state_def storage_sync_def opened_def empty_state_def u64_max_def add64_def)
  have one: "store_at (disk_steps ops (disk_of (fresh_dir ids 4))) (opened ids 3 ?s)"
    using store_hard_state(1) [OF fresh_store_at [OF assms] h] by (simp add: durably_def u64_max_def)
  obtain ops' where l: "bindA (prepare_log 1 ?es (opened ids 3 ?s)) storage_sync = (ops', Inr (opened ids 3 sample_durable))"
    by (simp add: prepare_log_def storage_sync_def opened_def empty_state_def sample_durable_def apply_log_update_def u64_max_def
        add64_def snapshot_index_def snapshot_term_def kMaxRaftLogEntriesPerRecord_def kMaxRaftLogRecordSize_def file_sizes)
  have "store_at (disk_steps ops' (disk_steps ops (disk_of (fresh_dir ids 4)))) (opened ids 3 sample_durable)"
    using store_log(1) [OF one l] by (simp add: durably_def u64_max_def empty_state_def snapshot_index_def)
  then show ?thesis by blast
qed



text \<open>C38. First start. Opening an empty directory, or one in which an earlier first start was interrupted after any
  number of its files, creates what is missing and opens with the empty state; a crash on the way leaves
  such a directory again, so that the first start can be repeated until it succeeds.\<close>

theorem storage_first_open:
  assumes "ids_valid ids" and "n \<le> 4"
  shows "\<exists>ops. storage_open ids (fresh_dir ids n) = (ops, Inr (opened ids 2 empty_state)) \<and>
    store_at (disk_steps ops (disk_of (fresh_dir ids n))) (opened ids 2 empty_state) \<and>
    (\<forall>g. crash_leaves ops (disk_of (fresh_dir ids n)) g \<longrightarrow> (\<exists>m \<le> 4. g = fresh_dir ids m))"
  using first_open [OF assms, of "disk_of (fresh_dir ids n)"] by simp

theorem storage_first_open_witness:
  "fresh_dir sample_ids 0 = Map.empty \<and>
   (\<exists>ops. storage_open sample_ids Map.empty = (ops, Inr (opened sample_ids 2 empty_state)))"
proof -
  have "fresh_dir sample_ids 0 = Map.empty" by (simp add: fresh_dir_def put_files_def)
  then show ?thesis using storage_first_open [OF sample_ids_valid, of 0] by auto
qed

text \<open>C39. The rewriting of the journal at a snapshot ends: it writes at most one record per retained entry, none of
  them empty, each within the size limits, and replaying them gives the retained entries back.\<close>

theorem storage_rewrite_terminates:
  assumes "ps_ok st" and "ps_snapshot st = Some snap"
  shows "\<exists>us. suffix_records (add64 (s_index snap) 1) (ps_log st) = concat (map (\<lambda>(i, es). encode_log_update i es) us) \<and>
    length us \<le> length (ps_log st) \<and> concat (map snd us) = ps_log st \<and>
    (\<forall>(i, es) \<in> set us. es \<noteq> [] \<and> length es \<le> kMaxRaftLogEntriesPerRecord \<and> length (encode_log_update i es) \<le> kMaxRaftLogRecordSize)"
proof -
  obtain us where us: "suffix_records (add64 (s_index snap) 1) (ps_log st) = updates_bytes us" "updates_ok us"
      "concat (map snd us) = ps_log st" "[] \<notin> snd ` set us"
    using new_journal_holds [OF assms] by (auto simp: journal_holds_def)
  have enc: "encode_log_update i es = update_bytes i es" "length (update_bytes i es) \<le> kMaxRaftLogRecordSize"
      "length es \<le> kMaxRaftLogEntriesPerRecord" if "(i, es) \<in> set us" for i es
    using us(2) that encode_log_update_layout [of es i] by (auto simp: updates_ok_def update_ok_def)
  have each: "es \<noteq> [] \<and> length es \<le> kMaxRaftLogEntriesPerRecord \<and> length (encode_log_update i es) \<le> kMaxRaftLogRecordSize"
    if "(i, es) \<in> set us" for i es
    using enc [OF that] us(4) that image_eqI [of "[]" snd "(i, es)" "set us"] by auto
  have len: "length us \<le> length (concat (map snd us))" if "[] \<notin> snd ` set us" for us :: "update list"
    using that by (induction us) (auto simp: Suc_le_eq add_strict_increasing)
  have "updates_bytes us = concat (map (\<lambda>(i, es). encode_log_update i es) us)"
    using enc(1) by (auto simp: updates_bytes_def intro!: arg_cong [where f = concat])
  moreover have "\<forall>(i, es) \<in> set us. es \<noteq> [] \<and> length es \<le> kMaxRaftLogEntriesPerRecord \<and>
      length (encode_log_update i es) \<le> kMaxRaftLogRecordSize"
    using each by (intro ballI) (simp only: split_paired_all prod.case simp_thms)
  ultimately show ?thesis using us(1) len [OF us(4)] us(3) by (intro exI [of _ us] conjI) simp_all
qed

definition sample_compacted :: RaftPersistentState where
  "sample_compacted = \<lparr>ps_current_term = 2, ps_voted_for = Some 1,
     ps_snapshot = Some \<lparr>s_index = 3, s_term = 1, s_state = [0, 1]\<rparr>,
     ps_log = [\<lparr>e_index = 4, e_term = 1, e_kind = Command_entry, e_command = [5]\<rparr>,
       \<lparr>e_index = 5, e_term = 2, e_kind = No_op, e_command = []\<rparr>]\<rparr>"

lemma sample_compacted_ok: "ps_ok sample_compacted"
  by (simp add: ps_ok_def sample_compacted_def snapshot_valid_def u64_max_def snapshot_index_def snapshot_term_def
      entry_plain_def kMaxSnapshotPayloadSize_def kMaxRaftCommandSize_def frame_constants)

theorem storage_rewrite_terminates_witness:
  "ps_ok sample_compacted \<and>
   (\<exists>us. suffix_records (add64 3 1) (ps_log sample_compacted) = concat (map (\<lambda>(i, es). encode_log_update i es) us) \<and>
      length us \<le> 2 \<and> concat (map snd us) = ps_log sample_compacted)"
proof -
  have s: "ps_snapshot sample_compacted = Some \<lparr>s_index = 3, s_term = 1, s_state = [0, 1]\<rparr>" "length (ps_log sample_compacted) = 2"
    by (simp_all add: sample_compacted_def)
  show ?thesis using storage_rewrite_terminates [OF sample_compacted_ok s(1)] sample_compacted_ok unfolding s(2) by auto
qed

text \<open>C15. The window in the installation of a snapshot. When a store accepts a snapshot whose last entry is not in
  its log with the same term (a follower that lags behind its leader), there is a crash, after the snapshot
  file is published and before the journal is replaced, after which the store can no longer be opened.\<close>

theorem storage_snapshot_window:
  assumes "store_at dk s" and "storage_install_snapshot snap False (contents dk) s = (ops, Inr s')" and "s_index snap \<le> u64_max"
    and "\<not> holds_boundary snap (st_state s)"
  shows "\<exists>g ops'. crash_leaves ops dk g \<and>
    storage_open (st_ids s) g = (ops', corruption ''full Raft journal conflicts with snapshot boundary'')"
  by (rule snapshot_window [OF assms])

theorem storage_snapshot_window_witness:
  "\<exists>dk ops s' g ops'. store_at dk (opened sample_ids 3 sample_durable) \<and>
    storage_install_snapshot \<lparr>s_index = 5, s_term = 2, s_state = []\<rparr> False (contents dk) (opened sample_ids 3 sample_durable) = (ops, Inr s') \<and>
    crash_leaves ops dk g \<and> storage_open sample_ids g = (ops', corruption ''full Raft journal conflicts with snapshot boundary'')"
proof -
  let ?snap = "\<lparr>s_index = 5, s_term = 2, s_state = []\<rparr>"
  obtain dk where dk: "store_at dk (opened sample_ids 3 sample_durable)" using sample_store [OF sample_ids_valid] by blast
  obtain ops s' where i: "storage_install_snapshot ?snap False (contents dk) (opened sample_ids 3 sample_durable) = (ops, Inr s')"
    using install_accepts [OF dk, of ?snap] by (auto simp: snapshot_valid_def u64_max_def sample_durable_def snapshot_index_def)
  have "\<not> holds_boundary ?snap sample_durable" by (simp add: holds_boundary_def sample_durable_def snapshot_index_def)
  then show ?thesis using storage_snapshot_window [OF dk i] dk i by (fastforce simp: u64_max_def)
qed

end
