(* ===== verification/Command_Codec.thy ===== *)
theory Command_Codec
  imports Peer_Codec
begin

text \<open>
  Client requests and replicated commands (\<^verbatim>\<open>decode_client_mutation\<close>, \<^verbatim>\<open>decode_client_get\<close>,
  \<^verbatim>\<open>encode_replicated_command\<close> and \<^verbatim>\<open>decode_replicated_command\<close> of \<^verbatim>\<open>src/cluster/codecs.cpp\<close>).
  A mutation frame of a client becomes a command, whose encoding is what the Raft log replicates.
  Shown here: the command decoder and encoder are inverse to each other, and a decoded client
  mutation always has an encoding that fits a log entry. The enum \<^verbatim>\<open>KvOperation\<close> is filled by a cast
  from a wire byte, so a value outside of it is a constructor of its own.
\<close>

section \<open>Definitions\<close>

definition kCommandHeaderSize :: nat where "kCommandHeaderSize = 40"

datatype KvOperation = op_put | op_delete_key | op_unknown byte

fun op_byte :: "KvOperation \<Rightarrow> byte" where
  "op_byte op_put = 1"
| "op_byte op_delete_key = 2"
| "op_byte (op_unknown b) = b"

definition byte_op :: "byte \<Rightarrow> KvOperation" where
  "byte_op b = (if b = 1 then op_put else if b = 2 then op_delete_key else op_unknown b)"

record ReplicatedCommand =
  rc_operation :: KvOperation
  rc_client_id :: bytes
  rc_request_id :: "64 word"
  rc_key :: bytes
  rc_value :: bytes

definition valid_key_size :: "nat \<Rightarrow> bool" where
  "valid_key_size sz \<longleftrightarrow> sz > 0 \<and> sz \<le> kMaxKeySize"

definition decode_client_mutation :: "Frame \<Rightarrow> (string, ReplicatedCommand) result" where
  "decode_client_mutation frame =
     (if message_namespace frame \<noteq> ns_client \<or>
         message_type frame \<noteq> mt_put \<and> message_type frame \<noteq> mt_delete_key \<or>
         request_id frame = 0 \<or> length (payload frame) < 20
      then Inl ''invalid mutation frame''
      else
        let operation = (if message_type frame = mt_put then op_put else op_delete_key);
            key_size = get32 16 (payload frame)
        in if operation = op_put \<and> length (payload frame) < 24
           then Inl ''truncated PUT payload''
           else
             let value_size = (if operation = op_put then get32 20 (payload frame) else 0);
                 header_size = (if operation = op_put then 24 else 20)
             in if \<not> valid_key_size key_size \<or> value_size > kMaxValueSize \<or>
                   length (payload frame) \<noteq> header_size + key_size + value_size
                then Inl ''invalid mutation key/value lengths''
                else Inr \<lparr>rc_operation = operation, rc_client_id = take 16 (payload frame),
                  rc_request_id = request_id frame, rc_key = subspan header_size key_size (payload frame),
                  rc_value = subspan (header_size + key_size) value_size (payload frame)\<rparr>)"

definition encode_replicated_command :: "ReplicatedCommand \<Rightarrow> (std_exn, bytes) result" where
  "encode_replicated_command command =
     (if \<not> valid_key_size (length (rc_key command)) \<or> length (rc_value command) > kMaxValueSize \<or>
         rc_operation command = op_delete_key \<and> rc_value command \<noteq> [] \<or> rc_request_id command = 0
      then Inl (invalid_argument ''invalid replicated KV command'')
      else Inr
        (write_at (kCommandHeaderSize + length (rc_key command)) (rc_value command)
        (write_at kCommandHeaderSize (rc_key command)
        (write_at 36 (put32 (length (rc_value command)))
        (write_at 32 (put32 (length (rc_key command)))
        (write_at 24 (write_u64 (rc_request_id command))
        (write_at 8 (rc_client_id command)
        (write_at 0 [op_byte (rc_operation command)]
        (replicate (kCommandHeaderSize + length (rc_key command) + length (rc_value command)) 0)))))))))"

definition decode_replicated_command :: "bytes \<Rightarrow> (string, ReplicatedCommand) result" where
  "decode_replicated_command bs =
     (if length bs < kCommandHeaderSize \<or> \<not> all_zero (subspan 1 7 bs)
      then Inl ''invalid replicated command header''
      else
        let operation = byte_op (bs ! 0);
            key_size = get32 32 bs;
            value_size = get32 36 bs
        in if operation \<noteq> op_put \<and> operation \<noteq> op_delete_key \<or> \<not> valid_key_size key_size \<or>
              value_size > kMaxValueSize \<or> operation = op_delete_key \<and> value_size \<noteq> 0 \<or>
              length bs \<noteq> kCommandHeaderSize + key_size + value_size
           then Inl ''invalid replicated command lengths''
           else
             let rid = read_u64 (subspan 24 8 bs)
             in if rid = 0 then Inl ''zero replicated request ID''
                else Inr \<lparr>rc_operation = operation, rc_client_id = subspan 8 16 bs, rc_request_id = rid,
                  rc_key = subspan kCommandHeaderSize key_size bs,
                  rc_value = subspan (kCommandHeaderSize + key_size) value_size bs\<rparr>)"

definition decode_client_get :: "Frame \<Rightarrow> (string, bytes) result" where
  "decode_client_get frame =
     (if message_namespace frame \<noteq> ns_client \<or> message_type frame \<noteq> mt_get \<or> length (payload frame) < 4
      then Inl ''invalid GET frame''
      else
        let key_size = unat (read_u32 (take 4 (payload frame)))
        in if \<not> valid_key_size key_size \<or> length (payload frame) \<noteq> 4 + key_size
           then Inl ''invalid GET key length''
           else Inr (subspan 4 key_size (payload frame)))"

section \<open>Layout of a command\<close>

definition command_bytes :: "ReplicatedCommand \<Rightarrow> bytes" where
  "command_bytes c = [op_byte (rc_operation c)] @ replicate 7 0 @ rc_client_id c @ write_u64 (rc_request_id c) @
     put32 (length (rc_key c)) @ put32 (length (rc_value c)) @ rc_key c @ rc_value c"

definition command_ok :: "ReplicatedCommand \<Rightarrow> bool" where
  "command_ok c \<longleftrightarrow> (rc_operation c = op_put \<or> rc_operation c = op_delete_key \<and> rc_value c = []) \<and>
     length (rc_client_id c) = 16 \<and> rc_request_id c \<noteq> 0 \<and> valid_key_size (length (rc_key c)) \<and>
     length (rc_value c) \<le> kMaxValueSize"

lemma length_command_bytes [simp]:
  "length (rc_client_id c) = 16 \<Longrightarrow> length (command_bytes c) = 40 + length (rc_key c) + length (rc_value c)"
  by (simp add: command_bytes_def)

lemma command_size:
  "command_ok c \<Longrightarrow> length (command_bytes c) \<le> kMaxRaftCommandSize"
  by (simp add: command_ok_def valid_key_size_def kMaxRaftCommandSize_def kMaxClientCommandSize_def)

lemma unat_key_size: "valid_key_size n \<Longrightarrow> unat (of_nat n :: 32 word) = n"
  by (rule unat_of_nat32) (simp add: valid_key_size_def kMaxKeySize_def)

lemma unat_value_size: "n \<le> kMaxValueSize \<Longrightarrow> unat (of_nat n :: 32 word) = n"
  by (rule unat_of_nat32) (simp add: kMaxValueSize_def)

lemma command_image:
  assumes "length cid = 16" and "length r = 8" and "length ks = 4" and "length vs = 4"
  shows "write_at (40 + length k) v (write_at 40 k (write_at 36 vs (write_at 32 ks (write_at 24 r
    (write_at 8 cid (write_at 0 [b] (replicate (40 + length k + length v) 0))))))) =
    [b] @ replicate 7 0 @ cid @ r @ ks @ vs @ k @ v"
  using assms by (simp add: write_at_def numeral_eq_Suc)

lemma encode_command:
  assumes "length (rc_client_id c) = 16"
  shows "encode_replicated_command c = Inr bs \<longleftrightarrow>
    valid_key_size (length (rc_key c)) \<and> length (rc_value c) \<le> kMaxValueSize \<and>
    (rc_operation c = op_delete_key \<longrightarrow> rc_value c = []) \<and> rc_request_id c \<noteq> 0 \<and> bs = command_bytes c"
  using command_image [OF assms, of "write_u64 (rc_request_id c)" "put32 (length (rc_key c))"
      "put32 (length (rc_value c))" "rc_key c" "rc_value c" "op_byte (rc_operation c)"]
  by (auto simp: encode_replicated_command_def kCommandHeaderSize_def command_bytes_def)

lemma encode_command_ok: "command_ok c \<Longrightarrow> encode_replicated_command c = Inr (command_bytes c)"
  by (auto simp: encode_command command_ok_def)

lemma byte_op_of [simp]: "op_byte (byte_op b) = b" "byte_op 1 = op_put" "byte_op 2 = op_delete_key"
  by (simp_all add: byte_op_def)

lemma command_fields:
  assumes "length (rc_client_id c) = 16"
  shows "command_bytes c ! 0 = op_byte (rc_operation c)" "subspan 1 7 (command_bytes c) = replicate 7 0"
    "subspan 8 16 (command_bytes c) = rc_client_id c" "subspan 24 8 (command_bytes c) = write_u64 (rc_request_id c)"
    "subspan 32 4 (command_bytes c) = put32 (length (rc_key c))"
    "subspan 36 4 (command_bytes c) = put32 (length (rc_value c))"
    "subspan 40 (length (rc_key c)) (command_bytes c) = rc_key c"
    "subspan (40 + length (rc_key c)) (length (rc_value c)) (command_bytes c) = rc_value c"
  using assms by (simp_all add: command_bytes_def subspan_def drop_Cons')

lemma decode_command_bytes:
  assumes "command_ok c"
  shows "decode_replicated_command (command_bytes c) = Inr c"
proof -
  have c: "length (rc_client_id c) = 16" "rc_request_id c \<noteq> 0" "valid_key_size (length (rc_key c))"
      "length (rc_value c) \<le> kMaxValueSize" using assms by (simp_all add: command_ok_def)
  have "byte_op (op_byte (rc_operation c)) = rc_operation c" "rc_operation c = op_put \<or> rc_operation c = op_delete_key"
      "rc_operation c = op_delete_key \<longrightarrow> rc_value c = []"
    using assms by (auto simp: command_ok_def)
  then show ?thesis
    using c command_fields [OF c(1)] unat_key_size [OF c(3)] unat_value_size [OF c(4)]
    by (auto simp: decode_replicated_command_def kCommandHeaderSize_def)
qed

text \<open>A vector cut at the boundaries of the command header.\<close>

lemma split_command:
  assumes "length bs = 40 + k + v"
  shows "bs = [bs ! 0] @ subspan 1 7 bs @ subspan 8 16 bs @ subspan 24 8 bs @ subspan 32 4 bs @
    subspan 36 4 bs @ subspan 40 k bs @ subspan (40 + k) v bs"
proof -
  have "[bs ! 0] = subspan 0 1 bs" using subspan_single [of 0 bs] assms by simp
  then show ?thesis using assms by (simp add: subspan_join subspan_whole)
qed

lemma decode_command_sound:
  assumes "decode_replicated_command bs = Inr c"
  shows "command_ok c" and "bs = command_bytes c"
proof -
  define k v where "k = get32 32 bs" and "v = get32 36 bs"
  have a: "all_zero (subspan 1 7 bs)" "40 \<le> length bs" "length bs = 40 + k + v" "valid_key_size k" "v \<le> kMaxValueSize"
      "read_u64 (subspan 24 8 bs) \<noteq> 0"
      "byte_op (bs ! 0) = op_put \<or> byte_op (bs ! 0) = op_delete_key \<and> v = 0"
      and c: "c = \<lparr>rc_operation = byte_op (bs ! 0), rc_client_id = subspan 8 16 bs,
        rc_request_id = read_u64 (subspan 24 8 bs), rc_key = subspan 40 k bs, rc_value = subspan (40 + k) v bs\<rparr>"
    using assms by (auto simp: decode_replicated_command_def kCommandHeaderSize_def Let_def k_def v_def
      split: if_splits)
  have l: "length (rc_key c) = k" "length (rc_value c) = v" using a(3) by (simp_all add: c)
  show "command_ok c" using a l by (auto simp: command_ok_def c subspan_0 subspan_def)
  have "subspan 1 7 bs = replicate 7 0" using a(1,2) by (simp add: all_zero_eq)
  moreover have "put32 k = subspan 32 4 bs" "put32 v = subspan 36 4 bs"
    using a(2) put_get32 [of 32 bs] put_get32 [of 36 bs] by (simp_all add: k_def v_def)
  moreover have "write_u64 (read_u64 (subspan 24 8 bs)) = subspan 24 8 bs" using a(2) by (simp add: write_read_u64)
  ultimately show "bs = command_bytes c"
    using split_command [OF a(3)] by (simp add: command_bytes_def l) (simp add: c)
qed

section \<open>Layout of the client requests\<close>

definition put_payload :: "ReplicatedCommand \<Rightarrow> bytes" where
  "put_payload c = rc_client_id c @ put32 (length (rc_key c)) @
     (if rc_operation c = op_put then put32 (length (rc_value c)) else []) @ rc_key c @ rc_value c"

definition mutation_type :: "ReplicatedCommand \<Rightarrow> MessageType" where
  "mutation_type c = (if rc_operation c = op_put then mt_put else mt_delete_key)"

lemma decode_mutation_complete:
  assumes "command_ok c" and "message_namespace f = ns_client" and "message_type f = mutation_type c"
    and "request_id f = rc_request_id c" and "payload f = put_payload c"
  shows "decode_client_mutation f = Inr c"
proof -
  have c: "length (rc_client_id c) = 16" "rc_request_id c \<noteq> 0" "valid_key_size (length (rc_key c))"
      "length (rc_value c) \<le> kMaxValueSize" using assms(1) by (simp_all add: command_ok_def)
  note n = unat_key_size [OF c(3)] unat_value_size [OF c(4)]
  show ?thesis
  proof (cases "rc_operation c = op_put")
    case True
    have "subspan 16 4 (put_payload c) = put32 (length (rc_key c))" "subspan 20 4 (put_payload c) = put32 (length (rc_value c))"
        "take 16 (put_payload c) = rc_client_id c" "subspan 24 (length (rc_key c)) (put_payload c) = rc_key c"
        "subspan (24 + length (rc_key c)) (length (rc_value c)) (put_payload c) = rc_value c"
        "length (put_payload c) = 24 + length (rc_key c) + length (rc_value c)"
      using c(1) True by (simp_all add: put_payload_def subspan_def)
    then show ?thesis using assms c n True
      by (auto simp: decode_client_mutation_def mutation_type_def message_constants)
  next
    case False
    then have d: "rc_operation c = op_delete_key" "rc_value c = []" using assms(1) by (auto simp: command_ok_def)
    have "subspan 16 4 (put_payload c) = put32 (length (rc_key c))"
        "take 16 (put_payload c) = rc_client_id c" "subspan 20 (length (rc_key c)) (put_payload c) = rc_key c"
        "length (put_payload c) = 20 + length (rc_key c)"
      using c(1) d by (simp_all add: put_payload_def subspan_def)
    then show ?thesis using assms c n d
      by (auto simp: decode_client_mutation_def mutation_type_def message_constants subspan_def)
  qed
qed

lemma decode_mutation_sound:
  assumes "decode_client_mutation f = Inr c"
  shows "command_ok c \<and> message_namespace f = ns_client \<and> message_type f = mutation_type c \<and>
    request_id f = rc_request_id c \<and> payload f = put_payload c"
proof (cases "message_type f = mt_put")
  case True
  define k v where "k = get32 16 (payload f)" and "v = get32 20 (payload f)"
  let ?p = "payload f"
  have a: "message_namespace f = ns_client" "request_id f \<noteq> 0" "length ?p = 24 + k + v" "valid_key_size k" "v \<le> kMaxValueSize"
      and c: "c = \<lparr>rc_operation = op_put, rc_client_id = take 16 ?p, rc_request_id = request_id f,
        rc_key = subspan 24 k ?p, rc_value = subspan (24 + k) v ?p\<rparr>"
    using assms True by (auto simp: decode_client_mutation_def Let_def k_def v_def split: if_splits)
  have "put32 k = subspan 16 4 ?p" "put32 v = subspan 20 4 ?p"
    using a(3) put_get32 [of 16 ?p] put_get32 [of 20 ?p] by (simp_all add: k_def v_def)
  moreover have "?p = subspan 0 16 ?p @ subspan 16 4 ?p @ subspan 20 4 ?p @ subspan 24 k ?p @ subspan (24 + k) v ?p"
    using a(3) by (simp add: subspan_join subspan_whole)
  ultimately have "?p = put_payload c" using a(3) by (simp add: put_payload_def c subspan_0)
  then show ?thesis using a True by (auto simp: command_ok_def c mutation_type_def)
next
  case False
  define k where "k = get32 16 (payload f)"
  let ?p = "payload f"
  have a: "message_namespace f = ns_client" "message_type f = mt_delete_key" "request_id f \<noteq> 0" "length ?p = 20 + k"
      "valid_key_size k"
      and c: "c = \<lparr>rc_operation = op_delete_key, rc_client_id = take 16 ?p, rc_request_id = request_id f,
        rc_key = subspan 20 k ?p, rc_value = subspan (20 + k) 0 ?p\<rparr>"
    using assms False by (auto simp: decode_client_mutation_def Let_def k_def split: if_splits)
  have "put32 k = subspan 16 4 ?p" using a(4) put_get32 [of 16 ?p] by (simp add: k_def)
  moreover have "?p = subspan 0 16 ?p @ subspan 16 4 ?p @ subspan 20 k ?p"
    using a(4) by (simp add: subspan_join subspan_whole)
  ultimately have "?p = put_payload c" using a(4) by (simp add: put_payload_def c subspan_0) (simp add: subspan_def)
  then show ?thesis using a by (auto simp: command_ok_def c mutation_type_def subspan_def)
qed

section \<open>Properties\<close>

definition sample_command :: ReplicatedCommand where
  "sample_command = \<lparr>rc_operation = op_put, rc_client_id = replicate 16 7, rc_request_id = 3, rc_key = [107],
     rc_value = [1, 2]\<rparr>"

lemma sample_command_ok: "command_ok sample_command"
  by (simp add: command_ok_def sample_command_def valid_key_size_def frame_constants)

text \<open>C29. The command codec is exact: a byte vector decodes to \<open>c\<close> exactly when \<open>c\<close> is well-formed and the
  vector is its encoding, so no two vectors stand for the same command; and every well-formed command has
  an encoding, which fits a log entry.\<close>

theorem command_codec_exact:
  "(decode_replicated_command bs = Inr c \<longleftrightarrow> command_ok c \<and> encode_replicated_command c = Inr bs) \<and>
   (command_ok c \<longrightarrow> (\<exists>out. encode_replicated_command c = Inr out \<and> length out \<le> kMaxRaftCommandSize))"
proof (intro conjI iffI impI)
  show "command_ok c" "encode_replicated_command c = Inr bs" if "decode_replicated_command bs = Inr c"
    using decode_command_sound [OF that] encode_command_ok by blast+
  show "decode_replicated_command bs = Inr c" if "command_ok c \<and> encode_replicated_command c = Inr bs"
    using that decode_command_bytes [of c] encode_command_ok [of c] by fastforce
  show "\<exists>out. encode_replicated_command c = Inr out \<and> length out \<le> kMaxRaftCommandSize" if "command_ok c"
    using encode_command_ok [OF that] command_size [OF that] by blast
qed

theorem command_codec_exact_witness:
  "\<exists>out. encode_replicated_command sample_command = Inr out \<and> decode_replicated_command out = Inr sample_command \<and>
     length out \<le> kMaxRaftCommandSize"
  using command_codec_exact [of _ sample_command] sample_command_ok by blast

text \<open>A client frame is taken as the mutation \<open>c\<close> exactly when it is a client frame of the right type
  whose payload is the client id, the lengths, the key and the value of a well-formed command, and \<open>c\<close>
  carries the request id of the frame.\<close>

theorem client_mutation_exact:
  "decode_client_mutation f = Inr c \<longleftrightarrow> command_ok c \<and> message_namespace f = ns_client \<and>
     message_type f = mutation_type c \<and> request_id f = rc_request_id c \<and> payload f = put_payload c"
  using decode_mutation_sound decode_mutation_complete by blast

text \<open>A client frame is taken as a read of \<open>key\<close> exactly when it is a client GET whose payload is the
  length of the key and the key, which is not empty and not over-long.\<close>

theorem client_get_exact:
  "decode_client_get f = Inr key \<longleftrightarrow> message_namespace f = ns_client \<and> message_type f = mt_get \<and>
     key \<noteq> [] \<and> length key \<le> kMaxKeySize \<and> payload f = put32 (length key) @ key"
proof
  let ?p = "payload f"
  assume d: "decode_client_get f = Inr key"
  define k where "k = unat (read_u32 (take 4 ?p))"
  have a: "message_namespace f = ns_client" "message_type f = mt_get" "4 \<le> length ?p" "valid_key_size k"
      "length ?p = 4 + k" "key = subspan 4 k ?p"
    using d by (auto simp: decode_client_get_def Let_def k_def split: if_splits)
  have "put32 k = take 4 ?p" using a(3) by (simp add: k_def write_read_u32)
  moreover have "?p = take 4 ?p @ subspan 4 k ?p" using a(5) by (simp add: subspan_def)
  moreover have "length key = k" using a(5,6) by simp
  moreover have "key \<noteq> []" using calculation(3) a(4) by (auto simp: valid_key_size_def)
  ultimately show "message_namespace f = ns_client \<and> message_type f = mt_get \<and>
     key \<noteq> [] \<and> length key \<le> kMaxKeySize \<and> ?p = put32 (length key) @ key"
    using a by (auto simp: valid_key_size_def)
next
  assume a: "message_namespace f = ns_client \<and> message_type f = mt_get \<and> key \<noteq> [] \<and>
    length key \<le> kMaxKeySize \<and> payload f = put32 (length key) @ key"
  then have "valid_key_size (length key)" by (simp add: valid_key_size_def)
  then show "decode_client_get f = Inr key"
    using a unat_key_size [of "length key"] by (simp add: decode_client_get_def subspan_def)
qed

end
