(* ===== verification/State_Machine.thy ===== *)
theory State_Machine
  imports Command_Codec "HOL-Library.AList" "HOL-Library.Multiset"
begin

text \<open>
  The replicated state machine (\<^verbatim>\<open>src/cluster/state_machine.cpp\<close>): the key-value table, and for every
  client the last command it had executed with its response, so that a retried command is answered from
  memory. The two \<^verbatim>\<open>std::unordered_map\<close> members are association lists with distinct keys: the order of
  the list is the iteration order, which the language leaves open, so every statement below holds for
  each. Shown here: the invariant that bounds the retained memory, execution exactly once of retried
  and reordered commands, and that replicas that hold the same maps stay in step.
\<close>

section \<open>Definitions\<close>

type_synonym ClientId = bytes

record DedupRecord =
  dr_request_id :: "64 word"
  dr_command :: bytes
  dr_response :: bytes

type_synonym KeyValueState = "(bytes \<times> bytes) list"
type_synonym DedupState = "(ClientId \<times> DedupRecord) list"

record SnapshotState =
  ss_values :: KeyValueState
  ss_clients :: DedupState

datatype MutationApplyStatus =
    mas_applied | mas_duplicate | mas_request_id_reuse | mas_stale_request | mas_capacity_exceeded

record MutationApplyResult =
  ar_status :: MutationApplyStatus
  ar_response :: bytes

definition kMaxDedupClients :: nat where "kMaxDedupClients = 1024"
definition kMaxDedupBytes :: nat where "kMaxDedupBytes = 64 * 1024 * 1024"

lemmas dedup_constants = kMaxDedupClients_def kMaxDedupBytes_def

record ReplicatedStateMachine =
  sm_max_clients :: nat
  sm_max_dedup_bytes :: nat
  sm_dedup_bytes :: nat
  sm_values :: KeyValueState
  sm_clients :: DedupState

definition new_state_machine :: "nat \<Rightarrow> nat \<Rightarrow> (std_exn, ReplicatedStateMachine) result" where
  "new_state_machine max_clients max_dedup_bytes =
     (if max_clients = 0 \<or> max_clients > kMaxDedupClients \<or>
         max_dedup_bytes = 0 \<or> max_dedup_bytes > kMaxDedupBytes
      then Inl (invalid_argument ''invalid deduplication retention limit'')
      else Inr \<lparr>sm_max_clients = max_clients, sm_max_dedup_bytes = max_dedup_bytes, sm_dedup_bytes = 0,
        sm_values = [], sm_clients = []\<rparr>)"

text \<open>The end of \<open>apply\<close>: the command is new. Execute it and retain its response.\<close>

definition execute_command ::
  "ReplicatedCommand \<Rightarrow> bytes \<Rightarrow> DedupRecord option \<Rightarrow> ReplicatedStateMachine \<Rightarrow>
   MutationApplyResult \<times> ReplicatedStateMachine" where
  "execute_command command canonical_command retained sm =
     (let response = (if rc_operation command = op_delete_key
            then [bool_byte (map_of (sm_values sm) (rc_key command) \<noteq> None)] else []);
          next_record = \<lparr>dr_request_id = rc_request_id command, dr_command = canonical_command,
            dr_response = response\<rparr>;
          retained_bytes = (case retained of None \<Rightarrow> 0
            | Some r \<Rightarrow> length (dr_command r) + length (dr_response r));
          next_bytes = length (dr_command next_record) + length (dr_response next_record);
          bytes_without_retained = sub64 (sm_dedup_bytes sm) retained_bytes
      in if next_bytes > sub64 (sm_max_dedup_bytes sm) bytes_without_retained
         then (\<lparr>ar_status = mas_capacity_exceeded, ar_response = []\<rparr>, sm)
         else
           (\<lparr>ar_status = mas_applied, ar_response = response\<rparr>,
            sm\<lparr>sm_values := (if rc_operation command = op_put
                 then AList.update (rc_key command) (rc_value command) (sm_values sm)
                 else AList.delete (rc_key command) (sm_values sm)),
               sm_clients := AList.update (rc_client_id command) next_record (sm_clients sm),
               sm_dedup_bytes := add64 bytes_without_retained next_bytes\<rparr>))"

definition sm_apply ::
  "ReplicatedCommand \<Rightarrow> bytes \<Rightarrow> ReplicatedStateMachine \<Rightarrow>
   (std_exn, MutationApplyResult \<times> ReplicatedStateMachine) result" where
  "sm_apply command canonical_command sm =
     bindE (encode_replicated_command command) (\<lambda>encoded.
       if encoded \<noteq> canonical_command then Inl (invalid_argument ''noncanonical replicated command'')
       else Inr
         (case map_of (sm_clients sm) (rc_client_id command) of
            Some retained \<Rightarrow>
              if rc_request_id command < dr_request_id retained
              then (\<lparr>ar_status = mas_stale_request, ar_response = []\<rparr>, sm)
              else if rc_request_id command = dr_request_id retained
              then if canonical_command \<noteq> dr_command retained
                   then (\<lparr>ar_status = mas_request_id_reuse, ar_response = []\<rparr>, sm)
                   else (\<lparr>ar_status = mas_duplicate, ar_response = dr_response retained\<rparr>, sm)
              else execute_command command canonical_command (Some retained) sm
          | None \<Rightarrow>
              if length (sm_clients sm) \<ge> sm_max_clients sm
              then (\<lparr>ar_status = mas_capacity_exceeded, ar_response = []\<rparr>, sm)
              else execute_command command canonical_command None sm))"

definition sm_find :: "bytes \<Rightarrow> ReplicatedStateMachine \<Rightarrow> bytes option" where
  "sm_find key sm = map_of (sm_values sm) key"

definition client_count :: "ReplicatedStateMachine \<Rightarrow> nat" where
  "client_count sm = length (sm_clients sm)"

definition sm_snapshot :: "ReplicatedStateMachine \<Rightarrow> SnapshotState" where
  "sm_snapshot sm = \<lparr>ss_values = sm_values sm, ss_clients = sm_clients sm\<rparr>"

definition validate_response :: "ReplicatedCommand \<Rightarrow> bytes \<Rightarrow> (std_exn, unit) result" where
  "validate_response command response =
     (if rc_operation command = op_put
      then if response \<noteq> [] then Inl (invalid_argument ''PUT deduplication result is not empty'') else Inr ()
      else if length response \<noteq> 1 \<or> response ! 0 \<noteq> 0 \<and> response ! 0 \<noteq> 1
      then Inl (invalid_argument ''DELETE deduplication result is invalid'')
      else Inr ())"

fun validate_values :: "KeyValueState \<Rightarrow> (std_exn, unit) result" where
  "validate_values [] = Inr ()"
| "validate_values ((key, v) # rest) =
     (if key = [] \<or> length key > kMaxKeySize \<or> length v > kMaxValueSize
      then Inl (invalid_argument ''snapshot contains invalid key/value state'')
      else validate_values rest)"

text \<open>The loop over the clients, with the bytes added up so far.\<close>

fun validate_clients :: "nat \<Rightarrow> nat \<Rightarrow> DedupState \<Rightarrow> (std_exn, nat) result" where
  "validate_clients max_dedup_bytes dedup_bytes [] = Inr dedup_bytes"
| "validate_clients max_dedup_bytes dedup_bytes ((client_id, r) # rest) =
     (let bad = Inl (invalid_argument ''snapshot contains invalid dedup record'');
          record_bytes = length (dr_command r) + length (dr_response r)
      in case decode_replicated_command (dr_command r) of
           Inl _ \<Rightarrow> bad
         | Inr command \<Rightarrow>
             if rc_client_id command \<noteq> client_id \<or> rc_request_id command \<noteq> dr_request_id r then bad
             else bindE (encode_replicated_command command) (\<lambda>encoded.
               if encoded \<noteq> dr_command r then bad
               else bindE (validate_response command (dr_response r)) (\<lambda>_.
                 if record_bytes > max_dedup_bytes - dedup_bytes
                 then Inl (invalid_argument ''snapshot exceeds deduplication byte limit'')
                 else validate_clients max_dedup_bytes (dedup_bytes + record_bytes) rest)))"

definition validate_snapshot_state :: "SnapshotState \<Rightarrow> nat \<Rightarrow> nat \<Rightarrow> (std_exn, nat) result" where
  "validate_snapshot_state st max_clients max_dedup_bytes =
     (if length (ss_clients st) > max_clients
      then Inl (invalid_argument ''snapshot exceeds deduplication client limit'')
      else bindE (validate_values (ss_values st)) (\<lambda>_. validate_clients max_dedup_bytes 0 (ss_clients st)))"

definition sm_restore :: "SnapshotState \<Rightarrow> ReplicatedStateMachine \<Rightarrow> (std_exn, ReplicatedStateMachine) result" where
  "sm_restore st sm =
     bindE (validate_snapshot_state st (sm_max_clients sm) (sm_max_dedup_bytes sm)) (\<lambda>dedup_bytes.
       Inr (sm\<lparr>sm_values := ss_values st, sm_clients := ss_clients st, sm_dedup_bytes := dedup_bytes\<rparr>))"

section \<open>The invariant\<close>

definition record_size :: "DedupRecord \<Rightarrow> nat" where
  "record_size r = length (dr_command r) + length (dr_response r)"

definition dedup_size :: "DedupState \<Rightarrow> nat" where
  "dedup_size cs = (\<Sum>(cid, r) \<leftarrow> cs. record_size r)"

definition response_ok :: "ReplicatedCommand \<Rightarrow> bytes \<Rightarrow> bool" where
  "response_ok c resp \<longleftrightarrow> (if rc_operation c = op_put then resp = [] else resp = [0] \<or> resp = [1])"

definition record_ok :: "ClientId \<Rightarrow> DedupRecord \<Rightarrow> bool" where
  "record_ok cid r \<longleftrightarrow> (\<exists>c. command_ok c \<and> rc_client_id c = cid \<and> rc_request_id c = dr_request_id r \<and>
     dr_command r = command_bytes c \<and> response_ok c (dr_response r))"

definition value_ok :: "bytes \<Rightarrow> bytes \<Rightarrow> bool" where
  "value_ok key v \<longleftrightarrow> valid_key_size (length key) \<and> length v \<le> kMaxValueSize"

definition limits_ok :: "ReplicatedStateMachine \<Rightarrow> bool" where
  "limits_ok sm \<longleftrightarrow> 0 < sm_max_clients sm \<and> sm_max_clients sm \<le> kMaxDedupClients \<and>
     0 < sm_max_dedup_bytes sm \<and> sm_max_dedup_bytes sm \<le> kMaxDedupBytes"

definition state_ok :: "KeyValueState \<Rightarrow> DedupState \<Rightarrow> bool" where
  "state_ok vals cs \<longleftrightarrow> distinct (map fst vals) \<and> distinct (map fst cs) \<and>
     (\<forall>(key, v) \<in> set vals. value_ok key v) \<and> (\<forall>(cid, r) \<in> set cs. record_ok cid r)"

definition sm_inv :: "ReplicatedStateMachine \<Rightarrow> bool" where
  "sm_inv sm \<longleftrightarrow> limits_ok sm \<and> state_ok (sm_values sm) (sm_clients sm) \<and>
     length (sm_clients sm) \<le> sm_max_clients sm \<and> sm_dedup_bytes sm = dedup_size (sm_clients sm) \<and>
     sm_dedup_bytes sm \<le> sm_max_dedup_bytes sm"

lemma dedup_size_simps [simp]:
  "dedup_size [] = 0" "dedup_size ((cid, r) # cs) = record_size r + dedup_size cs"
  by (simp_all add: dedup_size_def)

lemma dedup_size_update:
  "dedup_size (AList.update cid r cs) + (case map_of cs cid of None \<Rightarrow> 0 | Some old \<Rightarrow> record_size old) =
   dedup_size cs + record_size r"
  by (induction cs) auto

lemma dedup_size_member: "map_of cs cid = Some r \<Longrightarrow> record_size r \<le> dedup_size cs"
  by (induction cs) (auto split: if_splits)

lemma length_alist_update:
  "length (AList.update k v xs) = (if map_of xs k = None then Suc (length xs) else length xs)"
  by (induction xs) auto

lemma update_all: "\<forall>(k, v) \<in> set xs. P k v \<Longrightarrow> P k' v' \<Longrightarrow> \<forall>(k, v) \<in> set (AList.update k' v' xs). P k v"
  by (induction xs) auto

lemma delete_all: "\<forall>(k, v) \<in> set xs. P k v \<Longrightarrow> \<forall>(k, v) \<in> set (AList.delete k' xs). P k v"
  by (auto simp: AList.delete_eq)

lemma dedup_less_2_64: "n \<le> kMaxDedupBytes \<Longrightarrow> n < 2 ^ 64"
  by (simp add: kMaxDedupBytes_def)

text \<open>What execution of a new command leaves, with the arithmetic of the byte counter resolved.\<close>

definition new_response :: "(bytes \<rightharpoonup> bytes) \<Rightarrow> ReplicatedCommand \<Rightarrow> bytes" where
  "new_response vals c = (if rc_operation c = op_delete_key then [bool_byte (vals (rc_key c) \<noteq> None)] else [])"

definition new_record :: "(bytes \<rightharpoonup> bytes) \<Rightarrow> ReplicatedCommand \<Rightarrow> DedupRecord" where
  "new_record vals c = \<lparr>dr_request_id = rc_request_id c, dr_command = command_bytes c,
     dr_response = new_response vals c\<rparr>"

definition executed_state :: "ReplicatedCommand \<Rightarrow> ReplicatedStateMachine \<Rightarrow> ReplicatedStateMachine" where
  "executed_state c sm =
     (let cs = AList.update (rc_client_id c) (new_record (map_of (sm_values sm)) c) (sm_clients sm)
      in sm\<lparr>sm_values := (if rc_operation c = op_put then AList.update (rc_key c) (rc_value c) (sm_values sm)
              else AList.delete (rc_key c) (sm_values sm)),
            sm_clients := cs, sm_dedup_bytes := dedup_size cs\<rparr>)"

definition fits :: "ReplicatedCommand \<Rightarrow> ReplicatedStateMachine \<Rightarrow> bool" where
  "fits c sm \<longleftrightarrow> dedup_size (AList.update (rc_client_id c) (new_record (map_of (sm_values sm)) c) (sm_clients sm))
     \<le> sm_max_dedup_bytes sm"

lemma execute_command_eq:
  assumes "sm_inv sm" and "retained = map_of (sm_clients sm) (rc_client_id c)"
  shows "execute_command c (command_bytes c) retained sm =
    (if fits c sm then (\<lparr>ar_status = mas_applied, ar_response = new_response (map_of (sm_values sm)) c\<rparr>, executed_state c sm)
     else (\<lparr>ar_status = mas_capacity_exceeded, ar_response = []\<rparr>, sm))"
proof -
  define r where "r = new_record (map_of (sm_values sm)) c"
  define old where "old = (case retained of None \<Rightarrow> 0 | Some r \<Rightarrow> record_size r)"
  define d where "d = dedup_size (sm_clients sm)"
  have b: "sm_dedup_bytes sm = d" "d \<le> sm_max_dedup_bytes sm" "sm_max_dedup_bytes sm < 2 ^ 64"
    using assms(1) dedup_less_2_64 by (auto simp: sm_inv_def limits_ok_def d_def)
  have old: "old \<le> d" using dedup_size_member assms(2) by (auto simp: old_def d_def split: option.split)
  have upd: "dedup_size (AList.update (rc_client_id c) r (sm_clients sm)) = d - old + record_size r"
    using dedup_size_update [of "rc_client_id c" r "sm_clients sm"] old assms(2) by (simp add: old_def d_def)
  have s: "sub64 d old = d - old" using b old by simp
  have t: "sub64 (sm_max_dedup_bytes sm) (d - old) = sm_max_dedup_bytes sm - (d - old)" using b by simp
  have f: "fits c sm \<longleftrightarrow> record_size r \<le> sm_max_dedup_bytes sm - (d - old)"
    using b(2) upd by (auto simp: fits_def r_def)
  have a: "add64 (d - old) (record_size r) = dedup_size (AList.update (rc_client_id c) r (sm_clients sm))"
    if "fits c sm" using that b upd by (simp add: fits_def r_def add64_def)
  have o: "(case retained of None \<Rightarrow> 0 | Some r \<Rightarrow> length (dr_command r) + length (dr_response r)) = old"
    by (cases retained) (simp_all add: old_def record_size_def)
  show ?thesis
    using f a
    by (auto simp: execute_command_def Let_def o b(1) s t executed_state_def r_def new_record_def record_size_def
      new_response_def)
qed

text \<open>One application of a well-formed command, over the maps.\<close>

lemma sm_apply_eq:
  assumes "sm_inv sm" and "command_ok c"
  shows "sm_apply c (command_bytes c) sm = Inr
    (case map_of (sm_clients sm) (rc_client_id c) of
       Some old \<Rightarrow>
         if rc_request_id c < dr_request_id old then (\<lparr>ar_status = mas_stale_request, ar_response = []\<rparr>, sm)
         else if rc_request_id c = dr_request_id old
         then if command_bytes c \<noteq> dr_command old
              then (\<lparr>ar_status = mas_request_id_reuse, ar_response = []\<rparr>, sm)
              else (\<lparr>ar_status = mas_duplicate, ar_response = dr_response old\<rparr>, sm)
         else if fits c sm
         then (\<lparr>ar_status = mas_applied, ar_response = new_response (map_of (sm_values sm)) c\<rparr>, executed_state c sm)
         else (\<lparr>ar_status = mas_capacity_exceeded, ar_response = []\<rparr>, sm)
     | None \<Rightarrow>
         if length (sm_clients sm) < sm_max_clients sm \<and> fits c sm
         then (\<lparr>ar_status = mas_applied, ar_response = new_response (map_of (sm_values sm)) c\<rparr>, executed_state c sm)
         else (\<lparr>ar_status = mas_capacity_exceeded, ar_response = []\<rparr>, sm))"
  using execute_command_eq [OF assms(1) refl, of c] encode_command_ok [OF assms(2)]
  by (cases "map_of (sm_clients sm) (rc_client_id c)") (simp_all add: sm_apply_def)

lemma new_record_ok: "command_ok c \<Longrightarrow> record_ok (rc_client_id c) (new_record vals c)"
  unfolding record_ok_def
  by (rule exI [of _ c]) (auto simp: new_record_def new_response_def response_ok_def command_ok_def bool_byte_def)

lemma executed_state_inv:
  assumes "sm_inv sm" and "command_ok c" and "fits c sm"
    and "map_of (sm_clients sm) (rc_client_id c) = None \<Longrightarrow> length (sm_clients sm) < sm_max_clients sm"
  shows "sm_inv (executed_state c sm)"
proof -
  let ?cs = "AList.update (rc_client_id c) (new_record (map_of (sm_values sm)) c) (sm_clients sm)"
  have ok: "distinct (map fst (sm_values sm))" "distinct (map fst (sm_clients sm))"
      "\<forall>(key, v) \<in> set (sm_values sm). value_ok key v" "\<forall>(cid, r) \<in> set (sm_clients sm). record_ok cid r"
    using assms(1) by (simp_all add: sm_inv_def state_ok_def)
  have v: "value_ok (rc_key c) (rc_value c)" using assms(2) by (simp add: command_ok_def value_ok_def)
  have "\<forall>(cid, r) \<in> set ?cs. record_ok cid r" using update_all [OF ok(4)] new_record_ok [OF assms(2)] by blast
  moreover have "\<forall>(key, v) \<in> set (AList.update (rc_key c) (rc_value c) (sm_values sm)). value_ok key v"
    by (rule update_all [OF ok(3) v])
  moreover have "\<forall>(key, v) \<in> set (AList.delete (rc_key c) (sm_values sm)). value_ok key v"
    by (rule delete_all [OF ok(3)])
  ultimately have "state_ok (sm_values (executed_state c sm)) (sm_clients (executed_state c sm))"
    using ok(1,2) by (simp add: state_ok_def executed_state_def Let_def AList.distinct_update AList.distinct_delete)
  moreover have "length ?cs \<le> sm_max_clients sm"
    using assms(1,4) by (cases "map_of (sm_clients sm) (rc_client_id c)") (auto simp: length_alist_update sm_inv_def)
  ultimately show ?thesis
    using assms(1,3) by (simp add: sm_inv_def executed_state_def Let_def limits_ok_def fits_def)
qed

text \<open>Case analysis of one application.\<close>

lemma sm_apply_cases:
  assumes "sm_inv sm" and "command_ok c" and "sm_apply c bs sm = Inr (r, sm')"
  obtains (refused) "bs = command_bytes c" "sm' = sm" "ar_status r \<noteq> mas_applied" "ar_status r \<noteq> mas_duplicate" "ar_response r = []"
  | (retried) "bs = command_bytes c" "sm' = sm" "ar_status r = mas_duplicate"
      "map_of (sm_clients sm) (rc_client_id c) =
         Some \<lparr>dr_request_id = rc_request_id c, dr_command = command_bytes c, dr_response = ar_response r\<rparr>"
  | (executed) "bs = command_bytes c" "sm' = executed_state c sm" "sm_inv sm'" "fits c sm"
      "r = \<lparr>ar_status = mas_applied, ar_response = new_response (map_of (sm_values sm)) c\<rparr>"
      "\<forall>old. map_of (sm_clients sm) (rc_client_id c) = Some old \<longrightarrow> dr_request_id old < rc_request_id c"
proof -
  have bs: "bs = command_bytes c"
    using assms(3) by (auto simp: sm_apply_def encode_command_ok [OF assms(2)] split: if_splits)
  note eq = sm_apply_eq [OF assms(1,2)] assms(3) [unfolded bs]
  show thesis
  proof (cases "map_of (sm_clients sm) (rc_client_id c)")
    case None
    then have "length (sm_clients sm) < sm_max_clients sm \<and> fits c sm \<and> r = \<lparr>ar_status = mas_applied, ar_response = new_response (map_of (sm_values sm)) c\<rparr> \<and>
        sm' = executed_state c sm \<or> r = \<lparr>ar_status = mas_capacity_exceeded, ar_response = []\<rparr> \<and> sm' = sm"
      using eq by (auto split: if_splits)
    then show thesis using refused executed executed_state_inv [OF assms(1,2)] None bs by fastforce
  next
    case (Some old)
    consider (no) "sm' = sm" "ar_status r \<noteq> mas_applied" "ar_status r \<noteq> mas_duplicate" "ar_response r = []"
      | (dup) "sm' = sm" "r = \<lparr>ar_status = mas_duplicate, ar_response = dr_response old\<rparr>"
          "rc_request_id c = dr_request_id old" "command_bytes c = dr_command old"
      | (new) "r = \<lparr>ar_status = mas_applied, ar_response = new_response (map_of (sm_values sm)) c\<rparr>"
          "sm' = executed_state c sm" "fits c sm" "dr_request_id old < rc_request_id c"
      using eq(2) unfolding eq(1) Some by (auto simp: not_less le_less split: if_splits)
    then show thesis
    proof cases
      case no then show thesis using refused bs by blast
    next
      case dup then show thesis using retried bs Some by (cases old) simp
    next
      case new
      then have "sm_inv sm'" using executed_state_inv [OF assms(1,2)] Some by simp
      then show thesis using executed new bs Some by simp
    qed
  qed
qed

lemma sm_apply_inv:
  assumes "sm_inv sm" and "command_ok c" and "sm_apply c bs sm = Inr (r, sm')"
  shows "sm_inv sm'"
  using assms by (cases rule: sm_apply_cases [OF assms]) auto

section \<open>Histories\<close>

type_synonym history = "(ReplicatedCommand \<times> MutationApplyResult) list"

text \<open>The commands that changed the machine, and the last one of a client with its answer.\<close>

definition executed :: "history \<Rightarrow> ReplicatedCommand list" where
  "executed h = map fst (filter (\<lambda>(c, r). ar_status r = mas_applied) h)"

definition last_executed :: "history \<Rightarrow> ClientId \<Rightarrow> (ReplicatedCommand \<times> MutationApplyResult) option" where
  "last_executed h cid = find (\<lambda>(c, r). ar_status r = mas_applied \<and> rc_client_id c = cid) (rev h)"

definition exec :: "(bytes \<rightharpoonup> bytes) \<Rightarrow> ReplicatedCommand \<Rightarrow> (bytes \<rightharpoonup> bytes)" where
  "exec vals c = (if rc_operation c = op_put then vals(rc_key c \<mapsto> rc_value c) else vals(rc_key c := None))"

text \<open>The commands of a log, as the node hands them over: decoded from the entry and applied with it.\<close>

inductive sm_run :: "ReplicatedStateMachine \<Rightarrow> history \<Rightarrow> ReplicatedStateMachine \<Rightarrow> bool" for sm0 where
  start: "sm_run sm0 [] sm0"
| snoc: "sm_run sm0 h sm \<Longrightarrow> decode_replicated_command bs = Inr c \<Longrightarrow> sm_apply c bs sm = Inr (r, sm') \<Longrightarrow>
    sm_run sm0 (h @ [(c, r)]) sm'"

lemma executed_simps [simp]:
  "executed [] = []"
  "executed (h @ [(c, r)]) = (if ar_status r = mas_applied then executed h @ [c] else executed h)"
  by (simp_all add: executed_def)

lemma last_executed_simps [simp]:
  "last_executed [] cid = None"
  "last_executed (h @ [(c, r)]) cid =
     (if ar_status r = mas_applied \<and> rc_client_id c = cid then Some (c, r) else last_executed h cid)"
  by (simp_all add: last_executed_def)

lemma last_executed_in:
  "last_executed h cid = Some (c, r) \<Longrightarrow> (c, r) \<in> set h \<and> ar_status r = mas_applied \<and> rc_client_id c = cid"
proof -
  assume "last_executed h cid = Some (c, r)"
  then obtain i where i: "i < length (rev h)" "ar_status r = mas_applied \<and> rc_client_id c = cid" "(c, r) = rev h ! i"
    by (auto simp: last_executed_def find_Some_iff)
  then have "(c, r) \<in> set (rev h)" by (metis nth_mem)
  then show ?thesis using i(2) by simp
qed

text \<open>The machine is the summary of its history.\<close>

definition summary :: "ReplicatedCommand \<times> MutationApplyResult \<Rightarrow> DedupRecord" where
  "summary = (\<lambda>(c, r). \<lparr>dr_request_id = rc_request_id c, dr_command = command_bytes c, dr_response = ar_response r\<rparr>)"

definition ids_of :: "ClientId \<Rightarrow> ReplicatedCommand list \<Rightarrow> 64 word list" where
  "ids_of cid cs = map rc_request_id (filter (\<lambda>c. rc_client_id c = cid) cs)"

definition tracks :: "history \<Rightarrow> ReplicatedStateMachine \<Rightarrow> bool" where
  "tracks h sm \<longleftrightarrow> sm_inv sm \<and> map_of (sm_values sm) = foldl exec Map.empty (executed h) \<and>
     (\<forall>cid. map_of (sm_clients sm) cid = map_option summary (last_executed h cid)) \<and>
     (\<forall>cid. sorted_wrt (<) (ids_of cid (executed h)) \<and>
        (\<forall>i \<in> set (ids_of cid (executed h)). \<exists>c r. last_executed h cid = Some (c, r) \<and> i \<le> rc_request_id c)) \<and>
     (\<forall>(c, r) \<in> set h. command_ok c)"

lemma executed_state_maps:
  "map_of (sm_values (executed_state c sm)) = exec (map_of (sm_values sm)) c"
  "map_of (sm_clients (executed_state c sm)) =
     (map_of (sm_clients sm))(rc_client_id c \<mapsto> new_record (map_of (sm_values sm)) c)"
  by (simp_all add: executed_state_def Let_def exec_def update_conv' delete_conv')

lemma command_bytes_inject:
  "command_ok c \<Longrightarrow> command_ok c' \<Longrightarrow> command_bytes c = command_bytes c' \<longleftrightarrow> c = c'"
  using decode_command_bytes by (metis sum.inject(2))

lemma tracks_snoc:
  assumes "tracks h sm" and "command_ok c" and "sm_apply c bs sm = Inr (r, sm')"
  shows "tracks (h @ [(c, r)]) sm'"
proof -
  have inv: "sm_inv sm" and cl: "\<And>cid. map_of (sm_clients sm) cid = map_option summary (last_executed h cid)"
      and ids: "\<And>cid. sorted_wrt (<) (ids_of cid (executed h))"
      "\<And>cid i. i \<in> set (ids_of cid (executed h)) \<Longrightarrow> \<exists>c r. last_executed h cid = Some (c, r) \<and> i \<le> rc_request_id c"
    using assms(1) by (auto simp: tracks_def)
  from inv assms(2,3) show ?thesis
  proof (cases rule: sm_apply_cases)
    case executed
    let ?cid = "rc_client_id c"
    have "summary (c, r) = new_record (map_of (sm_values sm)) c" by (simp add: summary_def new_record_def executed(5))
    then have maps: "map_of (sm_clients sm') cid = map_option summary (last_executed (h @ [(c, r)]) cid)" for cid
      using executed cl by (simp add: executed_state_maps)
    have below: "i < rc_request_id c" if i: "i \<in> set (ids_of ?cid (executed h))" for i
    proof -
      obtain c0 r0 where "last_executed h ?cid = Some (c0, r0)" "i \<le> rc_request_id c0" using ids(2) [OF i] by blast
      then show ?thesis using executed(6) cl [of ?cid] by (auto simp: summary_def)
    qed
    have "sorted_wrt (<) (ids_of cid (executed (h @ [(c, r)])))" for cid
      using ids(1) [of cid] below executed(5) by (auto simp: ids_of_def sorted_wrt_append)
    moreover have "\<exists>c' r'. last_executed (h @ [(c, r)]) cid = Some (c', r') \<and> i \<le> rc_request_id c'"
      if "i \<in> set (ids_of cid (executed (h @ [(c, r)])))" for cid i
      using that ids(2) [of i cid] below [of i] executed(5) by (auto simp: ids_of_def intro: less_imp_le)
    moreover have "map_of (sm_values sm') = foldl exec Map.empty (executed (h @ [(c, r)]))"
      using assms(1) executed(2,5) by (simp add: tracks_def executed_state_maps)
    moreover have "\<forall>(c, r) \<in> set (h @ [(c, r)]). command_ok c" using assms(1,2) by (simp add: tracks_def)
    ultimately show ?thesis unfolding tracks_def using executed(3) maps by (intro conjI allI ballI) blast+
  qed (use assms(1,2) in \<open>auto simp: tracks_def\<close>)
qed

lemma new_state_machine_inv:
  "new_state_machine mc mb = Inr sm \<Longrightarrow> sm_inv sm \<and> sm_values sm = [] \<and> sm_clients sm = []"
  by (auto simp: new_state_machine_def sm_inv_def limits_ok_def state_ok_def split: if_splits)

lemma run_tracks:
  assumes "sm_run sm0 h sm" and "new_state_machine mc mb = Inr sm0"
  shows "tracks h sm"
  using assms(1)
proof induction
  case start
  then show ?case using new_state_machine_inv [OF assms(2)] by (simp add: tracks_def ids_of_def)
next
  case (snoc h sm bs c r sm')
  then show ?case using tracks_snoc decode_command_sound(1) by blast
qed

text \<open>A repeated answer is the answer of the execution it repeats.\<close>

lemma run_duplicate:
  assumes "sm_run sm0 h sm" and "new_state_machine mc mb = Inr sm0" and "i < length h" and "h ! i = (c, r)"
    and "ar_status r = mas_duplicate"
  shows "\<exists>j < i. \<exists>r0. h ! j = (c, r0) \<and> ar_status r0 = mas_applied \<and> ar_response r0 = ar_response r"
  using assms(1,3,4)
proof (induction arbitrary: i)
  case (snoc h sm bs c1 r1 sm')
  show ?case
  proof (cases "i < length h")
    case True
    then have "h ! i = (c, r)" using snoc.prems(2) by (simp add: nth_append)
    then obtain j r0 where "j < i" "h ! j = (c, r0)" "ar_status r0 = mas_applied" "ar_response r0 = ar_response r"
      using snoc.IH [OF True] by blast
    then show ?thesis using True by (intro exI [of _ j]) (simp add: nth_append)
  next
    case False
    then have [simp]: "i = length h" "c1 = c" "r1 = r" using snoc.prems by (auto simp: nth_append)
    have t: "tracks h sm" by (rule run_tracks [OF snoc.hyps(1) assms(2)])
    then have inv: "sm_inv sm" and cl: "map_of (sm_clients sm) (rc_client_id c) = map_option summary (last_executed h (rc_client_id c))"
        and ok: "\<And>c r. (c, r) \<in> set h \<Longrightarrow> command_ok c"
      unfolding tracks_def by blast+
    have c: "command_ok c" using decode_command_sound(1) [OF snoc.hyps(2)] by simp
    have "map_of (sm_clients sm) (rc_client_id c) =
        Some \<lparr>dr_request_id = rc_request_id c, dr_command = command_bytes c, dr_response = ar_response r\<rparr>"
      by (rule sm_apply_cases [OF inv c, of bs r sm']) (use snoc.hyps(3) assms(5) in simp_all)
    then obtain c0 r0 where l: "last_executed h (rc_client_id c) = Some (c0, r0)"
        "command_bytes c0 = command_bytes c" "ar_response r0 = ar_response r"
      using cl by (auto simp: summary_def)
    then have h0: "(c0, r0) \<in> set h" "ar_status r0 = mas_applied" using last_executed_in by blast+
    then have "c0 = c" using command_bytes_inject [OF ok c] l(2) by blast
    moreover obtain j where "j < length h" "h ! j = (c0, r0)" using h0(1) by (auto simp: in_set_conv_nth)
    ultimately show ?thesis using h0(2) l(3) by (intro exI [of _ j]) (simp add: nth_append)
  qed
qed simp

section \<open>Replicas in step\<close>

text \<open>Two machines with the same limits and the same maps: the order of the lists may differ.\<close>

definition same_state :: "ReplicatedStateMachine \<Rightarrow> ReplicatedStateMachine \<Rightarrow> bool" where
  "same_state a b \<longleftrightarrow> sm_max_clients a = sm_max_clients b \<and> sm_max_dedup_bytes a = sm_max_dedup_bytes b \<and>
     map_of (sm_values a) = map_of (sm_values b) \<and> map_of (sm_clients a) = map_of (sm_clients b)"

lemma map_of_mset:
  "distinct (map fst xs) \<Longrightarrow> distinct (map fst ys) \<Longrightarrow> map_of xs = map_of ys \<Longrightarrow> mset xs = mset ys"
  by (metis distinct_map map_of_inject_set set_eq_iff_mset_eq_distinct)

lemma dedup_size_mset: "mset xs = mset ys \<Longrightarrow> dedup_size xs = dedup_size ys"
  unfolding dedup_size_def by (metis mset_map sum_mset_sum_list)

lemma same_clients:
  assumes "sm_inv a" and "sm_inv b" and "same_state a b"
  shows "length (sm_clients a) = length (sm_clients b)" and "dedup_size (sm_clients a) = dedup_size (sm_clients b)"
proof -
  have "mset (sm_clients a) = mset (sm_clients b)"
    using assms by (intro map_of_mset) (auto simp: sm_inv_def state_ok_def same_state_def)
  then show "length (sm_clients a) = length (sm_clients b)" "dedup_size (sm_clients a) = dedup_size (sm_clients b)"
    by (auto dest: mset_eq_length dedup_size_mset)
qed

lemma same_fits:
  assumes "sm_inv a" and "sm_inv b" and "same_state a b"
  shows "fits c a \<longleftrightarrow> fits c b"
proof -
  let ?r = "new_record (map_of (sm_values a)) c" and ?cid = "rc_client_id c"
  have "dedup_size (AList.update ?cid ?r (sm_clients a)) = dedup_size (AList.update ?cid ?r (sm_clients b))"
    using dedup_size_update [of ?cid ?r "sm_clients a"] dedup_size_update [of ?cid ?r "sm_clients b"]
      same_clients(2) [OF assms] assms(3) by (simp add: same_state_def)
  then show ?thesis using assms(3) by (simp add: fits_def same_state_def)
qed

lemma same_executed: "same_state a b \<Longrightarrow> same_state (executed_state c a) (executed_state c b)"
  by (simp add: same_state_def executed_state_maps) (simp add: executed_state_def Let_def)

lemma same_apply:
  assumes "sm_inv a" and "sm_inv b" and "same_state a b" and "command_ok c" and "sm_apply c bs a = Inr (r, a')"
  obtains b' where "sm_apply c bs b = Inr (r, b')" and "same_state a' b'" and "sm_inv a'" and "sm_inv b'"
proof -
  have bs: "bs = command_bytes c"
    using assms(5) by (auto simp: sm_apply_def encode_command_ok [OF assms(4)] split: if_splits)
  have m: "map_of (sm_clients b) = map_of (sm_clients a)" "map_of (sm_values b) = map_of (sm_values a)"
      "sm_max_clients b = sm_max_clients a" "length (sm_clients b) = length (sm_clients a)" "fits c b = fits c a"
    using assms(3) same_clients(1) [OF assms(1-3)] same_fits [OF assms(1-3)] by (simp_all add: same_state_def)
  have e: "same_state (executed_state c a) (executed_state c b)" by (rule same_executed [OF assms(3)])
  have "\<exists>b'. sm_apply c bs b = Inr (r, b') \<and> same_state a' b'"
    using assms(3,5) e unfolding bs sm_apply_eq [OF assms(1,4)] sm_apply_eq [OF assms(2,4)] m
    by (cases "map_of (sm_clients a) (rc_client_id c)") (auto split: if_splits)
  then show thesis using that sm_apply_inv assms by blast
qed

section \<open>Restoring a snapshot\<close>

lemma validate_values_iff: "validate_values vs = Inr () \<longleftrightarrow> (\<forall>(k, v) \<in> set vs. value_ok k v)"
  by (induction vs rule: validate_values.induct) (auto simp: value_ok_def valid_key_size_def)

lemma validate_response_iff: "validate_response c resp = Inr () \<longleftrightarrow> response_ok c resp"
  by (cases resp) (auto simp: validate_response_def response_ok_def)

lemma record_ok_decoded:
  "record_ok cid r \<longleftrightarrow> (\<exists>c. decode_replicated_command (dr_command r) = Inr c \<and> rc_client_id c = cid \<and>
     rc_request_id c = dr_request_id r \<and> response_ok c (dr_response r))"
proof
  assume "record_ok cid r"
  then show "\<exists>c. decode_replicated_command (dr_command r) = Inr c \<and> rc_client_id c = cid \<and>
     rc_request_id c = dr_request_id r \<and> response_ok c (dr_response r)"
    using decode_command_bytes by (auto simp: record_ok_def)
next
  assume "\<exists>c. decode_replicated_command (dr_command r) = Inr c \<and> rc_client_id c = cid \<and>
     rc_request_id c = dr_request_id r \<and> response_ok c (dr_response r)"
  then show "record_ok cid r" unfolding record_ok_def using decode_command_sound by blast
qed

lemma validate_clients_iff:
  "n \<le> mb \<Longrightarrow> validate_clients mb n cs = Inr m \<longleftrightarrow>
     (\<forall>(cid, r) \<in> set cs. record_ok cid r) \<and> m = n + dedup_size cs \<and> m \<le> mb"
proof (induction cs arbitrary: n)
  case (Cons cr cs)
  obtain cid r where cr: "cr = (cid, r)" by fastforce
  show ?case
  proof (cases "record_ok cid r \<and> n + record_size r \<le> mb")
    case True
    then obtain c where c: "decode_replicated_command (dr_command r) = Inr c" "rc_client_id c = cid"
        "rc_request_id c = dr_request_id r" "response_ok c (dr_response r)" by (auto simp: record_ok_decoded)
    have "encode_replicated_command c = Inr (dr_command r)"
      using decode_command_sound [OF c(1)] encode_command_ok by simp
    moreover have "validate_response c (dr_response r) = Inr ()" using c(4) validate_response_iff by blast
    ultimately have "validate_clients mb n (cr # cs) = validate_clients mb (n + record_size r) cs"
      using c True by (auto simp: cr Let_def record_size_def)
    then show ?thesis using Cons.IH [of "n + record_size r"] True cr by auto
  next
    case False
    have "validate_clients mb n (cr # cs) \<noteq> Inr m"
    proof
      assume v: "validate_clients mb n (cr # cs) = Inr m"
      then obtain c where "decode_replicated_command (dr_command r) = Inr c" "rc_client_id c = cid"
          "rc_request_id c = dr_request_id r" "validate_response c (dr_response r) = Inr ()"
          "\<not> record_size r > mb - n"
        by (auto simp: cr Let_def record_size_def bindE_eq_Inr split: sum.splits if_splits)
      then show False
        using False Cons.prems validate_response_iff record_ok_decoded by fastforce
    qed
    moreover have "\<not> ((\<forall>(cid, r) \<in> set (cr # cs). record_ok cid r) \<and> m = n + dedup_size (cr # cs) \<and> m \<le> mb)"
      using False cr by auto
    ultimately show ?thesis by blast
  qed
qed auto

lemma sm_restore_iff:
  "sm_restore st sm = Inr sm' \<longleftrightarrow> length (ss_clients st) \<le> sm_max_clients sm \<and>
     (\<forall>(k, v) \<in> set (ss_values st). value_ok k v) \<and> (\<forall>(cid, r) \<in> set (ss_clients st). record_ok cid r) \<and>
     dedup_size (ss_clients st) \<le> sm_max_dedup_bytes sm \<and>
     sm' = sm\<lparr>sm_values := ss_values st, sm_clients := ss_clients st, sm_dedup_bytes := dedup_size (ss_clients st)\<rparr>"
proof -
  have v: "validate_values (ss_values st) = Inr x \<longleftrightarrow> (\<forall>(k, v) \<in> set (ss_values st). value_ok k v)" for x
    using validate_values_iff [of "ss_values st"] by simp
  show ?thesis
    using validate_clients_iff [of 0 "sm_max_dedup_bytes sm" "ss_clients st"]
    by (auto simp: sm_restore_def validate_snapshot_state_def bindE_eq_Inr v not_less)
qed

lemma sm_restore_inv:
  assumes "sm_restore st sm = Inr sm'" and "limits_ok sm"
    and "distinct (map fst (ss_values st))" and "distinct (map fst (ss_clients st))"
  shows "sm_inv sm'"
  using assms by (auto simp: sm_restore_iff sm_inv_def limits_ok_def state_ok_def)

lemma sm_restore_snapshot:
  assumes "sm_inv sm" and "sm_max_clients sm0 = sm_max_clients sm" and "sm_max_dedup_bytes sm0 = sm_max_dedup_bytes sm"
  shows "sm_restore (sm_snapshot sm) sm0 = Inr sm"
  using assms by (cases sm; cases sm0) (auto simp: sm_restore_iff sm_inv_def state_ok_def sm_snapshot_def)

section \<open>Properties\<close>

text \<open>C5. Exactly once. Whatever commands the log holds, repeated and in any order of request ids, the
  table is the result of executing in order the commands that were answered as applied; the request ids
  that a client had executed are strictly increasing, so none is executed twice; and an answer marked as
  a duplicate repeats the response of the earlier execution of the very same command.\<close>

theorem sm_exactly_once:
  assumes "new_state_machine mc mb = Inr sm0" and "sm_run sm0 h sm"
  shows "(\<forall>key. sm_find key sm = foldl exec Map.empty (executed h) key) \<and>
    (\<forall>cid. sorted_wrt (<) (ids_of cid (executed h))) \<and>
    (\<forall>i c r. i < length h \<and> h ! i = (c, r) \<and> ar_status r = mas_duplicate \<longrightarrow>
       (\<exists>j < i. \<exists>r0. h ! j = (c, r0) \<and> ar_status r0 = mas_applied \<and> ar_response r0 = ar_response r))"
proof (intro conjI allI impI)
  show "sm_find key sm = foldl exec Map.empty (executed h) key" "sorted_wrt (<) (ids_of cid (executed h))" for key cid
    using run_tracks [OF assms(2,1)] unfolding tracks_def sm_find_def by auto
  show "\<exists>j < i. \<exists>r0. h ! j = (c, r0) \<and> ar_status r0 = mas_applied \<and> ar_response r0 = ar_response r"
    if "i < length h \<and> h ! i = (c, r) \<and> ar_status r = mas_duplicate" for i c r
    by (rule run_duplicate [OF assms(2,1)]) (use that in blast)+
qed

definition sample_machine :: ReplicatedStateMachine where
  "sample_machine = \<lparr>sm_max_clients = 2, sm_max_dedup_bytes = 100, sm_dedup_bytes = 0, sm_values = [], sm_clients = []\<rparr>"

lemma sample_machine_new: "new_state_machine 2 100 = Inr sample_machine"
  by (simp add: new_state_machine_def sample_machine_def dedup_constants)

lemma sample_machine_inv: "sm_inv sample_machine"
  using new_state_machine_inv [OF sample_machine_new] by blast

lemma sample_executed:
  "sm_apply sample_command (command_bytes sample_command) sample_machine =
     Inr (\<lparr>ar_status = mas_applied, ar_response = []\<rparr>, executed_state sample_command sample_machine)"
  by (simp add: sm_apply_eq [OF sample_machine_inv sample_command_ok])
     (simp add: sample_machine_def fits_def new_record_def new_response_def record_size_def sample_command_def)

theorem sm_exactly_once_witness:
  "\<exists>h sm. sm_run sample_machine h sm \<and> executed h = [sample_command] \<and>
     (\<forall>key. sm_find key sm = foldl exec Map.empty (executed h) key)"
proof -
  let ?h = "[(sample_command, \<lparr>ar_status = mas_applied, ar_response = []\<rparr>)]"
  have run: "sm_run sample_machine ([] @ ?h) (executed_state sample_command sample_machine)"
    using sm_run.snoc [OF sm_run.start decode_command_bytes [OF sample_command_ok] sample_executed] by simp
  have "executed ([] @ ?h) = [sample_command]" by (simp add: executed_def)
  then show ?thesis using sm_exactly_once [OF sample_machine_new run] run by blast
qed





text \<open>C32. The retained memory is bounded: along any run, started from a new machine, there are never more
  clients than configured, the byte counter is the exact size of the retained commands and responses, and
  it stays within the limit.\<close>

theorem sm_memory_bounded:
  assumes "new_state_machine mc mb = Inr sm0" and "sm_run sm0 h sm"
  shows "client_count sm \<le> mc \<and> sm_dedup_bytes sm \<le> mb \<and>
    sm_dedup_bytes sm = (\<Sum>(cid, r) \<leftarrow> sm_clients sm. length (dr_command r) + length (dr_response r))"
proof -
  have "sm_max_clients sm = mc \<and> sm_max_dedup_bytes sm = mb"
    using assms(2)
  proof induction
    case start
    then show ?case using assms(1) by (auto simp: new_state_machine_def split: if_splits)
  next
    case (snoc h sm bs c r sm')
    have "sm_inv sm" using run_tracks [OF snoc.hyps(1) assms(1)] by (simp add: tracks_def)
    from this decode_command_sound(1) [OF snoc.hyps(2)] snoc.hyps(3) show ?case
      using snoc.IH by (cases rule: sm_apply_cases) (simp_all add: executed_state_def Let_def)
  qed
  moreover have "sm_inv sm" using run_tracks [OF assms(2,1)] by (simp add: tracks_def)
  ultimately show ?thesis by (simp add: sm_inv_def client_count_def dedup_size_def record_size_def)
qed

theorem sm_memory_bounded_witness:
  "client_count sample_machine \<le> 2 \<and> sm_dedup_bytes sample_machine \<le> 100"
  using sm_memory_bounded [OF sample_machine_new sm_run.start] by blast

text \<open>C33. A snapshot is restored exactly when it is within the limits of the machine and every value and
  every retained record in it is well-formed; the machine then holds what the snapshot holds. Otherwise
  the restore throws, and the machine is kept.\<close>

theorem sm_restore_exact:
  "sm_restore st sm = Inr sm' \<longleftrightarrow> length (ss_clients st) \<le> sm_max_clients sm \<and>
     (\<forall>(k, v) \<in> set (ss_values st). value_ok k v) \<and> (\<forall>(cid, r) \<in> set (ss_clients st). record_ok cid r) \<and>
     dedup_size (ss_clients st) \<le> sm_max_dedup_bytes sm \<and>
     sm' = sm\<lparr>sm_values := ss_values st, sm_clients := ss_clients st, sm_dedup_bytes := dedup_size (ss_clients st)\<rparr>"
  by (rule sm_restore_iff)

theorem sm_restore_exact_witness: "sm_restore (sm_snapshot sample_machine) sample_machine = Inr sample_machine"
  using sm_restore_exact [of "sm_snapshot sample_machine" sample_machine sample_machine]
  by (simp add: sm_snapshot_def sample_machine_def)

text \<open>C34. Replicas agree: machines that hold the same maps, in whatever iteration order, give the same
  answer to a command and hold the same maps afterwards.\<close>

theorem sm_replicas_agree:
  assumes "sm_inv a" and "sm_inv b" and "same_state a b" and "command_ok c" and "sm_apply c bs a = Inr (r, a')"
  shows "\<exists>b'. sm_apply c bs b = Inr (r, b') \<and> same_state a' b'"
  using same_apply [OF assms] by blast

theorem sm_replicas_agree_witness:
  "\<exists>b'. sm_apply sample_command (command_bytes sample_command) sample_machine =
       Inr (\<lparr>ar_status = mas_applied, ar_response = []\<rparr>, b') \<and>
     same_state (executed_state sample_command sample_machine) b'"
  using sm_replicas_agree [OF sample_machine_inv sample_machine_inv _ sample_command_ok sample_executed]
  by (simp add: same_state_def)

end
