(* ===== verification/Snapshot_Codec.thy ===== *)
theory Snapshot_Codec
  imports State_Machine Raft_Files "HOL-Library.List_Lexorder"
begin

text \<open>
  The image of the state machine in a snapshot (\<^verbatim>\<open>src/cluster/snapshot_codec.cpp\<close>): a header, the
  key-value pairs sorted by key, and the retained record of each client sorted by client id. The order
  of the keys is that of \<^verbatim>\<open>std::string\<close> and \<^verbatim>\<open>std::ranges::lexicographical_compare\<close>, unsigned bytes
  compared lexicographically. Shown here: the image does not depend on the iteration order of the maps,
  it decodes to the same maps, and what decodes is well-formed and restores.
\<close>

section \<open>Definitions\<close>

definition kStateMagic :: "32 word" where "kStateMagic = 0x464B5653"
definition kLegacyStateFormatVersion :: "16 word" where "kLegacyStateFormatVersion = 1"
definition kStateFormatVersion :: "16 word" where "kStateFormatVersion = 2"
definition kLegacyStateHeaderSize :: nat where "kLegacyStateHeaderSize = 16"
definition kStateHeaderSize :: nat where "kStateHeaderSize = 24"
definition kEntryHeaderSize :: nat where "kEntryHeaderSize = 8"
definition kDedupEntryHeaderSize :: nat where "kDedupEntryHeaderSize = 32"
definition kMaxSnapshotKeys :: nat where "kMaxSnapshotKeys = 2 ^ 20"

lemmas snapshot_constants = kLegacyStateFormatVersion_def kStateFormatVersion_def
  kLegacyStateHeaderSize_def kStateHeaderSize_def kEntryHeaderSize_def kDedupEntryHeaderSize_def

definition add_size :: "nat \<Rightarrow> nat \<Rightarrow> (std_exn, nat) result" where
  "add_size sz amount =
     (if amount > kMaxSnapshotPayloadSize - sz
      then Inl (invalid_argument ''snapshot state exceeds payload limit'')
      else Inr (sz + amount))"

definition valid_stored_result :: "ReplicatedCommand \<Rightarrow> bytes \<Rightarrow> bool" where
  "valid_stored_result command response =
     (if rc_operation command = op_put then response = []
      else length response = 1 \<and> (response ! 0 = 0 \<or> response ! 0 = 1))"

text \<open>
  The comparison with the encoding of the decoded command stands for both outcomes of the C++ call: a
  throw would not be equal to the stored bytes either, and a decoded command never makes it throw.
\<close>

definition validate_record :: "ClientId \<Rightarrow> DedupRecord \<Rightarrow> (string, unit) result" where
  "validate_record client_id r =
     (if dr_request_id r = 0 \<or> length (dr_command r) > kMaxClientCommandSize
      then Inl ''invalid snapshot dedup record length''
      else case decode_replicated_command (dr_command r) of
        Inl _ \<Rightarrow> Inl ''invalid snapshot dedup record''
      | Inr command \<Rightarrow>
          if rc_client_id command \<noteq> client_id \<or> rc_request_id command \<noteq> dr_request_id r \<or>
             encode_replicated_command command \<noteq> Inr (dr_command r) \<or>
             \<not> valid_stored_result command (dr_response r)
          then Inl ''invalid snapshot dedup record''
          else Inr ())"

subsection \<open>Encoding\<close>

text \<open>The first loop: checks the pairs and adds up the size.\<close>

fun size_of_values :: "nat \<Rightarrow> KeyValueState \<Rightarrow> (std_exn, nat) result" where
  "size_of_values sz [] = Inr sz"
| "size_of_values sz ((key, v) # rest) =
     (if key = [] \<or> length key > kMaxKeySize \<or> length v > kMaxValueSize
      then Inl (invalid_argument ''invalid snapshot key/value state'')
      else bindE (add_size sz kEntryHeaderSize) (\<lambda>sz.
        bindE (add_size sz (length key)) (\<lambda>sz.
        bindE (add_size sz (length v)) (\<lambda>sz. size_of_values sz rest))))"

text \<open>The second loop: checks the records, with the retained bytes so far.\<close>

fun size_of_clients :: "nat \<Rightarrow> nat \<Rightarrow> DedupState \<Rightarrow> (std_exn, nat) result" where
  "size_of_clients sz dedup_bytes [] = Inr sz"
| "size_of_clients sz dedup_bytes ((client_id, r) # rest) =
     (case validate_record client_id r of
        Inl e \<Rightarrow> Inl (invalid_argument e)
      | Inr _ \<Rightarrow>
          let record_bytes = length (dr_command r) + length (dr_response r)
          in if record_bytes > kMaxDedupBytes - dedup_bytes
             then Inl (invalid_argument ''snapshot exceeds deduplication byte limit'')
             else bindE (add_size sz kDedupEntryHeaderSize) (\<lambda>sz.
               bindE (add_size sz (length (dr_command r))) (\<lambda>sz.
               bindE (add_size sz (length (dr_response r))) (\<lambda>sz.
                 size_of_clients sz (dedup_bytes + record_bytes) rest))))"

definition value_size :: "bytes \<times> bytes \<Rightarrow> nat" where
  "value_size = (\<lambda>(key, v). kEntryHeaderSize + length key + length v)"

definition put_value :: "nat \<Rightarrow> bytes \<times> bytes \<Rightarrow> bytes \<Rightarrow> bytes" where
  "put_value offset = (\<lambda>(key, v) buf.
     write_at (offset + kEntryHeaderSize + length key) v
     (write_at (offset + 8) key
     (write_at (offset + 4) (put32 (length v))
     (write_at offset (put32 (length key)) buf))))"

definition client_size :: "ClientId \<times> DedupRecord \<Rightarrow> nat" where
  "client_size = (\<lambda>(cid, r). kDedupEntryHeaderSize + length (dr_command r) + length (dr_response r))"

definition put_client :: "nat \<Rightarrow> ClientId \<times> DedupRecord \<Rightarrow> bytes \<Rightarrow> bytes" where
  "put_client offset = (\<lambda>(cid, r) buf.
     write_at (offset + 32 + length (dr_command r)) (dr_response r)
     (write_at (offset + 32) (dr_command r)
     (write_at (offset + 28) (put32 (length (dr_response r)))
     (write_at (offset + 24) (put32 (length (dr_command r)))
     (write_at (offset + 16) (write_u64 (dr_request_id r))
     (write_at offset cid buf))))))"

definition encode_snapshot_state :: "SnapshotState \<Rightarrow> (std_exn, bytes) result" where
  "encode_snapshot_state st =
     (if length (ss_values st) > kMaxSnapshotKeys \<or> length (ss_clients st) > kMaxDedupClients
      then Inl (invalid_argument ''snapshot state exceeds entry limits'')
      else bindE (size_of_values kStateHeaderSize (ss_values st)) (\<lambda>sz.
        bindE (size_of_clients sz 0 (ss_clients st)) (\<lambda>sz.
          let sorted_values = sort_key fst (ss_values st);
              sorted_clients = sort_key fst (ss_clients st);
              buf = write_at 16 (put64 (length (ss_clients st)))
                (write_at 8 (put64 (length (ss_values st)))
                (write_at 6 (write_u16 (of_nat kStateHeaderSize))
                (write_at 4 (write_u16 kStateFormatVersion)
                (write_at 0 (write_u32 kStateMagic) (replicate sz 0)))));
              buf = write_seq put_value value_size kStateHeaderSize sorted_values buf;
              offset = kStateHeaderSize + (\<Sum>kv \<leftarrow> sorted_values. value_size kv)
          in Inr (write_seq put_client client_size offset sorted_clients buf))))"

subsection \<open>Decoding\<close>

text \<open>One iteration over the pairs; the loop carries the previous key, empty at the start.\<close>

definition get_value :: "nat \<Rightarrow> bytes \<Rightarrow> bytes \<Rightarrow> (string, (bytes \<times> bytes) \<times> bytes) result" where
  "get_value offset previous_key input =
     (if length input - offset < kEntryHeaderSize then Inl ''truncated snapshot state entry''
      else
        let key_size = get32 offset input;
            value_size = get32 (offset + 4) input
        in if key_size = 0 \<or> key_size > kMaxKeySize \<or> value_size > kMaxValueSize \<or>
              key_size > length input - offset - kEntryHeaderSize \<or>
              value_size > length input - offset - kEntryHeaderSize - key_size
           then Inl ''invalid snapshot key/value length''
           else
             let key = subspan (offset + kEntryHeaderSize) key_size input;
                 v = subspan (offset + kEntryHeaderSize + key_size) value_size input
             in if previous_key \<noteq> [] \<and> key \<le> previous_key
                then Inl ''snapshot keys are not strictly ordered''
                else Inr ((key, v), key))"

text \<open>One iteration over the clients; the loop carries the previous client and the retained bytes.\<close>

definition get_client ::
  "nat \<Rightarrow> ClientId option \<times> nat \<Rightarrow> bytes \<Rightarrow> (string, (ClientId \<times> DedupRecord) \<times> (ClientId option \<times> nat)) result" where
  "get_client offset = (\<lambda>(previous_client, dedup_bytes) input.
     if length input - offset < kDedupEntryHeaderSize then Inl ''truncated snapshot dedup entry''
     else
       let client_id = subspan offset 16 input;
           rid = read_u64 (subspan (offset + 16) 8 input);
           command_size = get32 (offset + 24) input;
           response_size = get32 (offset + 28) input
       in if (case previous_client of None \<Rightarrow> False | Some p \<Rightarrow> \<not> p < client_id)
          then Inl ''snapshot clients are not strictly ordered''
          else if rid = 0 \<or> command_size > kMaxClientCommandSize \<or> response_size > 1 \<or>
            command_size > length input - offset - kDedupEntryHeaderSize \<or>
            response_size > length input - offset - kDedupEntryHeaderSize - command_size
          then Inl ''invalid snapshot dedup length''
          else
            let record_bytes = command_size + response_size;
                r = \<lparr>dr_request_id = rid,
                  dr_command = subspan (offset + kDedupEntryHeaderSize) command_size input,
                  dr_response = subspan (offset + kDedupEntryHeaderSize + command_size) response_size input\<rparr>
            in if record_bytes > kMaxDedupBytes - dedup_bytes
               then Inl ''snapshot exceeds deduplication byte limit''
               else bindE (validate_record client_id r) (\<lambda>_.
                 Inr ((client_id, r), (Some client_id, dedup_bytes + record_bytes))))"

definition decode_snapshot_state :: "bytes \<Rightarrow> (string, SnapshotState) result" where
  "decode_snapshot_state input =
     (if length input < kLegacyStateHeaderSize \<or> read_u32 (subspan 0 4 input) \<noteq> kStateMagic
      then Inl ''invalid snapshot state header''
      else
        let version = read_u16 (subspan 4 2 input);
            header_size = unat (read_u16 (subspan 6 2 input))
        in if version = kLegacyStateFormatVersion \<and> header_size \<noteq> kLegacyStateHeaderSize \<or>
              version = kStateFormatVersion \<and> header_size \<noteq> kStateHeaderSize \<or>
              version \<noteq> kLegacyStateFormatVersion \<and> version \<noteq> kStateFormatVersion \<or>
              length input < header_size
           then Inl ''invalid snapshot state version''
           else
             let key_count = get64 8 input;
                 clients = (if version = kStateFormatVersion then get64 16 input else 0)
             in if key_count > kMaxSnapshotKeys \<or> clients > kMaxDedupClients \<or>
                   key_count > (length input - header_size) div (kEntryHeaderSize + 1)
                then Inl ''invalid snapshot state entry count''
                else bindE (read_seq get_value value_size key_count header_size [] input) (\<lambda>(vals, offset).
                  bindE (read_seq get_client client_size clients offset (None, 0) input) (\<lambda>(cs, offset).
                    if offset \<noteq> length input then Inl ''snapshot state has trailing bytes''
                    else Inr \<lparr>ss_values = vals, ss_clients = cs\<rparr>)))"

section \<open>Layout of the records\<close>

definition value_image :: "bytes \<times> bytes \<Rightarrow> bytes" where
  "value_image = (\<lambda>(key, v). put32 (length key) @ put32 (length v) @ key @ v)"

definition value_follows :: "bytes \<Rightarrow> bytes \<times> bytes \<Rightarrow> bool" where
  "value_follows prev = (\<lambda>(key, v). value_ok key v \<and> (prev \<noteq> [] \<longrightarrow> prev < key))"

definition client_image :: "ClientId \<times> DedupRecord \<Rightarrow> bytes" where
  "client_image = (\<lambda>(cid, r). cid @ write_u64 (dr_request_id r) @ put32 (length (dr_command r)) @
     put32 (length (dr_response r)) @ dr_command r @ dr_response r)"

definition client_follows :: "ClientId option \<times> nat \<Rightarrow> ClientId \<times> DedupRecord \<Rightarrow> bool" where
  "client_follows = (\<lambda>(prev, n) (cid, r). record_ok cid r \<and> (\<forall>p. prev = Some p \<longrightarrow> p < cid) \<and>
     n + record_size r \<le> kMaxDedupBytes)"

definition next_client :: "ClientId option \<times> nat \<Rightarrow> ClientId \<times> DedupRecord \<Rightarrow> ClientId option \<times> nat" where
  "next_client = (\<lambda>(prev, n) (cid, r). (Some cid, n + record_size r))"

lemma valid_stored_result_iff: "valid_stored_result c resp \<longleftrightarrow> response_ok c resp"
  by (cases resp) (auto simp: valid_stored_result_def response_ok_def)

lemma record_okD:
  assumes "record_ok cid r"
  shows "length cid = 16" and "dr_request_id r \<noteq> 0" and "length (dr_command r) \<le> kMaxClientCommandSize"
    and "length (dr_response r) \<le> 1" and "0 < length (dr_command r)"
proof -
  obtain c where c: "command_ok c" "rc_client_id c = cid" "rc_request_id c = dr_request_id r"
      "dr_command r = command_bytes c" "response_ok c (dr_response r)"
    using assms by (auto simp: record_ok_def)
  show "length cid = 16" "dr_request_id r \<noteq> 0" using c by (auto simp: command_ok_def)
  show "length (dr_command r) \<le> kMaxClientCommandSize" using command_size [OF c(1)] c(4) by (simp add: kMaxRaftCommandSize_def)
  show "0 < length (dr_command r)" using c(4) by (simp add: command_bytes_def)
  show "length (dr_response r) \<le> 1" using c(5) by (auto simp: response_ok_def split: if_splits)
qed

lemma validate_record_iff: "validate_record cid r = Inr u \<longleftrightarrow> record_ok cid r"
proof
  assume "validate_record cid r = Inr u"
  then obtain c where "decode_replicated_command (dr_command r) = Inr c" "rc_client_id c = cid"
      "rc_request_id c = dr_request_id r" "valid_stored_result c (dr_response r)"
    by (auto simp: validate_record_def split: if_splits sum.splits)
  then show "record_ok cid r" unfolding record_ok_decoded valid_stored_result_iff by blast
next
  assume r: "record_ok cid r"
  then obtain c where c: "decode_replicated_command (dr_command r) = Inr c" "rc_client_id c = cid"
      "rc_request_id c = dr_request_id r" "response_ok c (dr_response r)" unfolding record_ok_decoded by blast
  moreover have "encode_replicated_command c = Inr (dr_command r)"
    using decode_command_sound [OF c(1)] encode_command_ok by simp
  ultimately show "validate_record cid r = Inr u"
    using record_okD(2,3) [OF r] by (simp add: validate_record_def valid_stored_result_iff)
qed

lemma value_sizes:
  assumes "value_ok key v"
  shows "unat (of_nat (length key) :: 32 word) = length key" "unat (of_nat (length v) :: 32 word) = length v"
    "key \<noteq> []" "length key \<le> kMaxKeySize" "length v \<le> kMaxValueSize"
  using assms unat_key_size unat_value_size by (auto simp: value_ok_def valid_key_size_def)

lemma record_sizes:
  assumes "record_ok cid r"
  shows "unat (of_nat (length (dr_command r)) :: 32 word) = length (dr_command r)"
    "unat (of_nat (length (dr_response r)) :: 32 word) = length (dr_response r)"
proof -
  show "unat (of_nat (length (dr_command r)) :: 32 word) = length (dr_command r)"
    using record_okD(3) [OF assms] by (intro unat_of_nat32) (simp add: frame_constants)
  show "unat (of_nat (length (dr_response r)) :: 32 word) = length (dr_response r)"
    using record_okD(4) [OF assms] by (intro unat_of_nat32) simp
qed

section \<open>The two sequences\<close>

lemma put_value_image:
  "put_value (length pre) (key, v) (pre @ replicate (value_size (key, v) + k) 0) =
   pre @ value_image (key, v) @ replicate k 0"
proof -
  let ?k = "length key" and ?v = "length v" and ?o = "length pre"
  let ?a = "pre @ put32 (length key)"
  have 1: "write_at ?o (put32 ?k) (pre @ replicate (value_size (key, v) + k) 0) = ?a @ replicate (4 + ?k + ?v + k) 0"
    by (rule write_at_extend) (simp_all add: value_size_def kEntryHeaderSize_def)
  have 2: "write_at (?o + 4) (put32 ?v) (?a @ replicate (4 + ?k + ?v + k) 0) = (?a @ put32 ?v) @ replicate (?k + ?v + k) 0"
    by (rule write_at_extend) simp_all
  have 3: "write_at (?o + 8) key ((?a @ put32 ?v) @ replicate (?k + ?v + k) 0) =
      ((?a @ put32 ?v) @ key) @ replicate (?v + k) 0"
    by (rule write_at_extend) simp_all
  have 4: "write_at (?o + kEntryHeaderSize + ?k) v (((?a @ put32 ?v) @ key) @ replicate (?v + k) 0) =
      (((?a @ put32 ?v) @ key) @ v) @ replicate k 0"
    by (rule write_at_extend) (simp_all add: kEntryHeaderSize_def)
  show ?thesis unfolding put_value_def prod.case 1 2 3 4 by (simp add: value_image_def)
qed

lemma value_fields:
  fixes pre key v rest
  defines "B \<equiv> pre @ value_image (key, v) @ rest"
  shows "subspan (length pre) 4 B = put32 (length key)" "subspan (length pre + 4) 4 B = put32 (length v)"
    "subspan (length pre + 8) (length key) B = key" "subspan (length pre + 8 + length key) (length v) B = v"
  by (simp_all add: B_def value_image_def subspan_def)

lemma get_value_image:
  assumes "value_follows prev (key, v)"
  shows "get_value (length pre) prev (pre @ value_image (key, v) @ rest) = Inr ((key, v), key)"
proof -
  define B where "B = pre @ value_image (key, v) @ rest"
  note f = value_fields [of pre key v rest, folded B_def]
  have ok: "value_ok key v" "prev \<noteq> [] \<longrightarrow> \<not> key \<le> prev" using assms by (auto simp: value_follows_def)
  have "length B - length pre = 8 + length key + length v + length rest"
    by (simp add: B_def value_image_def)
  then have "get_value (length pre) prev B = Inr ((key, v), key)"
    using ok value_sizes [OF ok(1)] by (auto simp: get_value_def f kEntryHeaderSize_def)
  then show ?thesis by (simp add: B_def)
qed

lemma get_value_sound:
  assumes "get_value offset prev input = Inr (x, s')" and "offset \<le> length input"
  shows "value_follows prev x \<and> s' = fst x \<and> (\<exists>rest. drop offset input = value_image x @ rest)"
proof -
  define k n where "k = get32 offset input" and "n = get32 (offset + 4) input"
  define key v where "key = subspan (offset + 8) k input" and "v = subspan (offset + 8 + k) n input"
  have a: "8 \<le> length input - offset" "k \<noteq> 0" "k \<le> kMaxKeySize" "n \<le> kMaxValueSize" "k \<le> length input - offset - 8"
      "n \<le> length input - offset - 8 - k" "prev \<noteq> [] \<longrightarrow> prev < key" "x = (key, v)" "s' = key"
    using assms(1)
    by (auto simp: get_value_def Let_def k_def [symmetric] n_def [symmetric] kEntryHeaderSize_def key_def v_def
      split: if_splits)
  have l: "length key = k" "length v = n" using a by (simp_all add: key_def v_def)
  have "put32 k = subspan offset 4 input" "put32 n = subspan (offset + 4) 4 input"
    using a(1) put_get32 [of offset input] put_get32 [of "offset + 4" input] by (simp_all add: k_def n_def)
  then have "value_image (key, v) = subspan offset (8 + k + n) input"
    by (simp add: value_image_def l) (simp add: key_def v_def subspan_join add.assoc)
  then have "drop offset input = value_image x @ drop (offset + (8 + k + n)) input"
    using drop_subspan [of offset input "8 + k + n"] a(8) by simp
  then show ?thesis using a l by (auto simp: value_follows_def value_ok_def valid_key_size_def)
qed

interpretation vals: sequence_codec value_image value_size put_value get_value value_follows "\<lambda>_. fst"
proof unfold_locales
  show "put_value (length pre) x (pre @ replicate (value_size x + k) 0) = pre @ value_image x @ replicate k 0"
    for pre x k by (cases x) (simp only: put_value_image)
  show "length (value_image x) = value_size x" for x
    by (cases x) (simp add: value_image_def value_size_def kEntryHeaderSize_def)
  show "get_value (length pre) s (pre @ value_image x @ rest) = Inr (x, fst x)" if "value_follows s x" for pre s x rest
    using that by (cases x) (simp only: get_value_image fst_conv)
  show "value_follows s x \<and> s' = fst x \<and> (\<exists>rest. drop offset input = value_image x @ rest)"
    if "get_value offset s input = Inr (x, s')" "offset \<le> length input" for offset s input x s'
    by (rule get_value_sound [OF that])
qed

lemma put_client_image:
  assumes "length cid = 16"
  shows "put_client (length pre) (cid, r) (pre @ replicate (client_size (cid, r) + k) 0) =
   pre @ client_image (cid, r) @ replicate k 0"
proof -
  let ?c = "length (dr_command r)" and ?p = "length (dr_response r)" and ?o = "length pre"
  let ?a = "pre @ cid" and ?cs = "put32 (length (dr_command r))" and ?ps = "put32 (length (dr_response r))"
  let ?b = "?a @ write_u64 (dr_request_id r)"
  have 1: "write_at ?o cid (pre @ replicate (client_size (cid, r) + k) 0) = ?a @ replicate (16 + ?c + ?p + k) 0"
    by (rule write_at_extend) (use assms in \<open>simp_all add: client_size_def kDedupEntryHeaderSize_def\<close>)
  have 2: "write_at (?o + 16) (write_u64 (dr_request_id r)) (?a @ replicate (16 + ?c + ?p + k) 0) =
      ?b @ replicate (8 + ?c + ?p + k) 0"
    by (rule write_at_extend) (use assms in simp_all)
  have 3: "write_at (?o + 24) ?cs (?b @ replicate (8 + ?c + ?p + k) 0) = (?b @ ?cs) @ replicate (4 + ?c + ?p + k) 0"
    by (rule write_at_extend) (use assms in simp_all)
  have 4: "write_at (?o + 28) ?ps ((?b @ ?cs) @ replicate (4 + ?c + ?p + k) 0) =
      ((?b @ ?cs) @ ?ps) @ replicate (?c + ?p + k) 0"
    by (rule write_at_extend) (use assms in simp_all)
  have 5: "write_at (?o + 32) (dr_command r) (((?b @ ?cs) @ ?ps) @ replicate (?c + ?p + k) 0) =
      (((?b @ ?cs) @ ?ps) @ dr_command r) @ replicate (?p + k) 0"
    by (rule write_at_extend) (use assms in simp_all)
  have 6: "write_at (?o + 32 + ?c) (dr_response r) ((((?b @ ?cs) @ ?ps) @ dr_command r) @ replicate (?p + k) 0) =
      ((((?b @ ?cs) @ ?ps) @ dr_command r) @ dr_response r) @ replicate k 0"
    by (rule write_at_extend) (use assms in simp_all)
  show ?thesis unfolding put_client_def prod.case 1 2 3 4 5 6 by (simp add: client_image_def)
qed

lemma client_fields:
  fixes pre cid r rest
  assumes "length cid = 16"
  defines "B \<equiv> pre @ client_image (cid, r) @ rest"
  shows "subspan (length pre) 16 B = cid" "subspan (length pre + 16) 8 B = write_u64 (dr_request_id r)"
    "subspan (length pre + 24) 4 B = put32 (length (dr_command r))"
    "subspan (length pre + 28) 4 B = put32 (length (dr_response r))"
    "subspan (length pre + 32) (length (dr_command r)) B = dr_command r"
    "subspan (length pre + 32 + length (dr_command r)) (length (dr_response r)) B = dr_response r"
  using assms by (simp_all add: B_def client_image_def subspan_def)

lemma get_client_image:
  assumes "client_follows (prev, n) (cid, r)"
  shows "get_client (length pre) (prev, n) (pre @ client_image (cid, r) @ rest) =
    Inr ((cid, r), next_client (prev, n) (cid, r))"
proof -
  define B where "B = pre @ client_image (cid, r) @ rest"
  have ok: "record_ok cid r" "\<not> (case prev of None \<Rightarrow> False | Some p \<Rightarrow> \<not> p < cid)" "n + record_size r \<le> kMaxDedupBytes"
    using assms by (auto simp: client_follows_def split: option.splits)
  note d = record_okD [OF ok(1)] record_sizes [OF ok(1)]
  note f = client_fields [OF d(1), of pre r rest, folded B_def]
  have l: "length B - length pre = 32 + length (dr_command r) + length (dr_response r) + length rest"
    using d(1) by (simp add: B_def client_image_def)
  have r: "\<lparr>dr_request_id = dr_request_id r, dr_command = dr_command r, dr_response = dr_response r\<rparr> = r" by simp
  have v: "validate_record cid r = Inr ()" using validate_record_iff ok(1) by blast
  have s: "\<not> kMaxDedupBytes - n < length (dr_command r) + length (dr_response r)"
    using ok(3) by (simp add: record_size_def)
  have "get_client (length pre) (prev, n) B = Inr ((cid, r), next_client (prev, n) (cid, r))"
    unfolding get_client_def next_client_def using l d ok(2) v s
    by (simp add: f kDedupEntryHeaderSize_def r record_size_def del: not_less)
  then show ?thesis by (simp add: B_def)
qed

lemma get_client_sound:
  assumes "get_client offset (prev, n) input = Inr (x, s')" and "offset \<le> length input"
  shows "client_follows (prev, n) x \<and> s' = next_client (prev, n) x \<and> (\<exists>rest. drop offset input = client_image x @ rest)"
proof -
  define k m where "k = get32 (offset + 24) input" and "m = get32 (offset + 28) input"
  define cid r where "cid = subspan offset 16 input" and
    "r = \<lparr>dr_request_id = read_u64 (subspan (offset + 16) 8 input), dr_command = subspan (offset + 32) k input,
      dr_response = subspan (offset + 32 + k) m input\<rparr>"
  have a: "32 \<le> length input - offset" "\<not> (case prev of None \<Rightarrow> False | Some p \<Rightarrow> \<not> p < cid)"
      "k \<le> length input - offset - 32" "m \<le> length input - offset - 32 - k"
      "k + m \<le> kMaxDedupBytes - n" "validate_record cid r = Inr ()" "x = (cid, r)" "s' = (Some cid, n + (k + m))"
    using assms(1) unfolding cid_def r_def
    by (auto simp: get_client_def Let_def k_def [symmetric] m_def [symmetric] kDedupEntryHeaderSize_def
      bindE_eq_Inr split: if_splits)
  have l: "length (dr_command r) = k" "length (dr_response r) = m" using a by (simp_all add: r_def)
  have ok: "record_ok cid r" using a(6) validate_record_iff by blast
  then have "0 < k" using record_okD(5) [OF ok] l(1) by (simp del: length_greater_0_conv)
  then have "n + record_size r \<le> kMaxDedupBytes" using a(5) l by (simp add: record_size_def)
  then have fol: "client_follows (prev, n) x" using ok a(2,7) by (auto simp: client_follows_def)
  have "put32 k = subspan (offset + 24) 4 input" "put32 m = subspan (offset + 28) 4 input"
    using a(1) put_get32 [of "offset + 24" input] put_get32 [of "offset + 28" input] by (simp_all add: k_def m_def)
  moreover have "write_u64 (dr_request_id r) = subspan (offset + 16) 8 input" using a(1) by (simp add: r_def write_read_u64)
  ultimately have "client_image (cid, r) = subspan offset 16 input @ subspan (offset + 16) 8 input @
      subspan (offset + 24) 4 input @ subspan (offset + 28) 4 input @ subspan (offset + 32) k input @
      subspan (offset + 32 + k) m input"
    by (simp add: client_image_def l) (simp add: cid_def r_def)
  also have "\<dots> = subspan offset (32 + k + m) input" by (simp add: subspan_join add.assoc)
  finally have "drop offset input = client_image x @ drop (offset + (32 + k + m)) input"
    using drop_subspan [of offset input "32 + k + m"] a(7) by simp
  moreover have "s' = next_client (prev, n) x" using a(7,8) l by (simp add: next_client_def record_size_def)
  ultimately show ?thesis using fol by blast
qed

interpretation clients: sequence_codec client_image client_size put_client get_client client_follows next_client
proof unfold_locales
  fix pre rest input :: bytes and offset k :: nat and s s' :: "ClientId option \<times> nat" and x :: "ClientId \<times> DedupRecord"
  obtain prev n where s: "s = (prev, n)" by fastforce
  obtain cid r where x: "x = (cid, r)" by fastforce
  show "put_client (length pre) x (pre @ replicate (client_size x + k) 0) = pre @ client_image x @ replicate k 0"
    if "client_follows s x"
    using that record_okD(1) unfolding s x by (intro put_client_image) (auto simp: client_follows_def)
  show "length (client_image x) = client_size x" if "client_follows s x"
    using that record_okD(1) unfolding s x
    by (auto simp: client_follows_def client_image_def client_size_def kDedupEntryHeaderSize_def)
  show "get_client (length pre) s (pre @ client_image x @ rest) = Inr (x, next_client s x)" if "client_follows s x"
    using that get_client_image unfolding s x by blast
  show "client_follows s x \<and> s' = next_client s x \<and> (\<exists>rest. drop offset input = client_image x @ rest)"
    if "get_client offset s input = Inr (x, s')" "offset \<le> length input"
    using that get_client_sound unfolding s x by blast
qed

section \<open>Sorted sequences\<close>

abbreviation value_chain :: "bytes \<Rightarrow> KeyValueState \<Rightarrow> bool" where
  "value_chain \<equiv> chain value_follows (\<lambda>_. fst)"

abbreviation client_chain :: "ClientId option \<times> nat \<Rightarrow> DedupState \<Rightarrow> bool" where
  "client_chain \<equiv> chain client_follows next_client"

lemma value_chain_from:
  "value_chain prev xs \<longleftrightarrow> (\<forall>(key, v) \<in> set xs. value_ok key v) \<and>
     sorted_wrt (<) ((if prev = [] then [] else [prev]) @ map fst xs)"
proof (induction xs arbitrary: prev)
  case (Cons x xs)
  obtain key v where x: "x = (key, v)" by fastforce
  show ?case
  proof (cases "value_ok key v")
    case True
    then have "key \<noteq> []" by (auto simp: value_ok_def valid_key_size_def)
    then show ?thesis using Cons.IH [of key] True x
      by (auto simp: value_follows_def intro: less_trans)
  qed (simp add: x value_follows_def)
qed auto

lemma value_chain_iff:
  "value_chain [] xs \<longleftrightarrow> (\<forall>(key, v) \<in> set xs. value_ok key v) \<and> sorted_wrt (<) (map fst xs)"
  by (simp add: value_chain_from)

lemma client_chain_from:
  "client_chain (prev, n) xs \<longleftrightarrow> (\<forall>(cid, r) \<in> set xs. record_ok cid r) \<and>
     sorted_wrt (<) (case_option [] (\<lambda>p. [p]) prev @ map fst xs) \<and> (xs = [] \<or> n + dedup_size xs \<le> kMaxDedupBytes)"
proof (induction xs arbitrary: prev n)
  case (Cons x xs)
  obtain cid r where x: "x = (cid, r)" by fastforce
  have "xs = [] \<or> n + record_size r + dedup_size xs \<le> kMaxDedupBytes \<longleftrightarrow>
      n + (record_size r + dedup_size xs) \<le> kMaxDedupBytes" if "n + record_size r \<le> kMaxDedupBytes"
    using that by (cases xs) auto
  then show ?case using Cons.IH [of "Some cid" "n + record_size r"]
    by (cases prev) (auto simp: x client_follows_def next_client_def intro: less_trans)
qed (simp split: option.split)

lemma client_chain_iff:
  "client_chain (None, 0) xs \<longleftrightarrow> (\<forall>(cid, r) \<in> set xs. record_ok cid r) \<and> sorted_wrt (<) (map fst xs) \<and>
     dedup_size xs \<le> kMaxDedupBytes"
  unfolding client_chain_from by auto

lemma sort_by_key:
  assumes "distinct (map fst xs)"
  shows "sorted_wrt (<) (map fst (sort_key fst xs))" and "map_of (sort_key fst xs) = map_of xs"
    and "mset (sort_key fst xs) = mset xs"
proof -
  have "distinct (map fst (sort_key fst xs))" using assms by (metis mset_eq_imp_distinct_iff mset_map mset_sort)
  moreover have "sorted (map fst (sort_key fst xs))" by simp
  ultimately show "sorted_wrt (<) (map fst (sort_key fst xs))" by (simp add: strict_sorted_iff)
  show "map_of (sort_key fst xs) = map_of xs"
    using assms \<open>distinct (map fst (sort_key fst xs))\<close> by (simp add: map_of_inject_set)
qed simp

text \<open>Lists sorted by distinct keys that make the same map are the same.\<close>

lemma sorted_map_unique:
  assumes "distinct (map fst xs)" and "distinct (map fst ys)" and "map_of xs = map_of ys"
  shows "sort_key fst xs = sort_key fst ys"
proof -
  let ?xs = "sort_key fst xs" and ?ys = "sort_key fst ys"
  have s: "set xs = set ys" using assms by (simp add: map_of_inject_set)
  have d: "distinct (map fst ?xs)" "distinct (map fst ?ys)"
    using sort_by_key(1) [OF assms(1)] sort_by_key(1) [OF assms(2)] by (simp_all add: strict_sorted_iff)
  have "inj_on fst (set ?xs \<union> set ?ys)" using d(1) s by (simp add: distinct_map)
  then show ?thesis by (rule map_sorted_distinct_set_unique) (use d s in simp_all)
qed

section \<open>The image of a state\<close>

definition snapshot_header :: "nat \<Rightarrow> nat \<Rightarrow> bytes" where
  "snapshot_header nv nc = write_u32 kStateMagic @ write_u16 kStateFormatVersion @ write_u16 24 @ put64 nv @ put64 nc"

definition snapshot_image :: "KeyValueState \<Rightarrow> DedupState \<Rightarrow> bytes" where
  "snapshot_image vs cs = snapshot_header (length vs) (length cs) @ concat (map value_image vs) @
     concat (map client_image cs)"

definition image_size :: "KeyValueState \<Rightarrow> DedupState \<Rightarrow> nat" where
  "image_size vs cs = kStateHeaderSize + (\<Sum>kv \<leftarrow> vs. value_size kv) + (\<Sum>cr \<leftarrow> cs. client_size cr)"

definition image_fits :: "KeyValueState \<Rightarrow> DedupState \<Rightarrow> bool" where
  "image_fits vs cs \<longleftrightarrow> length vs \<le> kMaxSnapshotKeys \<and> length cs \<le> kMaxDedupClients \<and>
     dedup_size cs \<le> kMaxDedupBytes \<and> image_size vs cs \<le> kMaxSnapshotPayloadSize"

lemma length_snapshot_header [simp]: "length (snapshot_header nv nc) = 24"
  by (simp add: snapshot_header_def)

lemma size_of_values_iff:
  "sz \<le> kMaxSnapshotPayloadSize \<Longrightarrow> size_of_values sz vs = Inr t \<longleftrightarrow>
     (\<forall>(key, v) \<in> set vs. value_ok key v) \<and> t = sz + (\<Sum>kv \<leftarrow> vs. value_size kv) \<and> t \<le> kMaxSnapshotPayloadSize"
proof (induction vs arbitrary: sz)
  case (Cons kv vs)
  obtain key v where kv: "kv = (key, v)" by fastforce
  show ?case
  proof (cases "value_ok key v \<and> sz + value_size kv \<le> kMaxSnapshotPayloadSize")
    case True
    then have "size_of_values sz (kv # vs) = size_of_values (sz + value_size kv) vs"
      by (auto simp: kv value_size_def add_size_def value_ok_def valid_key_size_def add.assoc)
    then show ?thesis using Cons.IH [of "sz + value_size kv"] True by (auto simp: kv)
  next
    case False
    then have "size_of_values sz (kv # vs) \<noteq> Inr t"
      using Cons.prems by (auto simp: kv value_size_def add_size_def value_ok_def valid_key_size_def bindE_eq_Inr split: if_splits)
    then show ?thesis using False by (auto simp: kv)
  qed
qed auto

lemma size_of_clients_iff:
  "sz \<le> kMaxSnapshotPayloadSize \<Longrightarrow> n \<le> kMaxDedupBytes \<Longrightarrow> size_of_clients sz n cs = Inr t \<longleftrightarrow>
     (\<forall>(cid, r) \<in> set cs. record_ok cid r) \<and> n + dedup_size cs \<le> kMaxDedupBytes \<and>
     t = sz + (\<Sum>cr \<leftarrow> cs. client_size cr) \<and> t \<le> kMaxSnapshotPayloadSize"
proof (induction cs arbitrary: sz n)
  case (Cons cr cs)
  obtain cid r where cr: "cr = (cid, r)" by fastforce
  have v: "validate_record cid r = Inr () \<longleftrightarrow> record_ok cid r" by (rule validate_record_iff)
  show ?case
  proof (cases "record_ok cid r \<and> n + record_size r \<le> kMaxDedupBytes \<and> sz + client_size cr \<le> kMaxSnapshotPayloadSize")
    case True
    then have "size_of_clients sz n (cr # cs) = size_of_clients (sz + client_size cr) (n + record_size r) cs"
      using v by (auto simp: cr client_size_def add_size_def record_size_def add.assoc Let_def)
    then show ?thesis using Cons.IH [of "sz + client_size cr" "n + record_size r"] True by (auto simp: cr)
  next
    case False
    then have "size_of_clients sz n (cr # cs) \<noteq> Inr t"
      using Cons.prems validate_record_iff [of cid r]
      by (auto simp: cr client_size_def add_size_def record_size_def bindE_eq_Inr Let_def split: if_splits sum.splits)
    then show ?thesis using False by (auto simp: cr)
  qed
qed auto

lemma sum_list_mset: "mset xs = mset ys \<Longrightarrow> (\<Sum>x \<leftarrow> xs. f x) = (\<Sum>x \<leftarrow> ys. (f x :: nat))"
  by (metis mset_map sum_mset_sum_list)

lemma header_image:
  "write_at 16 (put64 nc) (write_at 8 (put64 nv) (write_at 6 (write_u16 24) (write_at 4 (write_u16 v)
     (write_at 0 (write_u32 m) (replicate (24 + n) 0))))) =
   (write_u32 m @ write_u16 v @ write_u16 24 @ put64 nv @ put64 nc) @ replicate n 0"
  by (simp add: write_at_def)

lemma write_snapshot:
  assumes "value_chain [] vs" and "client_chain (None, 0) cs" and "nv = length vs" and "nc = length cs"
  shows "write_seq put_client client_size (kStateHeaderSize + (\<Sum>kv \<leftarrow> vs. value_size kv)) cs
    (write_seq put_value value_size kStateHeaderSize vs
      (write_at 16 (put64 nc) (write_at 8 (put64 nv) (write_at 6 (write_u16 (of_nat kStateHeaderSize))
       (write_at 4 (write_u16 kStateFormatVersion) (write_at 0 (write_u32 kStateMagic) (replicate (image_size vs cs) 0))))))) =
    snapshot_image vs cs"
proof -
  let ?h = "snapshot_header nv nc" and ?v = "\<Sum>kv \<leftarrow> vs. value_size kv" and ?c = "\<Sum>cr \<leftarrow> cs. client_size cr"
  let ?w = "?h @ concat (map value_image vs)"
  have "write_at 16 (put64 nc) (write_at 8 (put64 nv) (write_at 6 (write_u16 (of_nat kStateHeaderSize))
       (write_at 4 (write_u16 kStateFormatVersion) (write_at 0 (write_u32 kStateMagic) (replicate (image_size vs cs) 0))))) =
      ?h @ replicate (?v + ?c) 0"
    using header_image [of nc nv kStateFormatVersion kStateMagic "?v + ?c"]
    by (simp add: image_size_def kStateHeaderSize_def snapshot_header_def add.assoc)
  moreover have "write_seq put_value value_size kStateHeaderSize vs (?h @ replicate (?v + ?c) 0) = ?w @ replicate ?c 0"
    using vals.write_images [OF assms(1), of ?h ?c] by (simp add: kStateHeaderSize_def)
  moreover have "kStateHeaderSize + ?v = length ?w"
    using vals.length_images [OF assms(1)] by (simp add: kStateHeaderSize_def)
  moreover have "write_seq put_client client_size (length ?w) cs (?w @ replicate ?c 0) = ?w @ concat (map client_image cs)"
    using clients.write_images [OF assms(2), of ?w 0] by simp
  ultimately show ?thesis using assms(3,4) by (simp add: snapshot_image_def)
qed

lemma encode_snapshot_iff:
  assumes "distinct (map fst (ss_values st))" and "distinct (map fst (ss_clients st))"
  shows "encode_snapshot_state st = Inr bs \<longleftrightarrow> state_ok (ss_values st) (ss_clients st) \<and>
    image_fits (ss_values st) (ss_clients st) \<and>
    bs = snapshot_image (sort_key fst (ss_values st)) (sort_key fst (ss_clients st))"
proof -
  let ?vs = "ss_values st" and ?cs = "ss_clients st"
  let ?sv = "sort_key fst ?vs" and ?sc = "sort_key fst ?cs"
  have sz: "kStateHeaderSize \<le> kMaxSnapshotPayloadSize" by (simp add: kStateHeaderSize_def kMaxSnapshotPayloadSize_def)
  have isz: "image_size ?vs ?cs = image_size ?sv ?sc"
    using sum_list_mset [OF sort_by_key(3) [OF assms(1)], of value_size]
      sum_list_mset [OF sort_by_key(3) [OF assms(2)], of client_size] by (simp add: image_size_def)
  have w: "write_seq put_client client_size (kStateHeaderSize + (\<Sum>kv \<leftarrow> ?sv. value_size kv)) ?sc
    (write_seq put_value value_size kStateHeaderSize ?sv
      (write_at 16 (put64 (length ?cs)) (write_at 8 (put64 (length ?vs)) (write_at 6 (write_u16 (of_nat kStateHeaderSize))
       (write_at 4 (write_u16 kStateFormatVersion) (write_at 0 (write_u32 kStateMagic) (replicate (image_size ?vs ?cs) 0))))))) =
    snapshot_image ?sv ?sc" if "\<forall>(key, v) \<in> set ?vs. value_ok key v" "\<forall>(cid, r) \<in> set ?cs. record_ok cid r" "dedup_size ?cs \<le> kMaxDedupBytes"
    unfolding isz
    by (rule write_snapshot)
       (use that sort_by_key(1) [OF assms(1)] sort_by_key(1) [OF assms(2)] dedup_size_mset [OF sort_by_key(3) [OF assms(2)]] in
         \<open>simp_all add: value_chain_iff client_chain_iff\<close>)
  show ?thesis
  proof
    assume "encode_snapshot_state st = Inr bs"
    then obtain t t' where l: "length ?vs \<le> kMaxSnapshotKeys" "length ?cs \<le> kMaxDedupClients"
        and t: "size_of_values kStateHeaderSize ?vs = Inr t" "size_of_clients t 0 ?cs = Inr t'"
        and bs: "bs = write_seq put_client client_size (kStateHeaderSize + (\<Sum>kv \<leftarrow> ?sv. value_size kv)) ?sc
          (write_seq put_value value_size kStateHeaderSize ?sv
          (write_at 16 (put64 (length ?cs)) (write_at 8 (put64 (length ?vs)) (write_at 6 (write_u16 (of_nat kStateHeaderSize))
          (write_at 4 (write_u16 kStateFormatVersion) (write_at 0 (write_u32 kStateMagic) (replicate t' 0)))))))"
      by (auto simp: encode_snapshot_state_def bindE_eq_Inr Let_def not_less split: if_splits)
    have "t \<le> kMaxSnapshotPayloadSize" using t(1) size_of_values_iff [OF sz] by blast
    then have f: "\<forall>(key, v) \<in> set ?vs. value_ok key v" "\<forall>(cid, r) \<in> set ?cs. record_ok cid r" "dedup_size ?cs \<le> kMaxDedupBytes"
        "t' = image_size ?vs ?cs" "t' \<le> kMaxSnapshotPayloadSize"
      using t size_of_values_iff [OF sz, of ?vs t] size_of_clients_iff [of t 0 ?cs t'] by (auto simp: image_size_def)
    show "state_ok ?vs ?cs \<and> image_fits ?vs ?cs \<and> bs = snapshot_image ?sv ?sc"
      using assms l f w [OF f(1-3)] bs by (simp add: state_ok_def image_fits_def)
  next
    assume a: "state_ok ?vs ?cs \<and> image_fits ?vs ?cs \<and> bs = snapshot_image ?sv ?sc"
    then have ok: "\<forall>(key, v) \<in> set ?vs. value_ok key v" "\<forall>(cid, r) \<in> set ?cs. record_ok cid r" "dedup_size ?cs \<le> kMaxDedupBytes"
        "length ?vs \<le> kMaxSnapshotKeys" "length ?cs \<le> kMaxDedupClients" "image_size ?vs ?cs \<le> kMaxSnapshotPayloadSize"
      by (simp_all add: state_ok_def image_fits_def)
    define t where "t = kStateHeaderSize + (\<Sum>kv \<leftarrow> ?vs. value_size kv)"
    have t: "t \<le> kMaxSnapshotPayloadSize" using ok(6) by (simp add: image_size_def t_def)
    have "size_of_values kStateHeaderSize ?vs = Inr t" using size_of_values_iff [OF sz, of ?vs t] ok(1) t by (simp add: t_def)
    moreover have "size_of_clients t 0 ?cs = Inr (image_size ?vs ?cs)"
      using size_of_clients_iff [OF t, of 0 ?cs "image_size ?vs ?cs"] ok by (simp add: image_size_def t_def)
    ultimately show "encode_snapshot_state st = Inr bs"
      using ok(4,5) a w [OF ok(1-3)] by (simp add: encode_snapshot_state_def Let_def)
  qed
qed

section \<open>Decoding\<close>

lemma values_room: "\<forall>(key, v) \<in> set vs. value_ok key v \<Longrightarrow> 9 * length vs \<le> (\<Sum>kv \<leftarrow> vs. value_size kv)"
proof (induction vs)
  case (Cons kv vs)
  then have "9 \<le> value_size kv"
    by (cases kv; cases "fst kv") (auto simp: value_size_def kEntryHeaderSize_def value_ok_def valid_key_size_def)
  then show ?case using Cons by simp
qed simp

lemma header_fields:
  fixes nv nc rest
  defines "B \<equiv> snapshot_header nv nc @ rest"
  shows "read_u32 (subspan 0 4 B) = kStateMagic" "read_u16 (subspan 4 2 B) = 2" "read_u16 (subspan 6 2 B) = 24"
    "subspan 8 8 B = put64 nv" "subspan 16 8 B = put64 nc"
  by (simp_all add: B_def snapshot_header_def subspan_def kStateFormatVersion_def)

lemma decode_snapshot_image:
  assumes "value_chain [] vs" and "client_chain (None, 0) cs" and "length vs \<le> kMaxSnapshotKeys" and "length cs \<le> kMaxDedupClients"
  shows "decode_snapshot_state (snapshot_image vs cs) = Inr \<lparr>ss_values = vs, ss_clients = cs\<rparr>"
proof -
  define B where "B = snapshot_image vs cs"
  let ?h = "snapshot_header (length vs) (length cs)"
  note f = header_fields [of "length vs" "length cs" "concat (map value_image vs) @ concat (map client_image cs)",
      folded snapshot_image_def, folded B_def]
  have n: "unat (of_nat (length vs) :: 64 word) = length vs" "unat (of_nat (length cs) :: 64 word) = length cs"
    using assms(3,4) by (intro unat_of_nat64; simp add: kMaxSnapshotKeys_def dedup_constants)+
  have l: "24 \<le> length B" "length B = 24 + length (concat (map value_image vs)) + length (concat (map client_image cs))"
    by (simp_all add: B_def snapshot_image_def)
  have "9 * length vs \<le> length B - 24"
    using values_room [of vs] assms(1) vals.length_images [OF assms(1)] l by (simp add: value_chain_iff)
  then have d: "length vs \<le> (length B - 24) div 9" by (simp add: less_eq_div_iff_mult_less_eq mult.commute)
  have v: "read_seq get_value value_size (length vs) 24 [] B = Inr (vs, length (?h @ concat (map value_image vs)))"
    using vals.read_images [OF assms(1), of ?h "concat (map client_image cs)"] by (simp add: B_def snapshot_image_def)
  have c: "read_seq get_client client_size (length cs) (length (?h @ concat (map value_image vs))) (None, 0) B =
      Inr (cs, length B)"
    using clients.read_images [OF assms(2), of "?h @ concat (map value_image vs)" "[]"]
    by (simp add: B_def snapshot_image_def)
  have "decode_snapshot_state B = Inr \<lparr>ss_values = vs, ss_clients = cs\<rparr>"
    using l(1) d assms(3,4) n v c
    by (simp add: decode_snapshot_state_def snapshot_constants f Let_def)
  then show ?thesis by (simp add: B_def)
qed

lemma decode_snapshot_sound:
  assumes "decode_snapshot_state bs = Inr st"
  shows "value_chain [] (ss_values st)" and "client_chain (None, 0) (ss_clients st)"
    and "length (ss_values st) \<le> kMaxSnapshotKeys" and "length (ss_clients st) \<le> kMaxDedupClients"
    and "read_u16 (subspan 4 2 bs) = kStateFormatVersion \<Longrightarrow> bs = snapshot_image (ss_values st) (ss_clients st)"
proof -
  define ver hs nv nc where "ver = read_u16 (subspan 4 2 bs)" and "hs = unat (read_u16 (subspan 6 2 bs))"
    and "nv = get64 8 bs" and "nc = (if ver = kStateFormatVersion then get64 16 bs else 0)"
  obtain o1 o2 where a: "16 \<le> length bs" "read_u32 (subspan 0 4 bs) = kStateMagic" "hs \<le> length bs"
      "ver = kStateFormatVersion \<longrightarrow> hs = 24" "nv \<le> kMaxSnapshotKeys" "nc \<le> kMaxDedupClients"
      "read_seq get_value value_size nv hs [] bs = Inr (ss_values st, o1)"
      "read_seq get_client client_size nc o1 (None, 0) bs = Inr (ss_clients st, o2)" "o2 = length bs"
    using assms
    by (auto simp: decode_snapshot_state_def Let_def ver_def [symmetric] hs_def [symmetric] nv_def [symmetric]
      nc_def [symmetric] kLegacyStateHeaderSize_def kStateHeaderSize_def bindE_eq_Inr split: if_splits)
  note v = vals.read_sound [OF a(7,3)]
  then have c: "client_chain (None, 0) (ss_clients st) \<and> length (ss_clients st) = nc \<and> o2 \<le> length bs \<and>
      drop o1 bs = concat (map client_image (ss_clients st)) @ drop o2 bs"
    by (intro clients.read_sound [OF a(8)]) blast
  show "value_chain [] (ss_values st)" "client_chain (None, 0) (ss_clients st)"
      "length (ss_values st) \<le> kMaxSnapshotKeys" "length (ss_clients st) \<le> kMaxDedupClients"
    using v c a(5,6) by blast+
  assume "read_u16 (subspan 4 2 bs) = kStateFormatVersion"
  then have ver: "ver = kStateFormatVersion" by (simp add: ver_def)
  then have h: "hs = 24" "24 \<le> length bs" "nc = get64 16 bs" using a(3,4) by (simp_all add: nc_def)
  have w: "subspan 0 4 bs = write_u32 kStateMagic" "subspan 4 2 bs = write_u16 kStateFormatVersion"
      "subspan 6 2 bs = write_u16 (read_u16 (subspan 6 2 bs))" "subspan 8 8 bs = put64 nv" "subspan 16 8 bs = put64 nc"
    using h(2) a(2) ver u32.get_eq_iff [of "subspan 0 4 bs"] u16.get_eq_iff [of "subspan 4 2 bs"] write_read_u16 [of "subspan 6 2 bs"]
      put_get64 [of 8 bs] put_get64 [of 16 bs] by (simp_all add: ver_def nv_def h(3))
  have "read_u16 (subspan 6 2 bs) = 24" using h(1) unat_eq_imp_of_nat [of "read_u16 (subspan 6 2 bs)" 24] by (simp add: hs_def)
  then have "snapshot_header nv nc = subspan 0 4 bs @ subspan 4 2 bs @ subspan 6 2 bs @ subspan 8 8 bs @ subspan 16 8 bs"
    using w by (simp add: snapshot_header_def)
  also have "\<dots> = take 24 bs" by (simp add: subspan_join subspan_0 [symmetric])
  finally have "bs = snapshot_header nv nc @ drop 24 bs" by simp
  then show "bs = snapshot_image (ss_values st) (ss_clients st)"
    using v c h(1) a(9) by (simp add: snapshot_image_def)
qed

lemma decoded_state:
  assumes "decode_snapshot_state bs = Inr st"
  shows "state_ok (ss_values st) (ss_clients st)" and "dedup_size (ss_clients st) \<le> kMaxDedupBytes"
    and "sort_key fst (ss_values st) = ss_values st" and "sort_key fst (ss_clients st) = ss_clients st"
proof -
  have v: "\<forall>(key, v) \<in> set (ss_values st). value_ok key v" "sorted_wrt (<) (map fst (ss_values st))"
    using decode_snapshot_sound(1) [OF assms] by (simp_all add: value_chain_iff)
  have c: "\<forall>(cid, r) \<in> set (ss_clients st). record_ok cid r" "sorted_wrt (<) (map fst (ss_clients st))"
      "dedup_size (ss_clients st) \<le> kMaxDedupBytes"
    using decode_snapshot_sound(2) [OF assms] by (simp_all add: client_chain_iff)
  show "state_ok (ss_values st) (ss_clients st)" using v c by (simp add: state_ok_def strict_sorted_iff)
  show "dedup_size (ss_clients st) \<le> kMaxDedupBytes" by (rule c(3))
  show "sort_key fst (ss_values st) = ss_values st" "sort_key fst (ss_clients st) = ss_clients st"
    using v(2) c(2) by (simp_all add: strict_sorted_iff sorted_sort_id sort_key_id_if_sorted)
qed

lemma encoded_decodes:
  assumes "distinct (map fst (ss_values st))" and "distinct (map fst (ss_clients st))"
    and "encode_snapshot_state st = Inr bs"
  shows "\<exists>st'. decode_snapshot_state bs = Inr st' \<and> map_of (ss_values st') = map_of (ss_values st) \<and>
    map_of (ss_clients st') = map_of (ss_clients st)"
proof -
  let ?vs = "sort_key fst (ss_values st)" and ?cs = "sort_key fst (ss_clients st)"
  have e: "state_ok (ss_values st) (ss_clients st)" "image_fits (ss_values st) (ss_clients st)" "bs = snapshot_image ?vs ?cs"
    using assms(3) encode_snapshot_iff [OF assms(1,2)] by blast+
  have "dedup_size ?cs = dedup_size (ss_clients st)" by (rule dedup_size_mset) simp
  then have "decode_snapshot_state bs = Inr \<lparr>ss_values = ?vs, ss_clients = ?cs\<rparr>"
    unfolding e(3) using e(1,2) sort_by_key(1) [OF assms(1)] sort_by_key(1) [OF assms(2)]
    by (intro decode_snapshot_image) (auto simp: value_chain_iff client_chain_iff state_ok_def image_fits_def)
  then show ?thesis using sort_by_key(2) [OF assms(1)] sort_by_key(2) [OF assms(2)] by simp
qed

lemma decoded_restores:
  fixes sm :: ReplicatedStateMachine
  assumes "decode_snapshot_state bs = Inr st" and "sm_max_clients sm = kMaxDedupClients" and "sm_max_dedup_bytes sm = kMaxDedupBytes"
  shows "\<exists>sm'. sm_restore st sm = Inr sm' \<and> sm_inv sm' \<and> sm_snapshot sm' = st"
proof -
  note ok = decoded_state [OF assms(1)]
  have "limits_ok sm" using assms(2,3) by (simp add: limits_ok_def dedup_constants)
  moreover obtain sm' where sm': "sm_restore st sm = Inr sm'"
    using ok(1,2) decode_snapshot_sound(4) [OF assms(1)] assms(2,3) by (auto simp: sm_restore_iff state_ok_def)
  moreover have "sm_snapshot sm' = st" using sm' by (auto simp: sm_restore_iff sm_snapshot_def)
  ultimately show ?thesis using sm_restore_inv ok(1) by (auto simp: state_ok_def)
qed

section \<open>Properties\<close>

text \<open>C35. Snapshot round trip: the image of a state decodes to a state with the same key-value map and the
  same client map.\<close>

theorem snapshot_roundtrip:
  assumes "distinct (map fst (ss_values st))" and "distinct (map fst (ss_clients st))"
    and "encode_snapshot_state st = Inr bs"
  shows "\<exists>st'. decode_snapshot_state bs = Inr st' \<and> map_of (ss_values st') = map_of (ss_values st) \<and>
    map_of (ss_clients st') = map_of (ss_clients st)"
  by (rule encoded_decodes [OF assms])

definition sample_state :: SnapshotState where
  "sample_state = \<lparr>ss_values = [([2], [9]), ([1], [])], ss_clients = []\<rparr>"

lemma sample_state_encodes: "encode_snapshot_state sample_state = Inr (snapshot_image [([1], []), ([2], [9])] [])"
proof -
  have "sort_key fst (ss_values sample_state) = [([1], []), ([2], [9])]" by (simp add: sample_state_def)
  moreover have "state_ok (ss_values sample_state) (ss_clients sample_state)"
    by (simp add: sample_state_def state_ok_def value_ok_def valid_key_size_def frame_constants)
  moreover have "image_fits (ss_values sample_state) (ss_clients sample_state)"
    by (simp add: sample_state_def image_fits_def image_size_def value_size_def snapshot_constants
      kMaxSnapshotKeys_def kMaxSnapshotPayloadSize_def dedup_constants)
  ultimately show ?thesis using encode_snapshot_iff [of sample_state] by (simp add: sample_state_def)
qed

theorem snapshot_roundtrip_witness:
  "\<exists>bs st'. encode_snapshot_state sample_state = Inr bs \<and> decode_snapshot_state bs = Inr st' \<and>
     map_of (ss_values st') = map_of (ss_values sample_state)"
  using snapshot_roundtrip [OF _ _ sample_state_encodes] sample_state_encodes by (auto simp: sample_state_def)

text \<open>C36. Snapshots are deterministic: two replicas that hold the same maps, in whatever iteration order,
  write the same bytes.\<close>

theorem snapshot_deterministic:
  assumes "distinct (map fst (ss_values a))" "distinct (map fst (ss_clients a))"
    and "distinct (map fst (ss_values b))" "distinct (map fst (ss_clients b))"
    and "map_of (ss_values a) = map_of (ss_values b)" and "map_of (ss_clients a) = map_of (ss_clients b)"
    and "encode_snapshot_state a = Inr bs"
  shows "encode_snapshot_state b = Inr bs"
proof -
  have m: "mset (ss_values a) = mset (ss_values b)" "mset (ss_clients a) = mset (ss_clients b)"
    using map_of_mset [OF assms(1,3,5)] map_of_mset [OF assms(2,4,6)] by simp_all
  have s: "set (ss_values b) = set (ss_values a)" "set (ss_clients b) = set (ss_clients a)"
    using mset_eq_setD [OF m(1)] mset_eq_setD [OF m(2)] by simp_all
  have sv: "sort_key fst (ss_values b) = sort_key fst (ss_values a)" "sort_key fst (ss_clients b) = sort_key fst (ss_clients a)"
    using sorted_map_unique [OF assms(1,3,5)] sorted_map_unique [OF assms(2,4,6)] by simp_all
  have "image_size (ss_values b) (ss_clients b) = image_size (ss_values a) (ss_clients a)"
    using sum_list_mset [OF m(1), of value_size] sum_list_mset [OF m(2), of client_size] by (simp add: image_size_def)
  then have "image_fits (ss_values a) (ss_clients a) \<longleftrightarrow> image_fits (ss_values b) (ss_clients b)"
    using dedup_size_mset [OF m(2)] mset_eq_length [OF m(1)] mset_eq_length [OF m(2)] by (simp add: image_fits_def)
  then show ?thesis
    using assms(7) assms(1-4) s sv by (simp add: encode_snapshot_iff state_ok_def)
qed

theorem snapshot_deterministic_witness:
  "encode_snapshot_state \<lparr>ss_values = [([1], []), ([2], [9])], ss_clients = []\<rparr> =
   encode_snapshot_state sample_state"
proof -
  have "map_of (ss_values sample_state) = map_of [([1], []), ([2], [9])]"
    by (auto simp: sample_state_def)
  then show ?thesis
    using snapshot_deterministic [of sample_state "\<lparr>ss_values = [([1], []), ([2], [9])], ss_clients = []\<rparr>"]
      sample_state_encodes by (simp add: sample_state_def)
qed

text \<open>C37. Whatever decodes is sound: its records are well-formed and within the limits, so a machine with
  the default limits restores it; and an image of the current version that does not exceed the payload
  limit is the one the encoder writes.\<close>

theorem snapshot_decode_sound:
  assumes "decode_snapshot_state bs = Inr st"
  shows "(\<forall>sm :: ReplicatedStateMachine. sm_max_clients sm = kMaxDedupClients \<and> sm_max_dedup_bytes sm = kMaxDedupBytes \<longrightarrow>
      (\<exists>sm'. sm_restore st sm = Inr sm' \<and> sm_inv sm' \<and> sm_snapshot sm' = st)) \<and>
    (read_u16 (subspan 4 2 bs) = kStateFormatVersion \<and> length bs \<le> kMaxSnapshotPayloadSize \<longrightarrow>
      encode_snapshot_state st = Inr bs)"
proof (intro conjI allI impI)
  fix sm :: ReplicatedStateMachine assume "sm_max_clients sm = kMaxDedupClients \<and> sm_max_dedup_bytes sm = kMaxDedupBytes"
  then show "\<exists>sm'. sm_restore st sm = Inr sm' \<and> sm_inv sm' \<and> sm_snapshot sm' = st"
    using decoded_restores [OF assms] by blast
next
  note ok = decoded_state [OF assms] and snd = decode_snapshot_sound [OF assms]
  assume v: "read_u16 (subspan 4 2 bs) = kStateFormatVersion \<and> length bs \<le> kMaxSnapshotPayloadSize"
  then have bs: "bs = snapshot_image (ss_values st) (ss_clients st)" using snd(5) by blast
  have "length bs = image_size (ss_values st) (ss_clients st)"
    using vals.length_images [OF snd(1)] clients.length_images [OF snd(2)]
    by (simp add: bs snapshot_image_def image_size_def kStateHeaderSize_def)
  then have "image_fits (ss_values st) (ss_clients st)" using v ok(2) snd(3,4) by (simp add: image_fits_def)
  then show "encode_snapshot_state st = Inr bs"
    using ok bs encode_snapshot_iff [of st bs] by (simp add: state_ok_def)
qed

theorem snapshot_decode_sound_witness:
  "\<exists>bs st. decode_snapshot_state bs = Inr st \<and> (\<forall>sm :: ReplicatedStateMachine. sm_max_clients sm = kMaxDedupClients \<and>
     sm_max_dedup_bytes sm = kMaxDedupBytes \<longrightarrow> (\<exists>sm'. sm_restore st sm = Inr sm' \<and> sm_inv sm'))"
proof -
  have "decode_snapshot_state (snapshot_image [([1], []), ([2], [9])] []) =
      Inr \<lparr>ss_values = [([1], []), ([2], [9])], ss_clients = []\<rparr>"
    by (rule decode_snapshot_image)
       (simp_all add: value_follows_def value_ok_def valid_key_size_def frame_constants kMaxSnapshotKeys_def)
  then show ?thesis using snapshot_decode_sound by blast
qed

end
