(* ===== verification/Spec2Isabelle.thy ===== *)
theory Spec2Isabelle
  imports Parser Kv_Store_Proofs Persisted_Node Snapshot_Codec
begin

text \<open>
  Verification of ForgeKV, a replicated key-value store in C++ (all paths below are under
  \<^verbatim>\<open>src/src/\<close>).

  \<^bold>\<open>The program and its parts.\<close> Clients and peers exchange \<^emph>\<open>frames\<close> over TCP; every frame carries CRC-32
  checksums and is found again in the byte stream by an incremental parser. A node of a cluster runs the
  \<^emph>\<open>Raft core\<close>, a deterministic object whose calls return actions: what to persist, what to send, what to
  apply. The \<^emph>\<open>persisted node\<close> carries out the persist actions on the \<^emph>\<open>Raft store\<close> (hard state, journal and
  snapshot files) and only then publishes the rest. Committed entries are commands of the \<^emph>\<open>replicated
  state machine\<close>, which executes each client request once; its state travels between nodes as a
  \<^emph>\<open>snapshot image\<close>. The single-node \<^emph>\<open>key-value engine\<close> has its own \<^emph>\<open>write-ahead log\<close> with group commit.

  \<^bold>\<open>Theories.\<close>

  \<^item> \<open>Prelude\<close>: bytes, results, the action monad of programs that leave disk steps, generic lemmas.
  \<^item> \<open>Wire\<close> (\<^verbatim>\<open>protocol/wire.h\<close>): big-endian fields; the locale \<open>fixed_width_codec\<close>, interpreted for 2, 4 and 8 bytes.
  \<^item> \<open>Checksum\<close> (\<^verbatim>\<open>protocol/checksum.cpp\<close>): the table-driven slicing-by-eight CRC-32 equals the bitwise one,
    whatever the chunks; the locale \<open>streaming_checksum\<close>.
  \<^item> \<open>Frame\<close> (\<^verbatim>\<open>protocol/frame.h\<close>, \<^verbatim>\<open>protocol/serializer.cpp\<close>) and \<open>Parser\<close> (\<^verbatim>\<open>protocol/parser.cpp\<close>): validation and
    serialisation; the parser refines the decoding of the whole stream, keeps its buffer bounded, and
    rejects every frame with one damaged byte.
  \<^item> \<open>Posix\<close>, \<open>Journal\<close>, \<open>Wal_Record\<close>, \<open>Wal\<close> (\<^verbatim>\<open>storage/wal_record.cpp\<close>, \<^verbatim>\<open>storage/wal.cpp\<close>): the loops around
    \<^verbatim>\<open>write\<close>, \<^verbatim>\<open>read\<close> and \<^verbatim>\<open>fdatasync\<close> over a script of results; the locale \<open>journal_codec\<close>; recovery after a crash.
  \<^item> \<open>Kv_Store\<close>, \<open>Kv_Store_Proofs\<close> (\<^verbatim>\<open>storage/kv_store.cpp\<close>): clients, queue and writer thread as the step relation
    of an interleaving; the invariant of its reachable states; acknowledged writes survive, each promise
    is kept once, the table is the replay of the log.
  \<^item> \<open>Raft_Types\<close> (\<^verbatim>\<open>raft/types.h\<close>) and \<open>Raft_Node\<close> (\<^verbatim>\<open>raft/raft_node.cpp\<close>): the whole class, one definition per
    member function, fields as a record, exceptions as values.
  \<^item> \<open>Raft_Inv\<close>, \<open>Raft_Calls\<close>, \<open>Raft_Handlers\<close>, \<open>Raft_Api\<close>, \<open>Raft_Safety\<close>: the invariant of a node, the effect of
    every handler and call as one relation, and the safety theorems: calls do not fail, what is sent is
    durable first, a restart resumes the node, at most one leader per term in a cluster with crashes and
    an unreliable network.
  \<^item> \<open>Peer_Codec\<close>, \<open>Command_Codec\<close> (\<^verbatim>\<open>cluster/codecs.cpp\<close>), \<open>Sequence_Codec\<close> (the shared loops over variable-size
    records, a locale) and \<open>Snapshot_Codec\<close> (\<^verbatim>\<open>cluster/snapshot_codec.cpp\<close>): round trips and canonical forms.
  \<^item> \<open>State_Machine\<close> (\<^verbatim>\<open>cluster/state_machine.cpp\<close>): exactly-once execution against a specification without
    caches, bounded memory, agreement of replicas.
  \<^item> \<open>Disk\<close>: files, pending writes and what a crash may leave of them. \<open>Raft_Files\<close>, \<open>Raft_Storage\<close>
    (\<^verbatim>\<open>raft/raft_storage.cpp\<close>, \<^verbatim>\<open>raft/snapshot_store.cpp\<close>): the formats and operations of the store, as programs that leave
    disk steps. \<open>Raft_Journal\<close>, \<open>Raft_Store\<close>: every update is atomic and durable, opening recovers it, the
    first start may be interrupted anywhere, and the one window in which a crash is not recoverable.
  \<^item> \<open>Persisted_Node\<close> (\<^verbatim>\<open>raft/persisted_raft_node.cpp\<close>): the driver; it composes the node with the store.

  This theory holds the properties that span several of these.

  \<^bold>\<open>Representation.\<close> Bytes are \<^typ>\<open>8 word\<close>, wire integers words of their width. Raft indexes and terms are
  natural numbers and the places where the code adds or subtracts write out the wrap-around at 64 bits
  (\<open>add64\<close>, \<open>sub64\<close>). Hash tables are association lists whose order no result depends on. An exception or an
  error return is the left summand of a result. Mutexes are modelled by the atomicity of the steps they
  protect. The random engine of the Raft core, the results of system calls, the contents of a file after
  a crash and the hash of a client identifier are parameters.

  \<^bold>\<open>Bounds and fuel.\<close> No definition of the code uses fuel: loops are structural recursion over the data or
  have a termination proof (the parser over the rest of its input, the retry loops over the script of
  system-call results, the replay of a journal over its bytes, the rewriting of a journal over the rest
  of its suffix). The commit and apply loops of the Raft core are recursive over the distance between two
  indexes.

  \<^bold>\<open>Not modelled.\<close> The event loop and the sockets (\<^verbatim>\<open>net/\<close>, \<^verbatim>\<open>server/tcp_server.cpp\<close>, \<^verbatim>\<open>server/admin_server.cpp\<close>): their
  behaviour is that of the kernel's readiness events and buffers; what they feed to the rest is the byte
  stream that the parser theorems quantify over. Metrics, logging and the Prometheus text
  (\<^verbatim>\<open>net/metrics.cpp\<close>, \<^verbatim>\<open>cluster/observability.cpp\<close>, \<^verbatim>\<open>common/logging.cpp\<close>): they are written and never read by the protocol.
  Command-line programs, the simulator, the fault-injection harness, benchmarks and tests: they drive the
  components above. Wall-clock time appears as the logical time passed to the Raft core.
\<close>

section \<open>Properties that span components\<close>

text \<open>C14. Peer messages arrive as they were sent: envelopes encoded into frames, serialised one after the other
  and cut into reads in any way, are parsed and decoded to the same envelopes in the same order.\<close>

theorem peer_stream_delivers:
  assumes "\<forall>(env, rid) \<in> set msgs. envelope_ok env"
    and "map (\<lambda>(env, rid). encode_peer_frame env rid) msgs = map Inr frames"
    and "concat chunks = concat (map (fst \<circ> serialize) frames)"
  shows "\<exists>p. consume_all new_parser chunks = Some (p, frames, no_error) \<and> finish p = (no_error, p) \<and>
    map decode_peer_frame frames = map (Inr \<circ> fst) msgs"
proof -
  have "frames = map (\<lambda>(env, rid). peer_frame env rid) msgs"
    using assms(1,2)
  proof (induction msgs arbitrary: frames)
    case (Cons m msgs)
    then show ?case using encode_peer_frame_eq [of "fst m" "snd m"] by (cases frames) (auto simp: split_beta)
  qed simp
  moreover have "validate f = no_error" if "f \<in> set frames" for f
    using that calculation assms(1) encode_peer_frame_eq by fastforce
  moreover have "map decode_peer_frame (map (\<lambda>(env, rid). peer_frame env rid) msgs) = map (Inr \<circ> fst) msgs"
    using assms(1) decode_peer_frame_eq by (auto simp: split_beta)
  ultimately show ?thesis using serialized_parses [of frames chunks] assms(3) by auto
qed

theorem peer_stream_delivers_witness:
  "\<exists>frame p. encode_peer_frame sample_envelope 17 = Inr frame \<and>
     consume_all new_parser [take 9 (fst (serialize frame)), drop 9 (fst (serialize frame))] = Some (p, [frame], no_error) \<and>
     decode_peer_frame frame = Inr sample_envelope"
proof -
  obtain frame where f: "encode_peer_frame sample_envelope 17 = Inr frame"
    using encode_peer_frame_eq [OF sample_envelope_ok, of 17] by blast
  then show ?thesis
    using peer_stream_delivers [of "[(sample_envelope, 17)]" "[frame]" "[take 9 (fst (serialize frame)), drop 9 (fst (serialize frame))]"]
      sample_envelope_ok by auto
qed

text \<open>C13. A replica that installs a snapshot behaves like the one that took it: the image of a machine's state
  decodes, restores into any machine with the default limits, and from then on both give the same answer
  to every command and stay alike.\<close>

theorem snapshot_transfer_agrees:
  assumes "sm_inv a" and "sm_max_clients a = kMaxDedupClients" and "sm_max_dedup_bytes a = kMaxDedupBytes"
    and "sm_max_clients b = kMaxDedupClients" and "sm_max_dedup_bytes b = kMaxDedupBytes"
    and "encode_snapshot_state (sm_snapshot a) = Inr bs"
  shows "\<exists>st b'. decode_snapshot_state bs = Inr st \<and> sm_restore st b = Inr b' \<and> sm_inv b' \<and> same_state a b' \<and>
    (\<forall>c bytes r a'. command_ok c \<longrightarrow> sm_apply c bytes a = Inr (r, a') \<longrightarrow>
       (\<exists>b''. sm_apply c bytes b' = Inr (r, b'') \<and> same_state a' b''))"
proof -
  have d: "distinct (map fst (ss_values (sm_snapshot a)))" "distinct (map fst (ss_clients (sm_snapshot a)))"
    using assms(1) by (simp_all add: sm_inv_def State_Machine.state_ok_def sm_snapshot_def)
  obtain st where st: "decode_snapshot_state bs = Inr st" "map_of (ss_values st) = map_of (sm_values a)"
      "map_of (ss_clients st) = map_of (sm_clients a)"
    using encoded_decodes [OF d assms(6)] by (auto simp: sm_snapshot_def)
  obtain b' where b': "sm_restore st b = Inr b'" "sm_inv b'" "sm_snapshot b' = st"
    using decoded_restores [OF st(1) assms(4,5)] by blast
  have same: "same_state a b'"
    using b' st assms(2-5) by (auto simp: same_state_def sm_restore_iff)
  have "\<exists>b''. sm_apply c bytes b' = Inr (r, b'') \<and> same_state a' b''"
    if "command_ok c" "sm_apply c bytes a = Inr (r, a')" for c bytes r a'
    using same_apply [OF assms(1) b'(2) same that] by blast
  then show ?thesis using st(1) b'(1,2) same by (intro exI [of _ st] exI [of _ b']) simp
qed

definition default_machine :: ReplicatedStateMachine where
  "default_machine = \<lparr>sm_max_clients = kMaxDedupClients, sm_max_dedup_bytes = kMaxDedupBytes, sm_dedup_bytes = 0,
     sm_values = ss_values sample_state, sm_clients = []\<rparr>"

theorem snapshot_transfer_agrees_witness:
  "\<exists>bs st b'. encode_snapshot_state (sm_snapshot default_machine) = Inr bs \<and> decode_snapshot_state bs = Inr st \<and>
     sm_restore st default_machine = Inr b' \<and> same_state default_machine b'"
proof -
  have i: "sm_inv default_machine"
    by (simp add: sm_inv_def default_machine_def limits_ok_def dedup_constants State_Machine.state_ok_def sample_state_def value_ok_def
        valid_key_size_def frame_constants)
  have "sm_snapshot default_machine = sample_state" by (simp add: sm_snapshot_def default_machine_def sample_state_def)
  then have e: "encode_snapshot_state (sm_snapshot default_machine) = Inr (snapshot_image [([1], []), ([2], [9])] [])"
    using sample_state_encodes by simp
  show ?thesis
    using snapshot_transfer_agrees [OF i _ _ _ _ e, of default_machine] e by (auto simp: default_machine_def)
qed

text \<open>C16. A stalled snapshot transfer. A follower that has already applied what a snapshot covers answers a chunk
  that is not the last one with success and the total size. The leader, which recorded where the chunk
  ended, ignores this answer and stays as it is, so that it sends the same chunk again.\<close>

theorem snapshot_transfer_stalls:
  assumes "\<not> bad_install leader request follower" and "is_last_included_index request \<le> rn_last_applied follower"
    and "\<not> is_done request"
  shows "\<exists>follower' answer. handle_install_snapshot leader request follower = Inr follower' \<and>
    last (rn_actions follower') = SendMessage leader (Msg_InstallSnapshotResponse answer) \<and> isr_success answer \<and>
    (\<forall>n p. map_of (rn_peer_progress n) peer = Some p \<and>
       (\<forall>sent \<in> set (pp_recent_snapshot_rpcs p). sr_rpc_id sent = is_rpc_id request \<longrightarrow>
          sr_end sent = is_offset request + length (is_data request)) \<longrightarrow>
       handle_install_snapshot_response peer answer n = Inr n)"
proof -
  let ?answer = "\<lparr>isr_term = rn_current_term (accept_leader leader follower), isr_success = True,
    isr_last_included_index = is_last_included_index request, isr_next_offset = is_total_size request, isr_rpc_id = is_rpc_id request\<rparr>"
  have "rn_last_applied (accept_leader leader follower) = rn_last_applied follower"
    by (simp add: accept_leader_def become_follower_def reset_election_deadline_def push_action_def Let_def)
  then have h: "handle_install_snapshot leader request follower =
      Inr (send_snapshot_response leader request True (is_total_size request) (accept_leader leader follower))"
    using assms(1,2) by (simp add: handle_install_snapshot_def)
  have "is_offset request + length (is_data request) \<noteq> is_total_size request" using assms(1,3) by (simp add: bad_install_def)
  then have "handle_install_snapshot_response peer ?answer n = Inr n"
    if p: "map_of (rn_peer_progress n) peer = Some p"
      "\<forall>sent \<in> set (pp_recent_snapshot_rpcs p). sr_rpc_id sent = is_rpc_id request \<longrightarrow>
         sr_end sent = is_offset request + length (is_data request)" for n p
  proof -
    have "is_total_size request \<noteq> sr_end sent"
      if "find (\<lambda>sent. sr_rpc_id sent = is_rpc_id request \<and> P sent) (pp_recent_snapshot_rpcs p) = Some sent" for P sent
      using p(2) \<open>is_offset request + _ \<noteq> _\<close> that nth_mem by (fastforce simp: find_Some_iff)
    then show ?thesis
      using p(1) by (auto simp: handle_install_snapshot_response_def snapshot_success_def split: option.split)
  qed
  then show ?thesis using h by (auto simp: send_snapshot_response_def push_action_def intro!: exI [of _ ?answer])
qed

definition sample_chunk :: InstallSnapshot where
  "sample_chunk = \<lparr>is_term = 2, is_leader_id = 2, is_last_included_index = 1, is_last_included_term = 1, is_total_size = 5,
     is_offset = 0, is_data = [1, 2], is_done = False, is_rpc_id = 4\<rparr>"

theorem snapshot_transfer_stalls_witness:
  "\<exists>follower' answer. handle_install_snapshot 2 sample_chunk (sample_node\<lparr>rn_last_applied := 1\<rparr>) = Inr follower' \<and>
    last (rn_actions follower') = SendMessage 2 (Msg_InstallSnapshotResponse answer) \<and> isr_success answer"
proof -
  have "\<not> bad_install 2 sample_chunk (sample_node\<lparr>rn_last_applied := 1\<rparr>)" "\<not> is_done sample_chunk"
      "is_last_included_index sample_chunk \<le> rn_last_applied (sample_node\<lparr>rn_last_applied := 1\<rparr>)"
    by (simp_all add: bad_install_def sample_node_def sample_chunk_def u64_max_def)
  then show ?thesis using snapshot_transfer_stalls by blast
qed

end
